(* ===== verification/Prelude.thy ===== *)
theory Prelude
  imports Main "HOL-Library.Sublist" "HOL-Library.AList" "HOL-Library.Multiset" "HOL-Library.Word"
begin

text \<open>
  Shared vocabulary of the development.

  \<^item> \<open>bytes\<close>: a Rust byte slice, and the UTF-8 bytes of a Rust string (offsets of the source
    are byte offsets, so are those of the model).
  \<^item> \<open>outcome\<close>: a computation that may panic (slice out of range, offset inside a character,
    index out of range). \<open>Panic\<close> is a value of the model, never an unspecified term.
  \<^item> the byte searches of the standard library, \<open>slice::windows().position()\<close> and
    \<open>str::find\<close>, as \<open>find_sub\<close>, with their characterisation by \<open>sublist\<close>.
  \<^item> \<open>hashmap\<close>: a \<open>std::collections::HashMap\<close>, as an association list with distinct keys, behind
    the interface locale \<open>keyed_store\<close>.
  \<^item> \<open>chunk_stream\<close>: the contract of an incremental parser, that feeding a byte stream in pieces
    is feeding it at once; the SSE parser and the chunked decoder are its instances.
  \<^item> stable sorting by a key and greedy selection of pairwise disjoint intervals.

  The collections: \<open>search_simps\<close> (searches), \<open>hm_simps\<close> (hash maps), \<open>out_simps\<close> (outcomes).
\<close>

named_theorems search_simps "facts about byte searches"
named_theorems hm_simps "facts about hash maps"
named_theorems out_simps "facts about outcomes"

type_synonym bytes = "char list"

section \<open>Outcomes of code that may panic\<close>

datatype 'a outcome = Panic | Done 'a

fun and_then :: "'a outcome \<Rightarrow> ('a \<Rightarrow> 'b outcome) \<Rightarrow> 'b outcome" where
  "and_then Panic f = Panic"
| "and_then (Done x) f = f x"

declare and_then.simps [out_simps]

lemma and_then_Done_iff [out_simps]:
  "and_then m f = Done y \<longleftrightarrow> (\<exists>x. m = Done x \<and> f x = Done y)"
  by (cases m) auto

lemma and_then_Panic_iff:
  "and_then m f = Panic \<longleftrightarrow> m = Panic \<or> (\<exists>x. m = Done x \<and> f x = Panic)"
  by (cases m) auto

lemma and_then_assoc: "and_then (and_then m f) g = and_then m (\<lambda>x. and_then (f x) g)"
  by (cases m) auto

definition slice :: "'a list \<Rightarrow> nat \<Rightarrow> nat \<Rightarrow> 'a list outcome" where
  "slice xs a b = (if a \<le> b \<and> b \<le> length xs then Done (take (b - a) (drop a xs)) else Panic)"

definition slice_from :: "'a list \<Rightarrow> nat \<Rightarrow> 'a list outcome" where
  "slice_from xs a = slice xs a (length xs)"

definition index :: "'a list \<Rightarrow> nat \<Rightarrow> 'a outcome" where
  "index xs i = (if i < length xs then Done (xs ! i) else Panic)"

lemma slice_ok [out_simps]:
  "a \<le> b \<Longrightarrow> b \<le> length xs \<Longrightarrow> slice xs a b = Done (take (b - a) (drop a xs))"
  by (simp add: slice_def)

lemma slice_from_ok [out_simps]: "a \<le> length xs \<Longrightarrow> slice_from xs a = Done (drop a xs)"
  by (simp add: slice_from_def slice_def)

lemma slice_from_Panic_iff: "slice_from xs a = Panic \<longleftrightarrow> length xs < a"
  by (auto simp: slice_from_def slice_def)

lemma index_ok [out_simps]: "i < length xs \<Longrightarrow> index xs i = Done (xs ! i)"
  by (simp add: index_def)

text \<open>The checked accessors \<open>get(i)\<close> and \<open>get(a..b)\<close>: \<open>None\<close> out of range.\<close>

definition get_at :: "'a list \<Rightarrow> nat \<Rightarrow> 'a option" where
  "get_at xs i = (if i < length xs then Some (xs ! i) else None)"

definition get_range :: "'a list \<Rightarrow> nat \<Rightarrow> nat \<Rightarrow> 'a list option" where
  "get_range xs a b = (if a \<le> b \<and> b \<le> length xs then Some (take (b - a) (drop a xs)) else None)"

lemma get_at_append_left [simp]: "i < length xs \<Longrightarrow> get_at (xs @ ys) i = get_at xs i"
  by (simp add: get_at_def nth_append)

lemma get_at_append_right [simp]:
  "length xs \<le> i \<Longrightarrow> get_at (xs @ ys) i = get_at ys (i - length xs)"
  by (auto simp: get_at_def nth_append)

lemma get_at_Cons_0 [simp]: "get_at (x # xs) 0 = Some x"
  by (simp add: get_at_def)

lemma get_at_Cons_Suc [simp]: "get_at (x # xs) (Suc i) = get_at xs i"
  by (simp add: get_at_def)

lemma get_at_Nil [simp]: "get_at [] i = None"
  by (simp add: get_at_def)

lemma set_map_filter_iff: "y \<in> set (List.map_filter f xs) \<longleftrightarrow> (\<exists>x\<in>set xs. f x = Some y)"
  by (force simp: List.map_filter_def)

section \<open>Searching bytes\<close>

fun find_sub :: "'a list \<Rightarrow> 'a list \<Rightarrow> nat option" where
  "find_sub n [] = (if n = [] then Some 0 else None)"
| "find_sub n (x # xs) = (if prefix n (x # xs) then Some 0 else map_option Suc (find_sub n xs))"

lemma find_sub_None_iff [search_simps]: "find_sub n h = None \<longleftrightarrow> \<not> sublist n h"
  by (induction h) (auto simp: sublist_Cons_right)

lemma find_sub_Some_iff_sublist: "(\<exists>i. find_sub n h = Some i) \<longleftrightarrow> sublist n h"
  using find_sub_None_iff [of n h] by auto

lemma find_sub_SomeD:
  "find_sub n h = Some i \<Longrightarrow>
     prefix n (drop i h) \<and> i + length n \<le> length h \<and> (\<forall>j<i. \<not> prefix n (drop j h))"
proof (induction h arbitrary: i)
  case Nil
  then show ?case by (simp split: if_splits)
next
  case (Cons x xs)
  show ?case
  proof (cases "prefix n (x # xs)")
    case True
    with Cons.prems show ?thesis by (auto dest: prefix_length_le)
  next
    case False
    with Cons.prems obtain k where k: "find_sub n xs = Some k" "i = Suc k" by auto
    from Cons.IH [OF k(1)] k(2) False show ?thesis
      by (auto simp: less_Suc_eq_0_disj)
  qed
qed

lemma find_subI:
  "prefix n (drop i h) \<Longrightarrow> i \<le> length h \<Longrightarrow> \<forall>j<i. \<not> prefix n (drop j h) \<Longrightarrow> find_sub n h = Some i"
proof (induction h arbitrary: i)
  case Nil
  then show ?case by simp
next
  case (Cons x xs)
  show ?case
  proof (cases i)
    case 0
    with Cons.prems show ?thesis by simp
  next
    case (Suc k)
    from Cons.prems(3) Suc have "\<not> prefix n (x # xs)"
      by (metis drop0 zero_less_Suc)
    moreover have "find_sub n xs = Some k"
      using Cons.prems Suc by (intro Cons.IH) auto
    ultimately show ?thesis using Suc by simp
  qed
qed

lemma find_sub_eq_Some_iff:
  "find_sub n h = Some i \<longleftrightarrow>
     prefix n (drop i h) \<and> i \<le> length h \<and> (\<forall>j<i. \<not> prefix n (drop j h))"
  by (metis add_leD1 find_subI find_sub_SomeD)

lemma find_sub_bound: "find_sub n h = Some i \<Longrightarrow> i + length n \<le> length h"
  using find_sub_SomeD by blast

lemma find_sub_split:
  assumes "find_sub n h = Some i"
  shows "h = take i h @ n @ drop (i + length n) h"
proof -
  from find_sub_SomeD [OF assms] obtain zs where "drop i h = n @ zs"
    by (auto simp: prefix_def)
  then have "h = take i h @ n @ zs" by (metis append_take_drop_id)
  moreover from \<open>drop i h = n @ zs\<close> have "drop (i + length n) h = zs"
    by (metis add.commute append_eq_conv_conj drop_drop)
  ultimately show ?thesis by simp
qed

text \<open>A first occurrence is stable under appending: the search has seen all it needs.\<close>

lemma find_sub_append_Some:
  "find_sub n a = Some i \<Longrightarrow> find_sub n (a @ b) = Some i"
proof (induction a arbitrary: i)
  case Nil
  then show ?case by (cases b) (auto split: if_splits)
next
  case (Cons x xs)
  show ?case
  proof (cases "prefix n (x # xs)")
    case True
    then have "prefix n ((x # xs) @ b)" by (rule prefix_prefix)
    with True Cons.prems show ?thesis by simp
  next
    case False
    with Cons.prems obtain k where k: "find_sub n xs = Some k" "i = Suc k" by auto
    have "\<not> prefix n (x # xs @ b)"
    proof
      assume "prefix n (x # xs @ b)"
      moreover have "length n \<le> length (x # xs)"
        using find_sub_bound [OF k(1)] by simp
      ultimately have "prefix n (x # xs)"
        by (metis append_Cons prefix_length_prefix prefixI)
      with False show False by simp
    qed
    with k Cons.IH [OF k(1)] show ?thesis by simp
  qed
qed

lemma sublist_append_iff_find:
  "sublist n a \<Longrightarrow> find_sub n (a @ b) = find_sub n a"
  using find_sub_append_Some [of n a _ b] find_sub_None_iff [of n a] by (cases "find_sub n a") auto

text \<open>
  Searching for a needle whose first byte occurs nowhere else in it: an occurrence cannot
  straddle the point where another occurrence starts.
\<close>

definition head_unique :: "'a list \<Rightarrow> bool" where
  "head_unique n \<longleftrightarrow> (case n of [] \<Rightarrow> False | x # xs \<Rightarrow> x \<notin> set xs)"

lemma prefix_drop_straddle:
  assumes hu: "head_unique n" and no: "\<not> sublist n a" and hd: "b \<noteq> []" "hd b = hd n"
    and j: "j < length a" and p: "prefix n (drop j (a @ b))"
  shows False
proof -
  from hu obtain x xs where n: "n = x # xs" "x \<notin> set xs"
    by (auto simp: head_unique_def split: list.splits)
  have dj: "drop j (a @ b) = drop j a @ b" using j by simp
  show False
  proof (cases "length n \<le> length a - j")
    case True
    then have "prefix n (drop j a)"
      using p unfolding dj by (metis length_drop prefix_length_prefix prefixI)
    then have "sublist n a" by (metis append_take_drop_id prefix_def sublist_appendI)
    with no show False by simp
  next
    case False
    let ?k = "length a - j"
    from False have k: "?k < length n" "0 < ?k" using j by auto
    obtain zs where zs: "drop j a @ b = n @ zs" using p unfolding dj by (auto simp: prefix_def)
    have "n ! ?k = (n @ zs) ! ?k" using k by (simp add: nth_append)
    also have "\<dots> = (drop j a @ b) ! ?k" by (simp add: zs)
    also have "\<dots> = hd b" using hd(1) j by (simp add: nth_append hd_conv_nth)
    finally have "n ! ?k = x" using hd(2) n by simp
    moreover from k obtain k' where "?k = Suc k'" "k' < length xs"
      using n by (cases ?k) auto
    ultimately have "x \<in> set xs" using n by auto
    with n show False by simp
  qed
qed

lemma find_sub_after_gap:
  assumes "head_unique n" and "\<not> sublist n a" and "prefix n b"
  shows "find_sub n (a @ b) = Some (length a)"
proof (rule find_subI)
  show "prefix n (drop (length a) (a @ b))" using assms(3) by simp
  have "b \<noteq> []" "hd b = hd n"
    using assms(1,3) by (auto simp: head_unique_def prefix_def split: list.splits)
  then show "\<forall>j<length a. \<not> prefix n (drop j (a @ b))"
    using prefix_drop_straddle [OF assms(1,2)] by blast
qed simp

lemma find_sub_skip: "x \<notin> set l \<Longrightarrow> find_sub (x # n) (l @ r) = map_option (\<lambda>i. length l + i) (find_sub (x # n) r)"
  by (induction l; cases "find_sub (x # n) r") auto

section \<open>Hash maps\<close>

type_synonym ('k, 'v) hashmap = "('k \<times> 'v) list"

definition hm_get :: "('k, 'v) hashmap \<Rightarrow> 'k \<Rightarrow> 'v option" where
  "hm_get m k = map_of m k"

definition hm_insert :: "'k \<Rightarrow> 'v \<Rightarrow> ('k, 'v) hashmap \<Rightarrow> ('k, 'v) hashmap" where
  "hm_insert k v m = AList.update k v m"

definition hm_remove :: "'k \<Rightarrow> ('k, 'v) hashmap \<Rightarrow> ('k, 'v) hashmap" where
  "hm_remove k m = AList.delete k m"

definition hm_len :: "('k, 'v) hashmap \<Rightarrow> nat" where
  "hm_len m = length m"

definition hm_ok :: "('k, 'v) hashmap \<Rightarrow> bool" where
  "hm_ok m \<longleftrightarrow> distinct (map fst m)"

definition hm_contains :: "('k, 'v) hashmap \<Rightarrow> 'k \<Rightarrow> bool" where
  "hm_contains m k \<longleftrightarrow> hm_get m k \<noteq> None"

text \<open>\<open>entry(k).or_insert(v)\<close>.\<close>

definition hm_or_insert :: "'k \<Rightarrow> 'v \<Rightarrow> ('k, 'v) hashmap \<Rightarrow> ('k, 'v) hashmap" where
  "hm_or_insert k v m = (if hm_contains m k then m else hm_insert k v m)"

text \<open>The interface the components rely on.\<close>

locale keyed_store =
  fixes empty :: 'm
    and get :: "'m \<Rightarrow> 'k \<Rightarrow> 'v option"
    and put :: "'k \<Rightarrow> 'v \<Rightarrow> 'm \<Rightarrow> 'm"
    and del :: "'k \<Rightarrow> 'm \<Rightarrow> 'm"
    and count :: "'m \<Rightarrow> nat"
    and ok :: "'m \<Rightarrow> bool"
  assumes get_empty: "get empty k = None"
    and get_put: "get (put k v m) k' = (if k' = k then Some v else get m k')"
    and get_del: "ok m \<Longrightarrow> get (del k m) k' = (if k' = k then None else get m k')"
    and count_empty: "count empty = 0"
    and count_put: "count (put k v m) = (if get m k = None then Suc (count m) else count m)"
    and ok_empty: "ok empty"
    and ok_put: "ok m \<Longrightarrow> ok (put k v m)"
    and ok_del: "ok m \<Longrightarrow> ok (del k m)"
begin

text \<open>\<open>or_put\<close> is \<open>entry(k).or_insert(v)\<close>; \<open>put_all\<close> and \<open>or_put_all\<close> fold over a list of pairs.\<close>

definition or_put :: "'k \<Rightarrow> 'v \<Rightarrow> 'm \<Rightarrow> 'm" where
  "or_put k v m = (if get m k = None then put k v m else m)"

lemma get_or_put:
  "get (or_put k v m) k' = (case get m k' of None \<Rightarrow> (if k' = k then Some v else None) | Some w \<Rightarrow> Some w)"
  by (auto simp: or_put_def get_put split: option.splits)

lemma ok_or_put: "ok m \<Longrightarrow> ok (or_put k v m)"
  by (simp add: or_put_def ok_put)

lemma get_fold_or_put:
  "get (fold (\<lambda>(k, v). or_put k v) kvs m) k' =
     (case get m k' of None \<Rightarrow> map_of kvs k' | Some w \<Rightarrow> Some w)"
  by (induction kvs arbitrary: m) (auto simp: get_or_put split: option.splits)

lemma count_put_le: "count m \<le> count (put k v m)"
  by (simp add: count_put)

lemma get_put_other: "k' \<noteq> k \<Longrightarrow> get (put k v m) k' = get m k'"
  by (simp add: get_put)

end

lemma length_update:
  "length (AList.update k v m) = (if map_of m k = None then Suc (length m) else length m)"
  by (induction m) auto

interpretation hm: keyed_store "[] :: ('k, 'v) hashmap" hm_get hm_insert hm_remove hm_len hm_ok
proof unfold_locales
  fix m :: "('k, 'v) hashmap" and k k' v
  show "hm_get (hm_insert k v m) k' = (if k' = k then Some v else hm_get m k')"
    by (simp add: hm_get_def hm_insert_def update_conv')
  show "hm_get (hm_remove k m) k' = (if k' = k then None else hm_get m k')"
    by (simp add: hm_get_def hm_remove_def delete_conv')
  show "hm_ok m \<Longrightarrow> hm_ok (hm_insert k v m)"
    by (simp add: hm_ok_def hm_insert_def distinct_update)
  show "hm_ok m \<Longrightarrow> hm_ok (hm_remove k m)"
    by (simp add: hm_ok_def hm_remove_def distinct_delete)
  show "hm_len (hm_insert k v m) = (if hm_get m k = None then Suc (hm_len m) else hm_len m)"
    by (simp add: hm_get_def hm_insert_def hm_len_def length_update)
qed (simp_all add: hm_get_def hm_len_def hm_ok_def)

declare hm.get_empty [hm_simps] hm.get_put [hm_simps] hm.count_empty [hm_simps]
  hm.count_put [hm_simps] hm.ok_empty [hm_simps] hm.ok_put [hm_simps] hm.ok_del [hm_simps]

lemma hm_or_insert_or_put: "hm_or_insert = hm.or_put"
  by (intro ext) (simp add: hm_or_insert_def hm.or_put_def hm_contains_def)

lemma hm_contains_insert [hm_simps]: "hm_contains (hm_insert k v m) k' \<longleftrightarrow> k' = k \<or> hm_contains m k'"
  by (auto simp: hm_contains_def hm_simps)

lemma hm_contains_empty [hm_simps]: "\<not> hm_contains [] k"
  by (simp add: hm_contains_def hm_simps)

lemma hm_contains_iff: "hm_contains m k \<longleftrightarrow> k \<in> fst ` set m"
  by (metis hm_contains_def hm_get_def map_of_eq_None_iff)

lemma hm_len_eq_0_iff [hm_simps]: "hm_len m = 0 \<longleftrightarrow> m = []"
  by (simp add: hm_len_def)

lemma hm_insert_not_Nil [hm_simps]: "hm_insert k v m \<noteq> []"
  by (cases m) (auto simp: hm_insert_def)

section \<open>Incremental parsers\<close>

text \<open>
  \<open>push s bs\<close> feeds \<open>bs\<close> to a parser in state \<open>s\<close> and returns what it emits. The law is that a
  push of two pieces is the two pushes one after the other. \<open>ok\<close> says which input the law covers
  (for a parser that stops listening after an end marker).
\<close>

fun feed :: "('s \<Rightarrow> 'b list \<Rightarrow> 'o list \<times> 's) \<Rightarrow> 's \<Rightarrow> 'b list list \<Rightarrow> 'o list \<times> 's" where
  "feed push s [] = ([], s)"
| "feed push s (c # cs) =
     (let (o1, s1) = push s c; (o2, s2) = feed push s1 cs in (o1 @ o2, s2))"

locale chunk_stream =
  fixes push :: "'s \<Rightarrow> 'b list \<Rightarrow> 'o list \<times> 's"
    and ok :: "'s \<Rightarrow> 'b list \<Rightarrow> bool"
  assumes push_append: "ok s (a @ b) \<Longrightarrow>
      push s (a @ b) = (let (o1, s1) = push s a; (o2, s2) = push s1 b in (o1 @ o2, s2))"
    and ok_later: "ok s (a @ b) \<Longrightarrow> ok (snd (push s a)) b"
begin

lemma feed_concat:
  "cs \<noteq> [] \<Longrightarrow> ok s (concat cs) \<Longrightarrow> feed push s cs = push s (concat cs)"
proof (induction cs arbitrary: s)
  case Nil
  then show ?case by simp
next
  case (Cons c cs)
  show ?case
  proof (cases "cs = []")
    case True
    then show ?thesis by (simp add: case_prod_unfold)
  next
    case False
    from Cons.prems have "ok (snd (push s c)) (concat cs)" by (auto intro: ok_later)
    with Cons.IH False have "feed push (snd (push s c)) cs = push (snd (push s c)) (concat cs)"
      by blast
    with Cons.prems show ?thesis by (simp add: push_append case_prod_unfold)
  qed
qed

text \<open>Two ways of cutting one stream give the same events and the same final state.\<close>

lemma feed_chunking:
  "cs \<noteq> [] \<Longrightarrow> ds \<noteq> [] \<Longrightarrow> concat cs = concat ds \<Longrightarrow> ok s (concat cs) \<Longrightarrow> feed push s cs = feed push s ds"
  by (metis feed_concat)

end

section \<open>Stable sorting and disjoint intervals\<close>

text \<open>
  \<open>Vec::sort_by_key\<close> is a stable sort, as \<open>sort_key\<close> is. Two half-open byte intervals overlap as
  the source tests it.
\<close>

definition overlaps :: "nat \<times> nat \<Rightarrow> nat \<times> nat \<Rightarrow> bool" where
  "overlaps a b \<longleftrightarrow> fst a < snd b \<and> fst b < snd a"

lemma overlaps_sym: "overlaps a b \<longleftrightarrow> overlaps b a"
  by (auto simp: overlaps_def)

definition disjoint_on :: "('a \<Rightarrow> nat \<times> nat) \<Rightarrow> 'a list \<Rightarrow> bool" where
  "disjoint_on iv xs \<longleftrightarrow> sorted_wrt (\<lambda>a b. \<not> overlaps (iv a) (iv b)) xs"

text \<open>Greedy selection: an element is kept when it overlaps none kept before it.\<close>

fun greedy :: "('a \<Rightarrow> nat \<times> nat) \<Rightarrow> 'a list \<Rightarrow> 'a list \<Rightarrow> 'a list" where
  "greedy iv out [] = out"
| "greedy iv out (x # xs) =
     greedy iv (if list_ex (\<lambda>s. overlaps (iv s) (iv x)) out then out else out @ [x]) xs"

lemma disjoint_on_snoc:
  "disjoint_on iv (xs @ [x]) \<longleftrightarrow>
     disjoint_on iv xs \<and> (\<forall>y\<in>set xs. \<not> overlaps (iv y) (iv x))"
  by (simp add: disjoint_on_def sorted_wrt_append)

lemma greedy_disjoint: "disjoint_on iv out \<Longrightarrow> disjoint_on iv (greedy iv out xs)"
  by (induction iv out xs rule: greedy.induct) (auto simp: disjoint_on_snoc list_ex_iff)

lemma greedy_subset: "set (greedy iv out xs) \<subseteq> set out \<union> set xs"
  by (induction iv out xs rule: greedy.induct) (auto split: if_splits)

lemma greedy_keeps: "set out \<subseteq> set (greedy iv out xs)"
  by (induction iv out xs rule: greedy.induct) auto

text \<open>A dropped element overlaps one that was kept before it was looked at.\<close>

lemma greedy_dropped:
  assumes "x \<in> set xs"
  shows "\<exists>y\<in>set (greedy iv out xs). y = x \<or> overlaps (iv y) (iv x)"
  using assms
proof (induction iv out xs rule: greedy.induct)
  case (1 iv out)
  then show ?case by simp
next
  case (2 iv out z zs)
  show ?case
  proof (cases "x = z")
    case True
    let ?out = "if list_ex (\<lambda>s. overlaps (iv s) (iv z)) out then out else out @ [z]"
    have "\<exists>y\<in>set ?out. y = x \<or> overlaps (iv y) (iv x)"
      using True by (auto simp: list_ex_iff)
    moreover have "set ?out \<subseteq> set (greedy iv out (z # zs))" using greedy_keeps [of ?out] by simp
    ultimately show ?thesis by blast
  next
    case False
    with 2 show ?thesis by simp
  qed
qed

text \<open>
  With the input in descending order of a rank, a dropped element overlaps a kept one of at
  least its rank.
\<close>

lemma greedy_dropped_rank:
  fixes rank :: "'a \<Rightarrow> 'r :: linorder"
  assumes "x \<in> set xs" and "sorted_wrt (\<lambda>a b. rank b \<le> rank a) xs"
    and "\<forall>a\<in>set out. \<forall>b\<in>set xs. rank b \<le> rank a"
  shows "\<exists>y\<in>set (greedy iv out xs). (y = x \<or> overlaps (iv y) (iv x)) \<and> rank x \<le> rank y"
  using assms
proof (induction iv out xs rule: greedy.induct)
  case (1 iv out)
  then show ?case by simp
next
  case (2 iv out z zs)
  let ?out = "if list_ex (\<lambda>s. overlaps (iv s) (iv z)) out then out else out @ [z]"
  show ?case
  proof (cases "x = z")
    case True
    have "\<exists>y\<in>set ?out. (y = x \<or> overlaps (iv y) (iv x)) \<and> rank x \<le> rank y"
      using True 2(4) by (auto simp: list_ex_iff)
    moreover have "set ?out \<subseteq> set (greedy iv out (z # zs))" using greedy_keeps [of ?out] by simp
    ultimately show ?thesis by blast
  next
    case False
    with 2(2,3,4) have "x \<in> set zs" "sorted_wrt (\<lambda>a b. rank b \<le> rank a) zs"
      "\<forall>a\<in>set ?out. \<forall>b\<in>set zs. rank b \<le> rank a" by auto
    from 2(1) [OF this] show ?thesis by simp
  qed
qed

text \<open>Disjointness does not depend on the order of the list, so sorting keeps it.\<close>

lemma sorted_wrt_mset_sym:
  assumes "\<And>a b. R a b \<longleftrightarrow> R b a" and "mset xs = mset ys" and "sorted_wrt R xs"
  shows "sorted_wrt R ys"
  using assms(2,3)
proof (induction ys arbitrary: xs)
  case Nil
  then show ?case by simp
next
  case (Cons y ys)
  from Cons.prems(1) have "y \<in> set xs" by (metis list.set_intros(1) set_mset_mset)
  then obtain as bs where xs: "xs = as @ y # bs" by (meson split_list)
  with Cons.prems have m: "mset (as @ bs) = mset ys" and "sorted_wrt R (as @ bs)"
    by (auto simp: sorted_wrt_append)
  then have "sorted_wrt R ys" by (rule Cons.IH)
  moreover have "\<forall>z\<in>set (as @ bs). R y z"
    using Cons.prems(2) assms(1) unfolding xs by (auto simp: sorted_wrt_append)
  then have "\<forall>z\<in>set ys. R y z" using m by (metis set_mset_mset)
  ultimately show ?case by simp
qed

lemma disjoint_on_mset: "mset xs = mset ys \<Longrightarrow> disjoint_on iv xs \<Longrightarrow> disjoint_on iv ys"
  unfolding disjoint_on_def by (rule sorted_wrt_mset_sym) (auto simp: overlaps_sym)

lemma disjoint_on_sort_key: "disjoint_on iv xs \<Longrightarrow> disjoint_on iv (sort_key f xs)"
  by (rule disjoint_on_mset [of xs]) simp_all

text \<open>Intervals in order, each starting at or after the end of the one before.\<close>

fun tiles :: "('a \<Rightarrow> nat \<times> nat) \<Rightarrow> nat \<Rightarrow> 'a list \<Rightarrow> bool" where
  "tiles iv from [] \<longleftrightarrow> True"
| "tiles iv from (x # xs) \<longleftrightarrow> from \<le> fst (iv x) \<and> fst (iv x) \<le> snd (iv x) \<and> tiles iv (snd (iv x)) xs"

lemma tiles_sorted_disjoint:
  assumes "sorted (map (\<lambda>x. fst (iv x)) xs)" and "disjoint_on iv xs"
    and "\<forall>x\<in>set xs. fst (iv x) < snd (iv x)" and "\<forall>x\<in>set xs. from \<le> fst (iv x)"
  shows "tiles iv from xs"
  using assms
proof (induction xs arbitrary: "from")
  case Nil
  then show ?case by simp
next
  case (Cons x xs)
  have "snd (iv x) \<le> fst (iv y)" if "y \<in> set xs" for y
    using Cons.prems that by (fastforce simp: disjoint_on_def overlaps_def)
  with Cons show ?case by (auto simp: disjoint_on_def intro!: Cons.IH)
qed

lemma tiles_mono: "tiles iv b xs \<Longrightarrow> a \<le> b \<Longrightarrow> tiles iv a xs"
  by (cases xs) auto

end
