(* ===== verification/Rust_Str.thy ===== *)
theory Rust_Str
  imports Prelude
begin

text \<open>
  What the code uses of Rust's \<open>str\<close>: UTF-8 validity and character boundaries, slicing with its
  panics, trimming, lines, splitting, lower case, and the printing and parsing of unsigned
  integers in a radix. A string is its UTF-8 bytes.
\<close>

named_theorems str_simps "facts about strings"

abbreviation LF :: char where "LF \<equiv> CHR 0x0A"
abbreviation CR :: char where "CR \<equiv> CHR 0x0D"
abbreviation QUOTE :: char where "QUOTE \<equiv> CHR 0x22"

definition crlf :: bytes where
  "crlf = [CR, LF]"

definition byte :: "char \<Rightarrow> nat" where
  "byte c = of_char c"

section \<open>UTF-8\<close>

definition is_cont :: "char \<Rightarrow> bool" where
  "is_cont c \<longleftrightarrow> 128 \<le> byte c \<and> byte c < 192"

text \<open>
  The length of the well-formed character at the head, by the table of RFC 3629: the length the
  lead byte announces (0 for a byte that leads nothing), continuation bytes after it, and the
  restricted second byte of the leads E0, ED, F0 and F4.
\<close>

definition lead_len :: "char \<Rightarrow> nat" where
  "lead_len a =
     (if byte a < 128 then 1
      else if byte a < 194 then 0
      else if byte a < 224 then 2
      else if byte a < 240 then 3
      else if byte a < 245 then 4 else 0)"

definition second_ok :: "char \<Rightarrow> bytes \<Rightarrow> bool" where
  "second_ok a r \<longleftrightarrow>
     (case r of [] \<Rightarrow> True
      | b # _ \<Rightarrow> (byte a = 224 \<longrightarrow> 160 \<le> byte b) \<and> (byte a = 237 \<longrightarrow> byte b \<le> 159)
          \<and> (byte a = 240 \<longrightarrow> 144 \<le> byte b) \<and> (byte a = 244 \<longrightarrow> byte b \<le> 143))"

definition utf8_next :: "bytes \<Rightarrow> nat option" where
  "utf8_next s =
     (case s of [] \<Rightarrow> None
      | a # _ \<Rightarrow>
          let k = lead_len a; r = take (k - 1) (tl s) in
          if 0 < k \<and> k \<le> length s \<and> list_all is_cont r \<and> second_ok a r then Some k else None)"

lemma lead_len_cont: "0 < lead_len a \<Longrightarrow> \<not> is_cont a"
  by (auto simp: lead_len_def is_cont_def split: if_splits)

lemma utf8_next_SomeD:
  assumes "utf8_next s = Some k"
  shows "0 < k \<and> k \<le> length s \<and> \<not> is_cont (hd s) \<and> (\<forall>i. 0 < i \<longrightarrow> i < k \<longrightarrow> is_cont (s ! i))"
proof -
  from assms obtain a t where s: "s = a # t" and k: "k = lead_len a" "0 < k" "k \<le> length s"
      and r: "list_all is_cont (take (k - 1) t)"
    by (auto simp: utf8_next_def Let_def split: list.splits if_splits)
  have "is_cont (s ! i)" if "0 < i" "i < k" for i
  proof -
    from that k s have "i - 1 < length (take (k - 1) t)" by auto
    with r have "is_cont (take (k - 1) t ! (i - 1))" by (simp add: list_all_length)
    with that s show ?thesis by (cases i) auto
  qed
  with s k lead_len_cont show ?thesis by auto
qed

lemma utf8_next_take: "utf8_next s = Some k \<Longrightarrow> utf8_next (take k s) = Some k"
  by (cases k; cases s) (auto simp: utf8_next_def Let_def split: if_splits)

lemma utf8_next_append: "utf8_next s = Some k \<Longrightarrow> utf8_next (s @ t) = Some k"
  by (cases s) (auto simp: utf8_next_def Let_def split: if_splits)

lemma utf8_next_ascii: "byte a < 128 \<Longrightarrow> utf8_next (a # s) = Some 1"
  by (simp add: utf8_next_def lead_len_def second_ok_def)

function utf8_valid :: "bytes \<Rightarrow> bool" where
  "utf8_valid s =
     (if s = [] then True else case utf8_next s of None \<Rightarrow> False | Some k \<Rightarrow> utf8_valid (drop k s))"
  by pat_completeness auto
termination
  by (relation "measure length") (auto dest!: utf8_next_SomeD)

declare utf8_valid.simps [simp del]

lemma utf8_valid_Nil [simp]: "utf8_valid []"
  by (simp add: utf8_valid.simps)

lemma utf8_valid_step: "utf8_next s = Some k \<Longrightarrow> utf8_valid s \<longleftrightarrow> utf8_valid (drop k s)"
  by (subst utf8_valid.simps) auto

lemma utf8_valid_nextE:
  assumes "utf8_valid s" and "s \<noteq> []"
  obtains k where "utf8_next s = Some k" and "utf8_valid (drop k s)"
  using assms by (subst (asm) utf8_valid.simps) (auto split: option.splits)

lemma utf8_valid_hd: "utf8_valid s \<Longrightarrow> s \<noteq> [] \<Longrightarrow> \<not> is_cont (hd s)"
  by (metis utf8_next_SomeD utf8_valid_nextE)

lemma utf8_valid_append_iff:
  "utf8_valid a \<Longrightarrow> utf8_valid (a @ b) \<longleftrightarrow> utf8_valid b"
proof (induction a rule: utf8_valid.induct)
  case (1 a)
  show ?case
  proof (cases "a = []")
    case True
    then show ?thesis by simp
  next
    case False
    with 1 obtain k where k: "utf8_next a = Some k" "utf8_valid (drop k a)"
      by (metis utf8_valid_nextE)
    then have "utf8_valid (a @ b) \<longleftrightarrow> utf8_valid (drop k (a @ b))"
      by (intro utf8_valid_step utf8_next_append)
    also have "drop k (a @ b) = drop k a @ b" using utf8_next_SomeD [OF k(1)] by simp
    finally show ?thesis using 1(1) [OF False k] by simp
  qed
qed

lemma utf8_valid_append: "utf8_valid a \<Longrightarrow> utf8_valid b \<Longrightarrow> utf8_valid (a @ b)"
  by (simp add: utf8_valid_append_iff)

lemma utf8_valid_concat: "\<forall>s\<in>set ss. utf8_valid s \<Longrightarrow> utf8_valid (concat ss)"
  by (induction ss) (auto intro: utf8_valid_append)

definition ascii :: "bytes \<Rightarrow> bool" where
  "ascii s \<longleftrightarrow> list_all (\<lambda>c. byte c < 128) s"

lemma ascii_Cons [simp]: "ascii (c # s) \<longleftrightarrow> byte c < 128 \<and> ascii s"
  and ascii_Nil [simp]: "ascii []"
  and ascii_append [simp]: "ascii (a @ b) \<longleftrightarrow> ascii a \<and> ascii b"
  by (auto simp: ascii_def)

lemma ascii_utf8: "ascii s \<Longrightarrow> utf8_valid s"
  by (induction s) (auto simp: utf8_valid_step [OF utf8_next_ascii])

lemma utf8_valid_ascii_Cons: "byte c < 128 \<Longrightarrow> utf8_valid (c # s) \<longleftrightarrow> utf8_valid s"
  using utf8_valid_step [OF utf8_next_ascii] by simp

lemma ascii_literal: "list_all (\<lambda>c. byte c < 128) s \<Longrightarrow> utf8_valid s"
  by (rule ascii_utf8) (simp add: ascii_def)

text \<open>
  \<open>String::from_utf8_lossy\<close>: every maximal ill-formed piece becomes U+FFFD (EF BF BD). The piece is the
  lead byte with the continuation bytes that could still have belonged to it.
\<close>

definition ill_formed_len :: "bytes \<Rightarrow> nat" where
  "ill_formed_len s =
     (let k = lead_len (hd s); r = takeWhile is_cont (take (k - 1) (tl s)) in
      if second_ok (hd s) r then Suc (length r) else 1)"

function from_utf8_lossy :: "bytes \<Rightarrow> bytes" where
  "from_utf8_lossy s =
     (if s = [] then []
      else case utf8_next s of
        Some k \<Rightarrow> take k s @ from_utf8_lossy (drop k s)
      | None \<Rightarrow> [CHR 0xEF, CHR 0xBF, CHR 0xBD] @ from_utf8_lossy (drop (ill_formed_len s) s))"
  by pat_completeness auto
termination
  by (relation "measure length") (auto simp: ill_formed_len_def Let_def dest!: utf8_next_SomeD)

declare from_utf8_lossy.simps [simp del]

lemma from_utf8_lossy_valid: "utf8_valid s \<Longrightarrow> from_utf8_lossy s = s"
proof (induction s rule: from_utf8_lossy.induct)
  case (1 s)
  show ?case
  proof (cases "s = []")
    case True
    then show ?thesis by (simp add: from_utf8_lossy.simps)
  next
    case False
    with 1 obtain k where k: "utf8_next s = Some k" "utf8_valid (drop k s)" by (metis utf8_valid_nextE)
    with 1(2) [OF False k(1)] False show ?thesis by (subst from_utf8_lossy.simps) simp
  qed
qed

section \<open>Character boundaries and slices\<close>

definition is_char_boundary :: "bytes \<Rightarrow> nat \<Rightarrow> bool" where
  "is_char_boundary s i \<longleftrightarrow> i \<le> length s \<and> (i = length s \<or> i = 0 \<or> \<not> is_cont (s ! i))"

lemma boundary_0 [simp]: "is_char_boundary s 0"
  and boundary_length [simp]: "is_char_boundary s (length s)"
  by (auto simp: is_char_boundary_def)

lemma utf8_valid_split:
  assumes "utf8_valid s" and "is_char_boundary s i"
  shows "utf8_valid (take i s) \<and> utf8_valid (drop i s)"
  using assms
proof (induction s arbitrary: i rule: utf8_valid.induct)
  case (1 s)
  show ?case
  proof (cases "s = [] \<or> i = 0")
    case True
    with "1.prems" show ?thesis by (auto simp: is_char_boundary_def)
  next
    case False
    with "1.prems" obtain k where k: "utf8_next s = Some k" "utf8_valid (drop k s)"
      by (metis utf8_valid_nextE)
    note kD = utf8_next_SomeD [OF k(1)]
    have ki: "k \<le> i"
      using "1.prems"(2) False kD by (fastforce simp: is_char_boundary_def)
    then have "is_char_boundary (drop k s) (i - k)"
      using "1.prems"(2) kD by (auto simp: is_char_boundary_def)
    then have IH: "utf8_valid (take (i - k) (drop k s)) \<and> utf8_valid (drop (i - k) (drop k s))"
      using "1.IH" False k by blast
    have "take i s = take k s @ take (i - k) (drop k s)"
      using ki by (metis append_take_drop_id le_add_diff_inverse take_add)
    moreover have "utf8_valid (take k s)"
      using utf8_next_take [OF k(1)] by (simp add: utf8_valid_step)
    ultimately show ?thesis using IH ki by (simp add: utf8_valid_append)
  qed
qed

text \<open>\<open>&s[a..b]\<close>, \<open>&s[a..]\<close> and \<open>s.get(a..b)\<close>.\<close>

definition str_slice :: "bytes \<Rightarrow> nat \<Rightarrow> nat \<Rightarrow> bytes outcome" where
  "str_slice s a b =
     (if a \<le> b \<and> is_char_boundary s a \<and> is_char_boundary s b
      then Done (take (b - a) (drop a s)) else Panic)"

definition str_from :: "bytes \<Rightarrow> nat \<Rightarrow> bytes outcome" where
  "str_from s a = str_slice s a (length s)"

definition str_get :: "bytes \<Rightarrow> nat \<Rightarrow> nat \<Rightarrow> bytes option" where
  "str_get s a b =
     (if a \<le> b \<and> is_char_boundary s a \<and> is_char_boundary s b
      then Some (take (b - a) (drop a s)) else None)"

lemma str_slice_ok [out_simps]:
  "a \<le> b \<Longrightarrow> is_char_boundary s a \<Longrightarrow> is_char_boundary s b \<Longrightarrow>
     str_slice s a b = Done (take (b - a) (drop a s))"
  by (simp add: str_slice_def)

lemma str_from_ok [out_simps]: "is_char_boundary s a \<Longrightarrow> str_from s a = Done (drop a s)"
  by (auto simp: str_from_def str_slice_def is_char_boundary_def)

lemma boundary_append_iff:
  assumes "utf8_valid b"
  shows "is_char_boundary (a @ b) (length a + i) \<longleftrightarrow> is_char_boundary b i"
proof (cases "b = [] \<or> 0 < i")
  case True
  then show ?thesis by (auto simp: is_char_boundary_def nth_append)
next
  case False
  then have "\<not> is_cont (b ! 0)" using utf8_valid_hd [OF assms] by (simp add: hd_conv_nth)
  with False show ?thesis by (simp add: is_char_boundary_def nth_append)
qed

text \<open>A valid non-empty pattern found in a valid text starts and ends on boundaries.\<close>

lemma occurrence_boundaries:
  assumes s: "utf8_valid s" and p: "utf8_valid p" "p \<noteq> []" and i: "prefix p (drop i s)"
  shows "is_char_boundary s i" and "is_char_boundary s (i + length p)"
    and "utf8_valid (drop (i + length p) s)"
proof -
  from i obtain r where r: "drop i s = p @ r" by (auto simp: prefix_def)
  with p(2) have il: "i < length s" by (metis append_is_Nil_conv drop_all not_le)
  have "s ! i = hd p" using r p(2) il by (metis hd_append2 hd_drop_conv_nth)
  with utf8_valid_hd [OF p] show b: "is_char_boundary s i"
    using il by (simp add: is_char_boundary_def)
  with s r have "utf8_valid (p @ r)" by (metis utf8_valid_split)
  with p(1) have vr: "utf8_valid r" by (simp add: utf8_valid_append_iff)
  have sr: "s = (take i s @ p) @ r" using r by (metis append.assoc append_take_drop_id)
  have l: "length (take i s @ p) = i + length p" using il by simp
  from boundary_append_iff [OF vr, of "take i s @ p" 0] l sr
  show "is_char_boundary s (i + length p)" by simp
  show "utf8_valid (drop (i + length p) s)"
    using vr l sr by (metis append_eq_conv_conj)
qed

section \<open>Characters, trimming, lines, splitting\<close>

text \<open>The characters of a string, each as its bytes; a byte outside any character stands alone.\<close>

function utf8_chars :: "bytes \<Rightarrow> bytes list" where
  "utf8_chars s =
     (if s = [] then []
      else let k = (case utf8_next s of None \<Rightarrow> 1 | Some k \<Rightarrow> k) in take k s # utf8_chars (drop k s))"
  by pat_completeness auto
termination
  by (relation "measure length") (auto dest!: utf8_next_SomeD split: option.splits)

declare utf8_chars.simps [simp del]

lemma utf8_chars_Nil [simp]: "utf8_chars [] = []"
  by (simp add: utf8_chars.simps)

lemma concat_utf8_chars [simp]: "concat (utf8_chars s) = s"
  by (induction s rule: utf8_chars.induct) (subst utf8_chars.simps, simp add: Let_def)

lemma utf8_chars_ascii: "ascii s \<Longrightarrow> utf8_chars s = map (\<lambda>c. [c]) s"
  by (induction s) (simp_all add: utf8_chars.simps [of "_ # _"] utf8_next_ascii)

text \<open>The characters with the property White\_Space (\<open>char::is_whitespace\<close>).\<close>

definition is_whitespace :: "bytes \<Rightarrow> bool" where
  "is_whitespace ch \<longleftrightarrow>
     (case map byte ch of
        [a] \<Rightarrow> (9 \<le> a \<and> a \<le> 13) \<or> a = 32
      | [a, b] \<Rightarrow> a = 194 \<and> (b = 133 \<or> b = 160)
      | [a, b, c] \<Rightarrow>
          (a = 225 \<and> b = 154 \<and> c = 128)
          \<or> (a = 226 \<and> b = 128 \<and> (c \<le> 138 \<or> c = 168 \<or> c = 169 \<or> c = 175))
          \<or> (a = 226 \<and> b = 129 \<and> c = 159) \<or> (a = 227 \<and> b = 128 \<and> c = 128)
      | _ \<Rightarrow> False)"

definition trim :: "bytes \<Rightarrow> bytes" where
  "trim s =
     concat (rev (dropWhile is_whitespace (rev (dropWhile is_whitespace (utf8_chars s)))))"

definition trim_end_matches :: "char \<Rightarrow> bytes \<Rightarrow> bytes" where
  "trim_end_matches c s = rev (dropWhile (\<lambda>x. x = c) (rev s))"

definition blank :: "char \<Rightarrow> bool" where
  "blank c \<longleftrightarrow> is_whitespace [c]"

lemma trim_ascii:
  "ascii s \<Longrightarrow> trim s = rev (dropWhile blank (rev (dropWhile blank s)))"
  by (simp add: trim_def utf8_chars_ascii dropWhile_map rev_map comp_def blank_def [abs_def])

lemma trim_ascii_id:
  "ascii s \<Longrightarrow> s \<noteq> [] \<Longrightarrow> \<not> blank (hd s) \<Longrightarrow> \<not> blank (last s) \<Longrightarrow> trim s = s"
  using dropWhile_eq_self_iff [of blank s] dropWhile_eq_self_iff [of blank "rev s"]
  by (simp add: trim_ascii hd_rev)

lemma trim_blank_Cons: "ascii (c # s) \<Longrightarrow> blank c \<Longrightarrow> trim (c # s) = trim s"
  by (simp add: trim_ascii)

text \<open>\<open>str::lines\<close>: cut after every line feed, then strip LF or CR LF from each piece that has one.\<close>

fun split_incl :: "bytes \<Rightarrow> bytes list" where
  "split_incl [] = []"
| "split_incl (c # cs) =
     (if c = LF then [c] # split_incl cs
      else (case split_incl cs of [] \<Rightarrow> [[c]] | l # ls \<Rightarrow> (c # l) # ls))"

definition strip_eol :: "bytes \<Rightarrow> bytes" where
  "strip_eol l =
     (if l \<noteq> [] \<and> last l = LF
      then (let m = butlast l in if m \<noteq> [] \<and> last m = CR then butlast m else m) else l)"

definition str_lines :: "bytes \<Rightarrow> bytes list" where
  "str_lines s = map strip_eol (split_incl s)"

lemma concat_split_incl [simp]: "concat (split_incl s) = s"
  by (induction s) (auto split: list.splits)

lemma split_incl_line:
  "LF \<notin> set l \<Longrightarrow> split_incl (l @ LF # r) = (l @ [LF]) # split_incl r"
  by (induction l) auto

lemma split_incl_no_LF: "LF \<notin> set l \<Longrightarrow> split_incl l = (if l = [] then [] else [l])"
  by (induction l) auto

lemma str_lines_Nil [simp]: "str_lines [] = []"
  by (simp add: str_lines_def)

lemma str_lines_line:
  "LF \<notin> set l \<Longrightarrow> str_lines (l @ LF # r) = (if l \<noteq> [] \<and> last l = CR then butlast l else l) # str_lines r"
  by (simp add: str_lines_def split_incl_line strip_eol_def)

lemma str_lines_crlf: "LF \<notin> set l \<Longrightarrow> str_lines (l @ crlf @ r) = l # str_lines r"
  using str_lines_line [of "l @ [CR]" r] by (simp add: crlf_def)

lemma str_lines_last: "LF \<notin> set l \<Longrightarrow> l \<noteq> [] \<Longrightarrow> str_lines l = [l]"
  by (auto simp: str_lines_def split_incl_no_LF strip_eol_def dest: last_in_set)

text \<open>\<open>split(c)\<close>: never empty. \<open>split_once\<close>, \<open>rsplit_once\<close>, \<open>strip_prefix\<close>.\<close>

fun split_on :: "char \<Rightarrow> bytes \<Rightarrow> bytes list" where
  "split_on d [] = [[]]"
| "split_on d (c # cs) =
     (if c = d then [] # split_on d cs
      else (case split_on d cs of [] \<Rightarrow> [[c]] | l # ls \<Rightarrow> (c # l) # ls))"

lemma split_on_not_Nil [simp]: "split_on d s \<noteq> []"
  by (induction s) (auto split: list.splits)

lemma split_on_hd: "d \<notin> set l \<Longrightarrow> split_on d (l @ d # r) = l # split_on d r"
  by (induction l) auto

lemma split_on_none: "d \<notin> set l \<Longrightarrow> split_on d l = [l]"
  by (induction l) auto

definition split_once :: "char \<Rightarrow> bytes \<Rightarrow> (bytes \<times> bytes) option" where
  "split_once d s =
     (if d \<in> set s
      then Some (takeWhile (\<lambda>c. c \<noteq> d) s, tl (dropWhile (\<lambda>c. c \<noteq> d) s)) else None)"

definition rsplit_once :: "char \<Rightarrow> bytes \<Rightarrow> (bytes \<times> bytes) option" where
  "rsplit_once d s = map_option (\<lambda>(a, b). (rev b, rev a)) (split_once d (rev s))"

lemma split_once_hd: "d \<notin> set l \<Longrightarrow> split_once d (l @ d # r) = Some (l, r)"
  by (induction l) (auto simp: split_once_def)

lemma rsplit_once_last: "d \<notin> set r \<Longrightarrow> rsplit_once d (l @ d # r) = Some (l, r)"
  using split_once_hd [of d "rev r" "rev l"] by (simp add: rsplit_once_def)

definition strip_prefix :: "bytes \<Rightarrow> bytes \<Rightarrow> bytes option" where
  "strip_prefix p s = (if prefix p s then Some (drop (length p) s) else None)"

lemma strip_prefix_append [simp]: "strip_prefix p (p @ s) = Some s"
  by (simp add: strip_prefix_def)

section \<open>Letter case\<close>

definition ascii_lower :: "char \<Rightarrow> char" where
  "ascii_lower c = (if 65 \<le> byte c \<and> byte c \<le> 90 then char_of (byte c + 32) else c)"

definition ascii_upper :: "char \<Rightarrow> char" where
  "ascii_upper c = (if 97 \<le> byte c \<and> byte c \<le> 122 then char_of (byte c - 32) else c)"

definition to_ascii_lowercase :: "bytes \<Rightarrow> bytes" where
  "to_ascii_lowercase = map ascii_lower"

text \<open>
  \<open>str::to_lowercase\<close>. Two characters outside ASCII have a lower case that contains an ASCII
  letter: KELVIN SIGN (E2 84 AA) becomes \<open>k\<close>, and LATIN CAPITAL LETTER I WITH DOT ABOVE (C4 B0)
  becomes \<open>i\<close> followed by the combining dot CC 87. Every other non-ASCII character has a non-ASCII
  lower case and is left alone here: the code only ever compares a lowered string with ASCII
  patterns or parses ASCII digits out of it.
\<close>

definition lower_char :: "bytes \<Rightarrow> bytes" where
  "lower_char ch =
     (if map byte ch = [226, 132, 170] then ''k''
      else if map byte ch = [196, 176] then [CHR ''i'', char_of (204 :: nat), char_of (135 :: nat)]
      else case ch of [c] \<Rightarrow> [ascii_lower c] | _ \<Rightarrow> ch)"

definition to_lowercase :: "bytes \<Rightarrow> bytes" where
  "to_lowercase s = concat (map lower_char (utf8_chars s))"

lemma to_lowercase_ascii: "ascii s \<Longrightarrow> to_lowercase s = map ascii_lower s"
  by (simp add: to_lowercase_def utf8_chars_ascii comp_def lower_char_def)

section \<open>Unsigned integers\<close>

definition digit_char :: "nat \<Rightarrow> char" where
  "digit_char d = (if d < 10 then char_of (48 + d) else char_of (55 + d))"

definition digit_char_lower :: "nat \<Rightarrow> char" where
  "digit_char_lower d = (if d < 10 then char_of (48 + d) else char_of (87 + d))"

text \<open>\<open>char::to_digit\<close> in a radix of at most 36.\<close>

definition digit_val :: "nat \<Rightarrow> char \<Rightarrow> nat option" where
  "digit_val r c =
     (let b = byte c;
          v = (if 48 \<le> b \<and> b \<le> 57 then b - 48
               else if 65 \<le> b \<and> b \<le> 90 then b - 55
               else if 97 \<le> b \<and> b \<le> 122 then b - 87 else r)
      in if v < r then Some v else None)"

function show_radix :: "(nat \<Rightarrow> char) \<Rightarrow> nat \<Rightarrow> nat \<Rightarrow> bytes" where
  "show_radix dc r n =
     (if r < 2 \<or> n < r then [dc n] else show_radix dc r (n div r) @ [dc (n mod r)])"
  by pat_completeness auto
termination
  by (relation "measure (\<lambda>(dc, r, n). n)") (auto intro: div_less_dividend)

declare show_radix.simps [simp del]

definition show_nat :: "nat \<Rightarrow> bytes" where
  "show_nat = show_radix digit_char 10"

definition show_hex :: "nat \<Rightarrow> bytes" where
  "show_hex = show_radix digit_char 16"

definition show_hex_lower :: "nat \<Rightarrow> bytes" where
  "show_hex_lower = show_radix digit_char_lower 16"

text \<open>\<open>{:0w}\<close>: pad with zeros to width \<open>w\<close>.\<close>

definition zero_pad :: "nat \<Rightarrow> bytes \<Rightarrow> bytes" where
  "zero_pad w s = replicate (w - length s) (CHR ''0'') @ s"

definition usize_max :: nat where
  "usize_max = 2 ^ 64 - 1"

text \<open>\<open>from_str_radix\<close> and \<open>parse\<close> of an unsigned type: an optional plus sign, at least one digit,
  \<open>None\<close> on a bad digit or on overflow.\<close>

definition push_digit :: "nat \<Rightarrow> nat \<Rightarrow> nat option \<Rightarrow> char \<Rightarrow> nat option" where
  "push_digit r mx acc c =
     (case acc of None \<Rightarrow> None
      | Some a \<Rightarrow> (case digit_val r c of None \<Rightarrow> None
          | Some d \<Rightarrow> if a * r + d \<le> mx then Some (a * r + d) else None))"

definition parse_uint :: "nat \<Rightarrow> nat \<Rightarrow> bytes \<Rightarrow> nat option" where
  "parse_uint r mx s =
     (let ds = (case s of c # d # cs \<Rightarrow> if c = CHR ''+'' then d # cs else s | _ \<Rightarrow> s)
      in if ds = [] then None else foldl (push_digit r mx) (Some 0) ds)"

lemma byte_char_of: "n < 256 \<Longrightarrow> byte (char_of n) = n"
  by (simp add: byte_def)

lemma digit_val_char: "d < r \<Longrightarrow> r \<le> 36 \<Longrightarrow> digit_val r (digit_char d) = Some d"
  by (auto simp: digit_val_def digit_char_def byte_char_of Let_def)

lemma byte_digit_char: "d < 36 \<Longrightarrow> byte (digit_char d) < 91 \<and> 48 \<le> byte (digit_char d)"
  by (auto simp: digit_char_def byte_char_of)

lemma show_radix_not_Nil [simp]: "show_radix dc r n \<noteq> []"
  by (subst show_radix.simps) simp

lemma show_radix_digits:
  assumes "2 \<le> r"
  shows "set (show_radix dc r n) \<subseteq> dc ` {..<r}"
proof (induction n rule: less_induct)
  case (less n)
  show ?case
  proof (cases "n < r")
    case True
    then show ?thesis by (subst show_radix.simps) auto
  next
    case False
    with assms have "n div r < n" by simp
    with less have "set (show_radix dc r (n div r)) \<subseteq> dc ` {..<r}" by blast
    with False assms show ?thesis by (subst show_radix.simps) auto
  qed
qed

lemma parse_show_radix_aux:
  assumes "2 \<le> r" and "\<And>d. d < r \<Longrightarrow> digit_val r (dc d) = Some d" and "n \<le> mx"
  shows "foldl (push_digit r mx) (Some 0) (show_radix dc r n) = Some n"
  using assms(3)
proof (induction n rule: less_induct)
  case (less n)
  show ?case
  proof (cases "n < r")
    case True
    then show ?thesis
      using assms(2) less.prems by (subst show_radix.simps) (simp add: push_digit_def)
  next
    case False
    with assms(1) have "n div r < n" by simp
    with less have "foldl (push_digit r mx) (Some 0) (show_radix dc r (n div r)) = Some (n div r)"
      by simp
    moreover have "n mod r < r" using assms(1) by simp
    ultimately show ?thesis
      using False assms(1,2) less.prems by (subst show_radix.simps) (simp add: push_digit_def)
  qed
qed

lemma byte_plus: "byte (CHR ''+'') = 43"
  by (simp add: byte_def)

lemma parse_show_radix:
  assumes "2 \<le> r" and dv: "\<And>d. d < r \<Longrightarrow> digit_val r (dc d) = Some d" and "n \<le> mx"
  shows "parse_uint r mx (show_radix dc r n) = Some n"
proof -
  have plus: "CHR ''+'' \<notin> set (show_radix dc r n)"
  proof
    assume "CHR ''+'' \<in> set (show_radix dc r n)"
    with show_radix_digits [OF assms(1)] obtain d where "d < r" "dc d = CHR ''+''" by force
    with dv [of d] show False by (simp add: digit_val_def byte_plus Let_def split: if_splits)
  qed
  then have "(case show_radix dc r n of c # d # cs \<Rightarrow> if c = CHR ''+'' then d # cs
       else show_radix dc r n | _ \<Rightarrow> show_radix dc r n) = show_radix dc r n"
    by (auto split: list.splits)
  with parse_show_radix_aux [OF assms] show ?thesis by (simp add: parse_uint_def Let_def)
qed

lemma parse_show_nat: "n \<le> mx \<Longrightarrow> parse_uint 10 mx (show_nat n) = Some n"
  unfolding show_nat_def by (rule parse_show_radix) (auto simp: digit_val_char)

lemma parse_show_hex: "n \<le> mx \<Longrightarrow> parse_uint 16 mx (show_hex n) = Some n"
  unfolding show_hex_def by (rule parse_show_radix) (auto simp: digit_val_char)

lemma show_nat_digits: "c \<in> set (show_nat n) \<Longrightarrow> 48 \<le> byte c \<and> byte c \<le> 57"
  using show_radix_digits [of 10 digit_char n]
  by (force simp: show_nat_def digit_char_def byte_char_of)

lemma show_hex_digits: "c \<in> set (show_hex n) \<Longrightarrow> 48 \<le> byte c \<and> byte c \<le> 70"
  using show_radix_digits [of 16 digit_char n]
  by (force simp: show_hex_def digit_char_def byte_char_of split: if_splits)

lemma show_nat_not_Nil [simp]: "show_nat n \<noteq> []" and show_hex_not_Nil [simp]: "show_hex n \<noteq> []"
  by (simp_all add: show_nat_def show_hex_def)

lemma ascii_iff: "ascii s \<longleftrightarrow> (\<forall>c\<in>set s. byte c < 128)"
  by (simp add: ascii_def list_all_iff)

lemma ascii_show_nat [simp]: "ascii (show_nat n)"
  using show_nat_digits by (fastforce simp: ascii_iff)

lemma ascii_show_hex [simp]: "ascii (show_hex n)"
  using show_hex_digits by (fastforce simp: ascii_iff)

lemma blank_byte: "byte c < 128 \<Longrightarrow> blank c \<longleftrightarrow> (9 \<le> byte c \<and> byte c \<le> 13) \<or> byte c = 32"
  by (simp add: blank_def is_whitespace_def)

lemma trim_show_nat [simp]: "trim (show_nat n) = show_nat n"
proof (rule trim_ascii_id)
  have *: "\<not> blank c" if "c \<in> set (show_nat n)" for c
    using show_nat_digits [OF that] by (simp add: blank_byte)
  show "\<not> blank (hd (show_nat n))" "\<not> blank (last (show_nat n))" by (simp_all add: *)
qed simp_all

lemma trim_show_hex [simp]: "trim (show_hex n) = show_hex n"
proof (rule trim_ascii_id)
  have *: "\<not> blank c" if "c \<in> set (show_hex n)" for c
    using show_hex_digits [OF that] by (simp add: blank_byte)
  show "\<not> blank (hd (show_hex n))" "\<not> blank (last (show_hex n))" by (simp_all add: *)
qed simp_all

lemma byte_inj: "byte a = byte b \<longleftrightarrow> a = b"
  by (simp add: byte_def)

lemma show_nat_no_char: "byte c < 48 \<or> 57 < byte c \<Longrightarrow> c \<notin> set (show_nat n)"
  using show_nat_digits [of c n] by auto

lemma show_hex_no_char: "byte c < 48 \<or> 70 < byte c \<Longrightarrow> c \<notin> set (show_hex n)"
  using show_hex_digits [of c n] by auto

end
