(* ===== verification/Aho_Corasick.thy ===== *)
theory Aho_Corasick
  imports Rust_Str
begin

text \<open>
  The interface of the multi-pattern matcher the vault builds over its synthetic values (the
  crate \<open>aho-corasick\<close> with \<open>MatchKind::LeftmostLongest\<close>; it is not part of the sources). An
  automaton is what \<open>find_iter\<close> does with it: a function from a text to the list of matches, a
  match being the pattern's index and the byte range. The builder may fail, so it returns an
  option; it is a parameter of the model.

  The locale \<open>leftmost_longest\<close> states the documented behaviour, that the matches are the
  non-overlapping leftmost ones and, among the patterns that start there, the longest. Inside it
  the loop that both replacement routines of the vault run over the matches is shown to compute
  \<open>subst_longest\<close>, a one-pass rewriting defined without any automaton. The locale is interpreted
  on \<open>naive_build\<close>, a matcher that tries every pattern at every offset.
\<close>

type_synonym ac_match = "nat \<times> nat \<times> nat"
type_synonym ac = "bytes \<Rightarrow> ac_match list"
type_synonym ac_builder = "bytes list \<Rightarrow> ac option"

section \<open>The replacement loop over matches\<close>

text \<open>
  \<open>result.push_str(&text[last..m.start()]); result.push_str(&vals[m.pattern()]); last = m.end()\<close>
  for every match, then the rest of the hay.
\<close>

fun splice_matches :: "bytes list \<Rightarrow> bytes \<Rightarrow> nat \<Rightarrow> ac_match list \<Rightarrow> bytes outcome" where
  "splice_matches vals hay from [] = str_from hay from"
| "splice_matches vals hay from ((k, s, e) # ms) =
     and_then (str_slice hay from s) (\<lambda>gap.
     and_then (index vals k) (\<lambda>val.
     and_then (splice_matches vals hay e ms) (\<lambda>rest. Done (gap @ val @ rest))))"

section \<open>One-pass rewriting of the longest keys\<close>

definition hits :: "('k list \<times> 'v) list \<Rightarrow> 'k list \<Rightarrow> ('k list \<times> 'v) list" where
  "hits kvs hay = filter (\<lambda>(k, v). k \<noteq> [] \<and> prefix k hay) kvs"

fun longest :: "('k list \<times> 'v) list \<Rightarrow> ('k list \<times> 'v) option" where
  "longest [] = None"
| "longest ((k, v) # kvs) =
     (case longest kvs of None \<Rightarrow> Some (k, v)
      | Some (k', v') \<Rightarrow> if length k < length k' then Some (k', v') else Some (k, v))"

function subst_longest :: "(bytes \<times> bytes) list \<Rightarrow> bytes \<Rightarrow> bytes" where
  "subst_longest kvs hay =
     (case hay of [] \<Rightarrow> []
      | c # cs \<Rightarrow>
          (case longest (hits kvs hay) of
             None \<Rightarrow> c # subst_longest kvs cs
           | Some (k, v) \<Rightarrow> v @ subst_longest kvs (drop (length k - 1) cs)))"
  by pat_completeness auto
termination
  by (relation "measure (\<lambda>(kvs, hay). length hay)") auto

declare subst_longest.simps [simp del]

lemma subst_longest_Nil [simp]: "subst_longest kvs [] = []"
  by (simp add: subst_longest.simps)

lemma longest_None_iff [simp]: "longest kvs = None \<longleftrightarrow> kvs = []"
  by (cases kvs rule: longest.cases) (auto split: option.splits prod.splits)

lemma longest_SomeD:
  "longest kvs = Some (k, v) \<Longrightarrow> (k, v) \<in> set kvs \<and> (\<forall>(k', v')\<in>set kvs. length k' \<le> length k)"
  by (induction kvs arbitrary: k v rule: longest.induct)
     (fastforce split: option.splits if_splits)+

lemma hits_None: "hits kvs hay = [] \<longleftrightarrow> (\<forall>(k, v)\<in>set kvs. k \<noteq> [] \<longrightarrow> \<not> prefix k hay)"
  by (auto simp: hits_def filter_empty_conv)

lemma prefixes_same_length:
  "prefix a t \<Longrightarrow> prefix b t \<Longrightarrow> length a = length b \<Longrightarrow> a = b"
  by (metis append_eq_conv_conj prefix_def)

lemma longest_hits:
  assumes "distinct (map fst kvs)" and "(k, v) \<in> set kvs" and "k \<noteq> []" and "prefix k hay"
    and "\<forall>(k', v')\<in>set kvs. prefix k' hay \<longrightarrow> length k' \<le> length k"
  shows "longest (hits kvs hay) = Some (k, v)"
proof -
  have kv: "(k, v) \<in> set (hits kvs hay)" using assms(2-4) by (simp add: hits_def)
  then have "hits kvs hay \<noteq> []" by auto
  then obtain k' v' where l: "longest (hits kvs hay) = Some (k', v')"
    by (metis longest_None_iff not_None_eq surj_pair)
  from longest_SomeD [OF l] have k': "(k', v') \<in> set kvs" "prefix k' hay" "k' \<noteq> []"
    and ge: "length k \<le> length k'" using kv by (auto simp: hits_def)
  with assms(5) have "length k' = length k" by fastforce
  with k'(2) assms(4) have "k' = k" by (metis prefixes_same_length)
  with k'(1) assms(1,2) have "v' = v" by (metis eq_key_imp_eq_value)
  with l \<open>k' = k\<close> show ?thesis by simp
qed

text \<open>A stretch where no key starts is copied.\<close>

lemma subst_longest_gap:
  assumes "a \<le> b" and "b \<le> length hay"
    and "\<forall>i. a \<le> i \<and> i < b \<longrightarrow> (\<forall>(k, v)\<in>set kvs. k \<noteq> [] \<longrightarrow> \<not> prefix k (drop i hay))"
  shows "subst_longest kvs (drop a hay) = take (b - a) (drop a hay) @ subst_longest kvs (drop b hay)"
  using assms
proof (induction "b - a" arbitrary: a)
  case 0
  then show ?case by simp
next
  case (Suc n)
  then have ab: "a < b" "a < length hay" by auto
  have h: "hits kvs (drop a hay) = []"
    unfolding hits_None using Suc.prems(3) ab(1) by (meson order_refl)
  have "subst_longest kvs (drop a hay) = (hay ! a) # subst_longest kvs (drop (Suc a) hay)"
    using h ab by (subst subst_longest.simps) (simp add: Cons_nth_drop_Suc [symmetric])
  also have "subst_longest kvs (drop (Suc a) hay)
      = take (b - Suc a) (drop (Suc a) hay) @ subst_longest kvs (drop b hay)"
    using Suc by (intro Suc.hyps(1)) auto
  finally show ?case
    using ab by (simp add: Cons_nth_drop_Suc [symmetric] take_Cons')
qed

corollary subst_longest_id:
  assumes "\<forall>(k, v)\<in>set kvs. k \<noteq> [] \<longrightarrow> \<not> sublist k hay"
  shows "subst_longest kvs hay = hay"
proof -
  have "\<not> prefix k (drop i hay)" if "(k, v) \<in> set kvs" "k \<noteq> []" for k v i
  proof
    assume "prefix k (drop i hay)"
    then have "sublist k hay" by (metis append_take_drop_id prefix_def sublist_appendI)
    with assms that show False by fastforce
  qed
  then have "subst_longest kvs (drop 0 hay)
      = take (length hay - 0) (drop 0 hay) @ subst_longest kvs (drop (length hay) hay)"
    by (intro subst_longest_gap) auto
  then show ?thesis by simp
qed

lemma subst_longest_hit:
  assumes "longest (hits kvs (k @ t)) = Some (k, v)" and "k \<noteq> []"
  shows "subst_longest kvs (k @ t) = v @ subst_longest kvs t"
  using assms by (cases k) (simp_all add: subst_longest.simps [of kvs "_ # _"])

text \<open>Rewriting valid text by valid values gives valid text.\<close>

lemma subst_longest_utf8:
  assumes "\<forall>(k, v)\<in>set kvs. utf8_valid k \<and> utf8_valid v" and "utf8_valid hay"
  shows "utf8_valid (subst_longest kvs hay)"
  using assms(2)
proof (induction "length hay" arbitrary: hay rule: less_induct)
  case less
  show ?case
  proof (cases "hay = []")
    case True
    then show ?thesis by simp
  next
    case False
    show ?thesis
    proof (cases "longest (hits kvs hay)")
      case None
      obtain n where n: "utf8_next hay = Some n" "utf8_valid (drop n hay)"
        using less.prems False by (metis utf8_valid_nextE)
      note nD = utf8_next_SomeD [OF n(1)]
      have no: "\<not> prefix k (drop i hay)" if "i < n" "(k, v) \<in> set kvs" "k \<noteq> []" for i k v
      proof (cases "i = 0")
        case True
        from None have "hits kvs hay = []" by simp
        with that True show ?thesis by (auto simp: hits_None)
      next
        case False
        with that nD have c: "is_cont (hay ! i)" "i < length hay" by auto
        show ?thesis
        proof
          assume "prefix k (drop i hay)"
          then have "hd k = hay ! i" using that(3) c(2)
            by (metis Cons_nth_drop_Suc hd_append2 list.sel(1) prefix_def)
          moreover have "utf8_valid k" using assms(1) that(2) by auto
          ultimately show False using c(1) utf8_valid_hd that(3) by metis
        qed
      qed
      have "subst_longest kvs (drop 0 hay) = take (n - 0) (drop 0 hay) @ subst_longest kvs (drop n hay)"
        using nD no by (intro subst_longest_gap) auto
      moreover have "utf8_valid (take n hay)"
        using utf8_next_take [OF n(1)] by (simp add: utf8_valid_step)
      moreover have "utf8_valid (subst_longest kvs (drop n hay))"
        using n(2) nD False by (intro less.hyps) auto
      ultimately show ?thesis by (simp add: utf8_valid_append)
    next
      case (Some kv)
      obtain k v where kv: "kv = (k, v)" by fastforce
      from longest_SomeD [OF Some [unfolded kv]] have k: "(k, v) \<in> set kvs" "k \<noteq> []" "prefix k hay"
        by (auto simp: hits_def)
      then obtain t where t: "hay = k @ t" by (auto simp: prefix_def)
      have u: "utf8_valid k" "utf8_valid v" using assms(1) k(1) by auto
      have "utf8_valid t" using less.prems u(1) by (simp add: t utf8_valid_append_iff)
      then have "utf8_valid (subst_longest kvs t)" using t k(2) by (intro less.hyps) auto
      moreover have "subst_longest kvs hay = v @ subst_longest kvs t"
        unfolding t using Some kv t k(2) by (intro subst_longest_hit) auto
      ultimately show ?thesis using u(2) by (simp add: utf8_valid_append)
    qed
  qed
qed

section \<open>The documented behaviour\<close>

fun ll_matches :: "bytes list \<Rightarrow> bytes \<Rightarrow> nat \<Rightarrow> ac_match list \<Rightarrow> bool" where
  "ll_matches ps hay pos [] \<longleftrightarrow> (\<forall>i\<ge>pos. \<forall>p\<in>set ps. i \<le> length hay \<longrightarrow> \<not> prefix p (drop i hay))"
| "ll_matches ps hay pos ((k, s, e) # ms) \<longleftrightarrow>
     pos \<le> s \<and> k < length ps \<and> e = s + length (ps ! k) \<and> prefix (ps ! k) (drop s hay)
     \<and> (\<forall>i. pos \<le> i \<and> i < s \<longrightarrow> (\<forall>p\<in>set ps. \<not> prefix p (drop i hay)))
     \<and> (\<forall>p\<in>set ps. prefix p (drop s hay) \<longrightarrow> length p \<le> length (ps ! k))
     \<and> ll_matches ps hay e ms"

locale leftmost_longest =
  fixes build :: ac_builder
  assumes find_iter: "[] \<notin> set ps \<Longrightarrow> build ps = Some ac \<Longrightarrow> ll_matches ps hay 0 (ac hay)"
begin

lemma splice_subst:
  assumes "length vals = length ps" and "distinct ps" and "[] \<notin> set ps"
    and "utf8_valid hay" and "\<forall>p\<in>set ps. utf8_valid p" and "is_char_boundary hay pos"
    and "ll_matches ps hay pos ms"
  shows "splice_matches vals hay pos ms = Done (subst_longest (zip ps vals) (drop pos hay))"
  using assms(6,7)
proof (induction ms arbitrary: pos)
  case Nil
  have le: "pos \<le> length hay" using Nil.prems(1) by (simp add: is_char_boundary_def)
  have "subst_longest (zip ps vals) (drop pos hay) = drop pos hay"
    using subst_longest_gap [of pos "length hay" hay "zip ps vals"] le Nil.prems(2)
    by (fastforce dest: set_zip_leftD)
  with Nil.prems(1) show ?case by (simp add: out_simps)
next
  case (Cons m ms)
  obtain k s e where m: "m = (k, s, e)" by (cases m)
  from Cons.prems(2) have le: "pos \<le> s" and k: "k < length ps" and e: "e = s + length (ps ! k)"
    and pre: "prefix (ps ! k) (drop s hay)"
    and gap: "\<forall>i. pos \<le> i \<and> i < s \<longrightarrow> (\<forall>p\<in>set ps. \<not> prefix p (drop i hay))"
    and long: "\<forall>p\<in>set ps. prefix p (drop s hay) \<longrightarrow> length p \<le> length (ps ! k)"
    and rest: "ll_matches ps hay e ms" by (auto simp: m)
  let ?p = "ps ! k" and ?v = "vals ! k" and ?kvs = "zip ps vals"
  have p: "?p \<in> set ps" "?p \<noteq> []" "utf8_valid ?p"
    using assms(3,5) nth_mem [OF k] by (auto simp del: nth_mem)
  have s: "is_char_boundary hay s" and eb: "is_char_boundary hay e"
    using occurrence_boundaries [OF assms(4) p(3,2) pre] by (simp_all add: e)
  have sl: "s \<le> length hay" using s by (simp add: is_char_boundary_def)
  have "subst_longest ?kvs (drop pos hay)
      = take (s - pos) (drop pos hay) @ subst_longest ?kvs (drop s hay)"
    using gap by (intro subst_longest_gap) (use le sl in \<open>fastforce dest: set_zip_leftD\<close>)+
  moreover obtain t where t: "drop s hay = ?p @ t" using pre by (auto simp: prefix_def)
  have te: "t = drop e hay" using t e by (metis add.commute append_eq_conv_conj drop_drop)
  have "longest (hits ?kvs (?p @ t)) = Some (?p, ?v)"
  proof (rule longest_hits)
    show "distinct (map fst ?kvs)" using assms(1,2) by simp
    show "(?p, ?v) \<in> set ?kvs" using k assms(1) by (auto simp: in_set_zip)
    show "\<forall>(k', v')\<in>set ?kvs. prefix k' (?p @ t) \<longrightarrow> length k' \<le> length ?p"
      using long unfolding t by (auto dest: set_zip_leftD)
  qed (use p in auto)
  then have "subst_longest ?kvs (drop s hay) = ?v @ subst_longest ?kvs (drop e hay)"
    using subst_longest_hit p(2) t te by metis
  ultimately show ?case
    using Cons.IH [OF eb rest] Cons.prems(1) le s k assms(1) by (simp add: m out_simps)
qed

lemma splice_find_iter:
  assumes "build ps = Some ac" and "length vals = length ps" and "distinct ps" and "[] \<notin> set ps"
    and "utf8_valid hay" and "\<forall>p\<in>set ps. utf8_valid p"
  shows "splice_matches vals hay 0 (ac hay) = Done (subst_longest (zip ps vals) hay)"
  using splice_subst [of vals ps hay 0] find_iter [of ps ac hay] assms by simp

lemma find_iter_empty_iff:
  assumes "build ps = Some ac" and "[] \<notin> set ps"
  shows "ac hay = [] \<longleftrightarrow> (\<forall>p\<in>set ps. \<not> sublist p hay)"
proof -
  have ll: "ll_matches ps hay 0 (ac hay)" using assms by (simp add: find_iter)
  show ?thesis
  proof
    assume "ac hay = []"
    with ll have no: "\<forall>i\<le>length hay. \<forall>p\<in>set ps. \<not> prefix p (drop i hay)" by simp
    show "\<forall>p\<in>set ps. \<not> sublist p hay"
    proof (intro ballI notI)
      fix p assume "p \<in> set ps" "sublist p hay"
      then obtain a b where "hay = a @ p @ b" by (auto simp: sublist_def)
      with no [THEN spec, of "length a"] \<open>p \<in> set ps\<close> show False by auto
    qed
  next
    assume no: "\<forall>p\<in>set ps. \<not> sublist p hay"
    show "ac hay = []"
    proof (cases "ac hay")
      case (Cons m ms)
      with ll obtain k s where "k < length ps" "prefix (ps ! k) (drop s hay)"
        by (cases m) auto
      then have "ps ! k \<in> set ps" "sublist (ps ! k) hay"
        by (auto simp: prefix_def) (metis append_take_drop_id sublist_appendI)
      with no show ?thesis by blast
    qed
  qed
qed

end

section \<open>A direct matcher\<close>

definition best_at :: "bytes list \<Rightarrow> bytes \<Rightarrow> (bytes \<times> nat) option" where
  "best_at ps t = longest (hits (zip ps [0..<length ps]) t)"

lemma best_at_SomeD:
  "best_at ps t = Some (p, k) \<Longrightarrow>
     k < length ps \<and> ps ! k = p \<and> p \<noteq> [] \<and> prefix p t \<and> (\<forall>q\<in>set ps. prefix q t \<longrightarrow> length q \<le> length p)"
proof -
  assume b: "best_at ps t = Some (p, k)"
  from longest_SomeD [OF this [unfolded best_at_def]]
  have pk: "(p, k) \<in> set (zip ps [0..<length ps])" "p \<noteq> []" "prefix p t"
    and mx: "\<forall>(q, j)\<in>set (hits (zip ps [0..<length ps]) t). length q \<le> length p"
    by (auto simp: hits_def)
  have "length q \<le> length p" if "q \<in> set ps" "prefix q t" for q
  proof (cases "q = []")
    case False
    from that(1) obtain j where "j < length ps" "ps ! j = q" by (auto simp: in_set_conv_nth)
    with that(2) False have "(q, j) \<in> set (hits (zip ps [0..<length ps]) t)"
      by (auto simp: hits_def in_set_zip)
    with mx show ?thesis by blast
  qed simp
  with pk show ?thesis by (auto simp: in_set_zip)
qed

lemma best_at_None: "best_at ps t = None \<Longrightarrow> p \<in> set ps \<Longrightarrow> p \<noteq> [] \<Longrightarrow> \<not> prefix p t"
  by (fastforce simp: best_at_def hits_None in_set_conv_nth in_set_zip)

function naive_find :: "bytes list \<Rightarrow> bytes \<Rightarrow> nat \<Rightarrow> ac_match list" where
  "naive_find ps hay pos =
     (if length hay \<le> pos then []
      else (case best_at ps (drop pos hay) of
              None \<Rightarrow> naive_find ps hay (Suc pos)
            | Some (p, k) \<Rightarrow> (k, pos, pos + length p) # naive_find ps hay (pos + length p)))"
  by pat_completeness auto
termination
proof (relation "measure (\<lambda>(ps, hay, pos). length hay - pos)", goal_cases)
  case (3 ps hay pos pk p k)
  then have "0 < length p" using best_at_SomeD [of ps "drop pos hay" p k] by simp
  with 3(1) have "length hay - (pos + length p) < length hay - pos" by linarith
  then show ?case by simp
qed auto

declare naive_find.simps [simp del]

definition naive_build :: ac_builder where
  "naive_build ps = Some (\<lambda>hay. naive_find ps hay 0)"

lemma ll_matches_skip:
  assumes "ll_matches ps hay (Suc pos) ms" and "\<forall>p\<in>set ps. \<not> prefix p (drop pos hay)"
  shows "ll_matches ps hay pos ms"
proof (cases ms)
  case Nil
  have "\<not> prefix p (drop i hay)" if "pos \<le> i" "i \<le> length hay" "p \<in> set ps" for i p
    using assms Nil that by (cases "i = pos") (auto simp: Suc_le_eq)
  with Nil show ?thesis by simp
next
  case (Cons m ms')
  obtain k s e where "m = (k, s, e)" by (cases m)
  moreover have "\<not> prefix p (drop i hay)" if "pos \<le> i" "i < s" "p \<in> set ps" for i p
    using assms Cons \<open>m = _\<close> that by (cases "i = pos") (auto simp: Suc_le_eq)
  ultimately show ?thesis using assms(1) Cons by auto
qed

lemma naive_find_ll: "[] \<notin> set ps \<Longrightarrow> ll_matches ps hay pos (naive_find ps hay pos)"
proof (induction ps hay pos rule: naive_find.induct)
  case (1 ps hay pos)
  show ?case
  proof (cases "length hay \<le> pos")
    case True
    with "1.prems" show ?thesis by (subst naive_find.simps) auto
  next
    case F: False
    show ?thesis
    proof (cases "best_at ps (drop pos hay)")
      case None
      with F 1 have "ll_matches ps hay (Suc pos) (naive_find ps hay (Suc pos))" by blast
      moreover have "\<forall>p\<in>set ps. \<not> prefix p (drop pos hay)"
        using best_at_None [OF None] "1.prems" by metis
      ultimately have "ll_matches ps hay pos (naive_find ps hay (Suc pos))"
        by (rule ll_matches_skip)
      with F None show ?thesis by (subst naive_find.simps) simp
    next
      case (Some pk)
      then obtain p k where pk: "best_at ps (drop pos hay) = Some (p, k)" by (cases pk) auto
      with F 1 have "ll_matches ps hay (pos + length p) (naive_find ps hay (pos + length p))"
        by blast
      with F pk best_at_SomeD [OF pk] show ?thesis by (subst naive_find.simps) auto
    qed
  qed
qed

interpretation naive: leftmost_longest naive_build
  by unfold_locales (auto simp: naive_build_def naive_find_ll)

end
