(* ===== verification/Vault.thy ===== *)
theory Vault
  imports Complex_Main Aho_Corasick
begin

text \<open>
  The per-conversation vault of \<open>src/src/pii/vault.rs\<close>: the types \<open>PiiType\<close>, \<open>PiiSpan\<close> and
  \<open>VaultRecord\<close>, token identifiers, and every operation of \<open>PiiVault\<close>.

  The hash functions (crates \<open>sha1\<close>, \<open>sha2\<close>) and the automaton builder are parameters. Confidences
  are the \<open>f32\<close> values of the source, which are rationals: no span ever carries a NaN, and the code
  only stores and compares them.

  \<open>vault_ok\<close> is the representation invariant. Every operation keeps it; the reverse replacement is
  shown to be the one-pass rewriting of the synthetic values by their originals.
\<close>

type_synonym f32 = rat
type_synonym hash = "bytes \<Rightarrow> bytes"

section \<open>Data\<close>

datatype pii_type =
    Email | Phone | Ssn | CreditCard | IpV4 | IpV6 | OpenAiApiKey | AwsAccessKey | AwsSecretKey
  | GitHubPat | BearerToken | SshPrivateKey | DbConnectionString | UrlWithCreds | PersonName
  | OrgName | Address | DateOfBirth | MedicalRecord | PassportNumber | DriversLicense
  | FinancialAccount | AadhaarNumber | CpfNumber | Custom bytes

fun label :: "pii_type \<Rightarrow> bytes" where
  "label Email = ''EMAIL''"
| "label Phone = ''PHONE''"
| "label Ssn = ''SSN''"
| "label CreditCard = ''CREDIT_CARD''"
| "label IpV4 = ''IP_V4''"
| "label IpV6 = ''IP_V6''"
| "label OpenAiApiKey = ''OPENAI_API_KEY''"
| "label AwsAccessKey = ''AWS_ACCESS_KEY''"
| "label AwsSecretKey = ''AWS_SECRET_KEY''"
| "label GitHubPat = ''GITHUB_PAT''"
| "label BearerToken = ''BEARER_TOKEN''"
| "label SshPrivateKey = ''SSH_PRIVATE_KEY''"
| "label DbConnectionString = ''DB_CONNECTION_STRING''"
| "label UrlWithCreds = ''URL_WITH_CREDS''"
| "label PersonName = ''PERSON_NAME''"
| "label OrgName = ''ORG_NAME''"
| "label Address = ''ADDRESS''"
| "label DateOfBirth = ''DATE_OF_BIRTH''"
| "label MedicalRecord = ''MEDICAL_RECORD''"
| "label PassportNumber = ''PASSPORT_NUMBER''"
| "label DriversLicense = ''DRIVERS_LICENSE''"
| "label FinancialAccount = ''FINANCIAL_ACCOUNT''"
| "label AadhaarNumber = ''AADHAAR_NUMBER''"
| "label CpfNumber = ''CPF_NUMBER''"
| "label (Custom s) = s"

record pii_span =
  sp_start :: nat
  sp_end :: nat
  entity_type :: pii_type
  confidence :: f32
  sp_tier :: nat

record vault_record =
  vr_original :: bytes
  vr_synthetic :: bytes
  vr_pii_type :: pii_type
  vr_tier :: nat
  vr_confidence :: f32
  vr_token_id :: bytes
  vr_display_value :: bytes

record pii_vault =
  original_to_synthetic :: "(bytes, bytes) hashmap"
  synthetic_keys :: "bytes list"
  original_values :: "bytes list"
  pii_type_labels :: "bytes list"
  tiers :: "nat list"
  confidences :: "f32 list"
  token_ids :: "bytes list"
  reverse_automaton :: "ac option"
  max_synthetic_key_len :: nat
  rng_seed :: "64 word"
  conversation_id :: bytes
  full_token_to_original :: "(bytes, bytes) hashmap"
  token_id_to_original :: "(bytes, bytes) hashmap"
  display_value_to_original :: "(bytes, bytes) hashmap"

section \<open>Token identifiers\<close>

definition BASE62 :: bytes where
  "BASE62 = ''0123456789ABCDEFGHIJKLMNOPQRSTUVWXYZabcdefghijklmnopqrstuvwxyz''"

text \<open>The loop fills the eight positions from the right.\<close>

fun base62_fill :: "nat \<Rightarrow> nat \<Rightarrow> bytes" where
  "base62_fill 0 val = []"
| "base62_fill (Suc n) val = base62_fill n (val div 62) @ [BASE62 ! (val mod 62)]"

definition base62_encode_6bytes :: "nat \<Rightarrow> bytes" where
  "base62_encode_6bytes val = base62_fill 8 val"

definition from_be_bytes :: "bytes \<Rightarrow> nat" where
  "from_be_bytes bs = foldl (\<lambda>a b. a * 256 + byte b) 0 bs"

definition from_le_bytes :: "bytes \<Rightarrow> nat" where
  "from_le_bytes bs = from_be_bytes (rev bs)"

definition generate_token_id :: "hash \<Rightarrow> bytes \<Rightarrow> nat \<Rightarrow> bytes" where
  "generate_token_id sha256 conv_id entity_index =
     (let digest = sha256 (conv_id @ '':'' @ show_nat entity_index);
          val = from_be_bytes (take 6 digest @ [CHR 0x00, CHR 0x00]) div 2 ^ 16
      in base62_encode_6bytes val)"

definition xml_token :: "bytes \<Rightarrow> bytes \<Rightarrow> bytes" where
  "xml_token token_id display_value =
     ''<pii id='' @ [QUOTE] @ token_id @ [QUOTE] @ ''>'' @ display_value @ ''</pii>''"

section \<open>Operations\<close>

definition empty_vault :: "bytes \<Rightarrow> 64 word \<Rightarrow> pii_vault" where
  "empty_vault conv_id seed =
     \<lparr>original_to_synthetic = [], synthetic_keys = [], original_values = [], pii_type_labels = [],
      tiers = [], confidences = [], token_ids = [], reverse_automaton = None,
      max_synthetic_key_len = 0, rng_seed = seed, conversation_id = conv_id,
      full_token_to_original = [], token_id_to_original = [], display_value_to_original = []\<rparr>"

definition vault_new :: "hash \<Rightarrow> bytes \<Rightarrow> pii_vault" where
  "vault_new sha1 conv_id =
     empty_vault conv_id (word_of_nat (from_le_bytes (take 8 (sha1 conv_id))))"

definition insert_mapping_raw_with_token_id ::
    "bytes \<Rightarrow> bytes \<Rightarrow> bytes \<Rightarrow> nat \<Rightarrow> f32 \<Rightarrow> bytes \<Rightarrow> pii_vault \<Rightarrow> pii_vault" where
  "insert_mapping_raw_with_token_id original synthetic pii_type_label tier conf token_id v =
     v\<lparr>max_synthetic_key_len :=
         (if max_synthetic_key_len v < length synthetic then length synthetic
          else max_synthetic_key_len v),
       original_to_synthetic := hm_insert original synthetic (original_to_synthetic v),
       synthetic_keys := synthetic_keys v @ [synthetic],
       original_values := original_values v @ [original],
       pii_type_labels := pii_type_labels v @ [pii_type_label],
       tiers := tiers v @ [tier],
       confidences := confidences v @ [conf],
       token_ids := token_ids v @ [token_id]\<rparr>"

definition insert_mapping_raw :: "bytes \<Rightarrow> bytes \<Rightarrow> bytes \<Rightarrow> nat \<Rightarrow> f32 \<Rightarrow> pii_vault \<Rightarrow> pii_vault" where
  "insert_mapping_raw original synthetic pii_type_label tier conf v =
     insert_mapping_raw_with_token_id original synthetic pii_type_label tier conf [] v"

definition rebuild_automaton :: "ac_builder \<Rightarrow> pii_vault \<Rightarrow> pii_vault" where
  "rebuild_automaton build v =
     (if synthetic_keys v = [] then v\<lparr>reverse_automaton := None\<rparr>
      else (case build (synthetic_keys v) of
              Some ac \<Rightarrow> v\<lparr>reverse_automaton := Some ac\<rparr>
            | None \<Rightarrow> v\<lparr>reverse_automaton := None\<rparr>))"

definition get_synthetic :: "pii_vault \<Rightarrow> bytes \<Rightarrow> bytes option" where
  "get_synthetic v original = hm_get (original_to_synthetic v) original"

definition add_mapping ::
    "ac_builder \<Rightarrow> bytes \<Rightarrow> bytes \<Rightarrow> pii_type \<Rightarrow> nat \<Rightarrow> f32 \<Rightarrow> pii_vault \<Rightarrow> pii_vault" where
  "add_mapping build original synthetic ty tier conf v =
     (if hm_contains (original_to_synthetic v) original then v
      else rebuild_automaton build
             (insert_mapping_raw original synthetic (label ty) tier conf v))"

definition add_mapping_with_token_id ::
    "ac_builder \<Rightarrow> bytes \<Rightarrow> bytes \<Rightarrow> bytes \<Rightarrow> pii_type \<Rightarrow> nat \<Rightarrow> f32 \<Rightarrow> pii_vault \<Rightarrow> pii_vault" where
  "add_mapping_with_token_id build original display_value token_id ty tier conf v =
     (let full_token = xml_token token_id display_value;
          v1 = (if \<not> hm_contains (original_to_synthetic v) original
                then rebuild_automaton build
                       (insert_mapping_raw_with_token_id original display_value (label ty) tier conf
                          token_id v)
                else v)
      in v1\<lparr>full_token_to_original := hm_insert full_token original (full_token_to_original v1),
            token_id_to_original := hm_insert token_id original (token_id_to_original v1),
            display_value_to_original :=
              hm_insert display_value original (display_value_to_original v1)\<rparr>)"

text \<open>One step of the loop of \<open>from_records\<close>.\<close>

definition load_record :: "vault_record \<Rightarrow> pii_vault \<Rightarrow> pii_vault" where
  "load_record r v =
     (let original = vr_original r; synthetic = vr_synthetic r; token_id = vr_token_id r;
          display_value = (if vr_display_value r = [] then synthetic else vr_display_value r);
          v1 = insert_mapping_raw_with_token_id original synthetic (label (vr_pii_type r))
                 (vr_tier r) (vr_confidence r) token_id v
      in if token_id \<noteq> []
         then v1\<lparr>full_token_to_original :=
                   hm_insert (xml_token token_id display_value) original (full_token_to_original v1),
                 token_id_to_original := hm_insert token_id original (token_id_to_original v1),
                 display_value_to_original :=
                   hm_insert display_value original (display_value_to_original v1)\<rparr>
         else v1)"

definition from_records :: "ac_builder \<Rightarrow> bytes \<Rightarrow> 64 word \<Rightarrow> vault_record list \<Rightarrow> pii_vault" where
  "from_records build conv_id seed records =
     rebuild_automaton build (fold load_record records (empty_vault conv_id seed))"

definition get_by_token_id :: "pii_vault \<Rightarrow> bytes \<Rightarrow> bytes option" where
  "get_by_token_id v token_id = hm_get (token_id_to_original v) token_id"

definition get_by_display_value :: "pii_vault \<Rightarrow> bytes \<Rightarrow> bytes option" where
  "get_by_display_value v display_value = hm_get (display_value_to_original v) display_value"

definition vault_is_empty :: "pii_vault \<Rightarrow> bool" where
  "vault_is_empty v \<longleftrightarrow> original_to_synthetic v = []"

definition is_synthetic :: "pii_vault \<Rightarrow> bytes \<Rightarrow> bool" where
  "is_synthetic v value \<longleftrightarrow> list_ex (\<lambda>s. s = value) (synthetic_keys v)"

definition mapping_count :: "pii_vault \<Rightarrow> nat" where
  "mapping_count v = hm_len (original_to_synthetic v)"

definition replace_originals :: "ac_builder \<Rightarrow> pii_vault \<Rightarrow> bytes \<Rightarrow> bytes outcome" where
  "replace_originals build v txt =
     (if original_to_synthetic v = [] then Done txt
      else (case build (original_values v) of
              Some ac \<Rightarrow> splice_matches (synthetic_keys v) txt 0 (ac txt)
            | None \<Rightarrow> Done txt))"

definition replace_synthetics :: "pii_vault \<Rightarrow> bytes \<Rightarrow> (bytes \<times> bool) outcome" where
  "replace_synthetics v txt =
     (case reverse_automaton v of
        None \<Rightarrow> Done (txt, False)
      | Some ac \<Rightarrow>
          and_then (splice_matches (original_values v) txt 0 (ac txt))
            (\<lambda>res. Done (res, ac txt \<noteq> [])))"

text \<open>The iterators zip the parallel vectors.\<close>

definition quints :: "pii_vault \<Rightarrow> (bytes \<times> bytes \<times> bytes \<times> nat \<times> f32) list" where
  "quints v =
     zip (original_values v) (zip (synthetic_keys v)
       (zip (pii_type_labels v) (zip (tiers v) (confidences v))))"

definition triples :: "pii_vault \<Rightarrow> (bytes \<times> bytes \<times> bytes) list" where
  "triples v = zip (original_values v) (zip (synthetic_keys v) (pii_type_labels v))"

definition pairs :: "pii_vault \<Rightarrow> (bytes \<times> bytes) list" where
  "pairs v = zip (original_values v) (synthetic_keys v)"

definition to_records :: "pii_vault \<Rightarrow> vault_record list" where
  "to_records v =
     map (\<lambda>((orig, syn, lab, tier, conf), tid).
            \<lparr>vr_original = orig, vr_synthetic = syn, vr_pii_type = Custom lab, vr_tier = tier,
             vr_confidence = conf, vr_token_id = tid, vr_display_value = syn\<rparr>)
       (zip (quints v) (token_ids v))"

definition merge_index_maps_from :: "pii_vault \<Rightarrow> pii_vault \<Rightarrow> pii_vault" where
  "merge_index_maps_from other v =
     v\<lparr>full_token_to_original :=
         fold (\<lambda>(k, x). hm_or_insert k x) (full_token_to_original other) (full_token_to_original v),
       token_id_to_original :=
         fold (\<lambda>(k, x). hm_or_insert k x) (token_id_to_original other) (token_id_to_original v),
       display_value_to_original :=
         fold (\<lambda>(k, x). hm_or_insert k x) (display_value_to_original other)
           (display_value_to_original v)\<rparr>"

definition synthetic_key_prefixes :: "pii_vault \<Rightarrow> (char \<times> char) list" where
  "synthetic_key_prefixes v =
     List.map_filter (\<lambda>s. case s of a # b # _ \<Rightarrow> Some (a, b) | _ \<Rightarrow> None) (synthetic_keys v)"

section \<open>Token identifiers: shape, range, collisions\<close>

lemma length_base62_fill [simp]: "length (base62_fill n val) = n"
  by (induction n arbitrary: val) auto

lemma length_BASE62: "length BASE62 = 62"
  by (simp add: BASE62_def)

lemma distinct_BASE62: "distinct BASE62"
  by (simp add: BASE62_def)

lemma set_base62_fill: "set (base62_fill n val) \<subseteq> set BASE62"
proof (induction n arbitrary: val)
  case (Suc n)
  have "BASE62 ! (val mod 62) \<in> set BASE62" by (rule nth_mem) (simp add: length_BASE62)
  with Suc show ?case by auto
qed simp

lemma base62_fill_inj:
  "base62_fill n a = base62_fill n b \<longleftrightarrow> a mod 62 ^ n = b mod 62 ^ n"
proof (induction n arbitrary: a b)
  case 0
  then show ?case by simp
next
  case (Suc n)
  have d: "x mod 62 ^ Suc n = 62 * (x div 62 mod 62 ^ n) + x mod 62" for x :: nat
    by (simp add: mod_mult2_eq mult.commute)
  have eq: "62 * q + r = 62 * q' + r' \<longleftrightarrow> q = q' \<and> r = r'" if "r < 62" "r' < 62" for q q' r r' :: nat
  proof -
    have "(62 * q + r) div 62 = q" "(62 * q + r) mod 62 = r"
      "(62 * q' + r') div 62 = q'" "(62 * q' + r') mod 62 = r'" using that by simp_all
    then show ?thesis by metis
  qed
  have "BASE62 ! (a mod 62) = BASE62 ! (b mod 62) \<longleftrightarrow> a mod 62 = b mod 62"
    by (rule nth_eq_iff_index_eq) (simp_all add: distinct_BASE62 length_BASE62)
  then have "base62_fill (Suc n) a = base62_fill (Suc n) b \<longleftrightarrow>
      a div 62 mod 62 ^ n = b div 62 mod 62 ^ n \<and> a mod 62 = b mod 62"
    by (simp add: Suc.IH)
  also have "\<dots> \<longleftrightarrow> a mod 62 ^ Suc n = b mod 62 ^ Suc n"
    unfolding d using eq [of "a mod 62" "b mod 62"] by auto
  finally show ?case .
qed

text \<open>
  A token identifier is eight characters of the base-62 alphabet, none of them a quote, a
  \<open>>\<close> or a \<open><\<close>, and two 48-bit values get the same identifier exactly when they agree modulo
  \<open>62 ^ 8\<close>; since \<open>62 ^ 8 < 2 ^ 48\<close>, the encoding of the six digest bytes is not injective.
\<close>

theorem base62_encode_6bytes_spec:
  "length (base62_encode_6bytes a) = 8 \<and> set (base62_encode_6bytes a) \<subseteq> set BASE62
   \<and> (base62_encode_6bytes a = base62_encode_6bytes b \<longleftrightarrow> a mod 62 ^ 8 = b mod 62 ^ 8)
   \<and> base62_encode_6bytes 0 = base62_encode_6bytes (62 ^ 8) \<and> 62 ^ 8 < (2 :: nat) ^ 48"
proof (intro conjI)
  show "length (base62_encode_6bytes a) = 8" by (simp add: base62_encode_6bytes_def)
  show "set (base62_encode_6bytes a) \<subseteq> set BASE62"
    unfolding base62_encode_6bytes_def by (rule set_base62_fill)
  show "base62_encode_6bytes a = base62_encode_6bytes b \<longleftrightarrow> a mod 62 ^ 8 = b mod 62 ^ 8"
    unfolding base62_encode_6bytes_def by (rule base62_fill_inj)
  show "base62_encode_6bytes 0 = base62_encode_6bytes (62 ^ 8)"
    unfolding base62_encode_6bytes_def base62_fill_inj by simp
qed simp

lemma token_id_chars: "c \<in> set (generate_token_id sha256 cid i) \<Longrightarrow> c \<in> set BASE62"
  unfolding generate_token_id_def base62_encode_6bytes_def Let_def
  using set_base62_fill by blast

lemma length_generate_token_id [simp]: "length (generate_token_id sha256 cid i) = 8"
  by (simp add: generate_token_id_def base62_encode_6bytes_def Let_def)

lemma generate_token_id_not_Nil [simp]: "generate_token_id sha256 cid i \<noteq> []"
  using length_generate_token_id [of sha256 cid i] by fastforce

section \<open>The invariant\<close>

definition max_len :: "bytes list \<Rightarrow> nat" where
  "max_len ks = foldr (\<lambda>k m. max (length k) m) ks 0"

lemma max_len_snoc [simp]: "max_len (ks @ [k]) = max (max_len ks) (length k)"
proof -
  have "foldr (\<lambda>k m. max (length k) m) ks (max a b) = max (foldr (\<lambda>k m. max (length k) m) ks a) b"
    for a b by (induction ks) auto
  from this [of 0 "length k"] show ?thesis by (simp add: max_len_def)
qed

lemma max_len_Nil [simp]: "max_len [] = 0"
  by (simp add: max_len_def)

lemma max_len_ge: "k \<in> set ks \<Longrightarrow> length k \<le> max_len ks"
  by (induction ks) (auto simp: max_len_def)

definition vectors_ok :: "pii_vault \<Rightarrow> bool" where
  "vectors_ok v \<longleftrightarrow>
     length (synthetic_keys v) = length (original_values v)
     \<and> length (pii_type_labels v) = length (original_values v)
     \<and> length (tiers v) = length (original_values v)
     \<and> length (confidences v) = length (original_values v)
     \<and> length (token_ids v) = length (original_values v)
     \<and> distinct (original_values v)
     \<and> hm_ok (original_to_synthetic v)
     \<and> hm_get (original_to_synthetic v) = map_of (pairs v)
     \<and> hm_len (original_to_synthetic v) = length (original_values v)
     \<and> max_synthetic_key_len v = max_len (synthetic_keys v)"

definition automaton_ok :: "ac_builder \<Rightarrow> pii_vault \<Rightarrow> bool" where
  "automaton_ok build v \<longleftrightarrow>
     reverse_automaton v = (if synthetic_keys v = [] then None else build (synthetic_keys v))"

definition vault_ok :: "ac_builder \<Rightarrow> pii_vault \<Rightarrow> bool" where
  "vault_ok build v \<longleftrightarrow> vectors_ok v \<and> automaton_ok build v"

lemma vectors_ok_empty: "vectors_ok (empty_vault cid seed)"
  by (simp add: vectors_ok_def empty_vault_def pairs_def hm_simps fun_eq_iff)

lemma vectors_ok_contains:
  "vectors_ok v \<Longrightarrow> hm_contains (original_to_synthetic v) k \<longleftrightarrow> k \<in> set (original_values v)"
  by (auto simp: vectors_ok_def hm_contains_def pairs_def map_of_zip_is_None)

lemma map_of_zip_snoc:
  assumes "length xs = length ys" and "x \<notin> set xs"
  shows "map_of (zip (xs @ [x]) (ys @ [y])) = (map_of (zip xs ys))(x \<mapsto> y)"
proof -
  have n: "map_of (zip xs ys) x = None" using assms by (simp add: map_of_zip_is_None)
  have "zip (xs @ [x]) (ys @ [y]) = zip xs ys @ [(x, y)]" using assms(1) by simp
  then have "map_of (zip (xs @ [x]) (ys @ [y])) = [x \<mapsto> y] ++ map_of (zip xs ys)" by simp
  also have "\<dots> = (map_of (zip xs ys))(x \<mapsto> y)"
    using n by (intro ext) (auto simp: map_add_def split: option.splits)
  finally show ?thesis .
qed

lemma vectors_ok_insert:
  assumes "vectors_ok v" and "\<not> hm_contains (original_to_synthetic v) orig"
  shows "vectors_ok (insert_mapping_raw_with_token_id orig syn lab t c tid v)"
proof -
  let ?w = "insert_mapping_raw_with_token_id orig syn lab t c tid v"
  have new: "orig \<notin> set (original_values v)" using assms vectors_ok_contains by blast
  have "map_of (pairs ?w) = (map_of (pairs v))(orig \<mapsto> syn)"
    using assms(1) new map_of_zip_snoc [of "original_values v" "synthetic_keys v" orig syn]
    by (simp add: pairs_def insert_mapping_raw_with_token_id_def vectors_ok_def)
  moreover have "hm_get (original_to_synthetic v) orig = None"
    using assms(2) by (simp add: hm_contains_def)
  ultimately show ?thesis
    using assms(1) new
    by (auto simp: vectors_ok_def insert_mapping_raw_with_token_id_def hm_simps fun_eq_iff max_def)
qed

lemma rebuild_fields [simp]:
  "original_to_synthetic (rebuild_automaton build v) = original_to_synthetic v"
  "synthetic_keys (rebuild_automaton build v) = synthetic_keys v"
  "original_values (rebuild_automaton build v) = original_values v"
  "pii_type_labels (rebuild_automaton build v) = pii_type_labels v"
  "tiers (rebuild_automaton build v) = tiers v"
  "confidences (rebuild_automaton build v) = confidences v"
  "token_ids (rebuild_automaton build v) = token_ids v"
  "max_synthetic_key_len (rebuild_automaton build v) = max_synthetic_key_len v"
  "rng_seed (rebuild_automaton build v) = rng_seed v"
  "conversation_id (rebuild_automaton build v) = conversation_id v"
  "full_token_to_original (rebuild_automaton build v) = full_token_to_original v"
  "token_id_to_original (rebuild_automaton build v) = token_id_to_original v"
  "display_value_to_original (rebuild_automaton build v) = display_value_to_original v"
  by (auto simp: rebuild_automaton_def split: option.splits)

lemma vectors_ok_rebuild [simp]: "vectors_ok (rebuild_automaton build v) \<longleftrightarrow> vectors_ok v"
  by (simp add: vectors_ok_def pairs_def)

lemma automaton_ok_rebuild [simp]: "automaton_ok build (rebuild_automaton build v)"
  by (auto simp: automaton_ok_def rebuild_automaton_def split: option.splits)

lemma vault_ok_new: "vault_ok build (vault_new sha1 cid)"
  by (simp add: vault_ok_def vault_new_def vectors_ok_empty automaton_ok_def)
     (simp add: empty_vault_def)

lemma vault_ok_add_mapping: "vault_ok build v \<Longrightarrow> vault_ok build (add_mapping build og syn ty t c v)"
  by (simp add: vault_ok_def add_mapping_def insert_mapping_raw_def vectors_ok_insert)

text \<open>The index maps are not part of the invariant: updating them keeps it.\<close>

lemma vectors_ok_index_maps [simp]:
  "vectors_ok (v\<lparr>full_token_to_original := a, token_id_to_original := b,
     display_value_to_original := d\<rparr>) \<longleftrightarrow> vectors_ok v"
  by (simp add: vectors_ok_def pairs_def)

lemma vault_ok_index_maps [simp]:
  "vault_ok build (v\<lparr>full_token_to_original := a, token_id_to_original := b,
     display_value_to_original := d\<rparr>) \<longleftrightarrow> vault_ok build v"
  by (simp add: vault_ok_def vectors_ok_def automaton_ok_def pairs_def)

lemma vault_ok_add_mapping_with_token_id:
  "vault_ok build v \<Longrightarrow> vault_ok build (add_mapping_with_token_id build og dv tid ty t c v)"
  by (auto simp: vault_ok_def [of build v] add_mapping_with_token_id_def Let_def)
     (simp add: vault_ok_def vectors_ok_insert)

lemma vault_ok_merge_index_maps:
  "vault_ok build v \<Longrightarrow> vault_ok build (merge_index_maps_from w v)"
  by (simp add: merge_index_maps_from_def)

section \<open>Reachable vaults\<close>

text \<open>
  The states a vault can be in: created, restored from records with pairwise different
  originals, and changed by the operations.
\<close>

inductive reachable_vault :: "hash \<Rightarrow> ac_builder \<Rightarrow> pii_vault \<Rightarrow> bool" for sha1 build where
  new: "reachable_vault sha1 build (vault_new sha1 cid)"
| restored: "distinct (map vr_original rs) \<Longrightarrow>
     reachable_vault sha1 build (from_records build cid seed rs)"
| added: "reachable_vault sha1 build v \<Longrightarrow>
     reachable_vault sha1 build (add_mapping build og syn ty t c v)"
| added_token: "reachable_vault sha1 build v \<Longrightarrow>
     reachable_vault sha1 build (add_mapping_with_token_id build og dv tid ty t c v)"
| merged: "reachable_vault sha1 build v \<Longrightarrow> reachable_vault sha1 build w \<Longrightarrow>
     reachable_vault sha1 build (merge_index_maps_from w v)"

lemma load_record_fields [simp]:
  "synthetic_keys (load_record r v) = synthetic_keys v @ [vr_synthetic r]"
  "original_values (load_record r v) = original_values v @ [vr_original r]"
  "pii_type_labels (load_record r v) = pii_type_labels v @ [label (vr_pii_type r)]"
  "tiers (load_record r v) = tiers v @ [vr_tier r]"
  "confidences (load_record r v) = confidences v @ [vr_confidence r]"
  "token_ids (load_record r v) = token_ids v @ [vr_token_id r]"
  "rng_seed (load_record r v) = rng_seed v"
  "conversation_id (load_record r v) = conversation_id v"
  by (simp_all add: load_record_def Let_def insert_mapping_raw_with_token_id_def)

lemma vectors_ok_load_record:
  assumes "vectors_ok v" and "vr_original r \<notin> set (original_values v)"
  shows "vectors_ok (load_record r v)"
proof -
  have "vectors_ok (insert_mapping_raw_with_token_id (vr_original r) (vr_synthetic r)
      (label (vr_pii_type r)) (vr_tier r) (vr_confidence r) (vr_token_id r) v)"
    using assms by (simp add: vectors_ok_insert vectors_ok_contains)
  then show ?thesis by (auto simp: load_record_def Let_def)
qed

lemma load_records_fields:
  "synthetic_keys (fold load_record rs v) = synthetic_keys v @ map vr_synthetic rs"
  "original_values (fold load_record rs v) = original_values v @ map vr_original rs"
  "pii_type_labels (fold load_record rs v) = pii_type_labels v @ map (label \<circ> vr_pii_type) rs"
  "tiers (fold load_record rs v) = tiers v @ map vr_tier rs"
  "confidences (fold load_record rs v) = confidences v @ map vr_confidence rs"
  "token_ids (fold load_record rs v) = token_ids v @ map vr_token_id rs"
  "rng_seed (fold load_record rs v) = rng_seed v"
  "conversation_id (fold load_record rs v) = conversation_id v"
  by (induction rs arbitrary: v) simp_all

lemma vectors_ok_load_records:
  "vectors_ok v \<Longrightarrow> distinct (original_values v @ map vr_original rs) \<Longrightarrow>
     vectors_ok (fold load_record rs v)"
  by (induction rs arbitrary: v) (auto simp: vectors_ok_load_record)

lemma vault_ok_from_records:
  "distinct (map vr_original rs) \<Longrightarrow> vault_ok build (from_records build cid seed rs)"
  using vectors_ok_load_records [OF vectors_ok_empty, of cid seed rs]
  by (simp add: vault_ok_def from_records_def) (simp add: empty_vault_def)

lemma reachable_vault_ok: "reachable_vault sha1 build v \<Longrightarrow> vault_ok build v"
proof (induction rule: reachable_vault.induct)
  case (new cid)
  show ?case by (rule vault_ok_new)
next
  case (restored rs cid seed)
  then show ?case by (rule vault_ok_from_records)
next
  case (added v og syn ty t c)
  then show ?case by (simp add: vault_ok_add_mapping)
next
  case (added_token v og dv tid ty t c)
  then show ?case by (simp add: vault_ok_add_mapping_with_token_id)
next
  case (merged v w)
  then show ?case by (simp add: vault_ok_merge_index_maps)
qed

section \<open>Properties\<close>

text \<open>
  C6. Every vault the code can reach, by creation, restoring from records, either way of adding a
  mapping and merging index maps, satisfies the representation invariant: the six parallel
  vectors have one length, originals are pairwise different, the hash map is exactly the pairing
  of originals and synthetics, the cached maximum is the longest synthetic, and the automaton is
  the one built over the current synthetics (none when there are none).
\<close>

theorem vault_invariant:
  "reachable_vault sha1 build v \<Longrightarrow> vault_ok build v"
  by (rule reachable_vault_ok)

definition zero_hash :: hash where
  "zero_hash = (\<lambda>_. replicate 32 (CHR 0x00))"

theorem vault_invariant_witness:
  "vault_ok naive_build
     (add_mapping naive_build ''John Smith'' ''Alice Brown'' PersonName 1 1
        (vault_new zero_hash ''conv''))"
  using vault_invariant [OF reachable_vault.added [OF reachable_vault.new]] by blast

text \<open>
  \<open>add_mapping\<close> is idempotent on the original: after it, a lookup returns what it returned
  before where there was something, the new synthetic at the new original, and nothing else
  changed. \<open>add_mapping_with_token_id\<close> does the same to the core mapping and always makes the
  token, the full XML token and the display value resolve to the original.
\<close>

theorem add_mapping_lookup:
  "get_synthetic (add_mapping build og syn ty t c v) k =
     (case get_synthetic v k of Some s \<Rightarrow> Some s | None \<Rightarrow> if k = og then Some syn else None)
   \<and> get_synthetic (add_mapping_with_token_id build og syn tid ty t c v) k =
     (case get_synthetic v k of Some s \<Rightarrow> Some s | None \<Rightarrow> if k = og then Some syn else None)
   \<and> get_by_token_id (add_mapping_with_token_id build og syn tid ty t c v) tid = Some og
   \<and> get_by_display_value (add_mapping_with_token_id build og syn tid ty t c v) syn = Some og
   \<and> hm_get (full_token_to_original (add_mapping_with_token_id build og syn tid ty t c v))
       (xml_token tid syn) = Some og"
  by (auto simp: get_synthetic_def add_mapping_def add_mapping_with_token_id_def Let_def
      insert_mapping_raw_def insert_mapping_raw_with_token_id_def get_by_token_id_def
      get_by_display_value_def hm_simps hm_contains_def split: option.splits)

definition keys_ok :: "pii_vault \<Rightarrow> bool" where
  "keys_ok v \<longleftrightarrow>
     distinct (synthetic_keys v) \<and> [] \<notin> set (synthetic_keys v)
     \<and> (\<forall>k\<in>set (synthetic_keys v). utf8_valid k)"

definition reverse_pairs :: "pii_vault \<Rightarrow> (bytes \<times> bytes) list" where
  "reverse_pairs v = zip (synthetic_keys v) (original_values v)"

context leftmost_longest
begin

lemma replace_synthetics_subst:
  assumes ok: "vault_ok build v" and k: "keys_ok v" and "utf8_valid txt"
    and b: "synthetic_keys v \<noteq> [] \<longrightarrow> build (synthetic_keys v) \<noteq> None"
  shows "replace_synthetics v txt =
     Done (subst_longest (reverse_pairs v) txt, \<exists>k\<in>set (synthetic_keys v). sublist k txt)"
proof (cases "synthetic_keys v = []")
  case True
  with ok show ?thesis
    by (simp add: replace_synthetics_def vault_ok_def automaton_ok_def reverse_pairs_def
        subst_longest_id)
next
  case False
  with b obtain ac where ac: "build (synthetic_keys v) = Some ac" by auto
  then have rev: "reverse_automaton v = Some ac" using ok False
    by (simp add: vault_ok_def automaton_ok_def)
  have "splice_matches (original_values v) txt 0 (ac txt)
      = Done (subst_longest (reverse_pairs v) txt)"
    unfolding reverse_pairs_def using ac k assms(3) ok
    by (intro splice_find_iter) (auto simp: keys_ok_def vault_ok_def vectors_ok_def)
  moreover have "ac txt \<noteq> [] \<longleftrightarrow> (\<exists>k\<in>set (synthetic_keys v). sublist k txt)"
    using find_iter_empty_iff [OF ac] k by (auto simp: keys_ok_def)
  ultimately show ?thesis by (simp add: replace_synthetics_def rev)
qed

end

text \<open>
  C11. The reverse replacement computes the one-pass rewriting of the synthetic values by their
  originals, longest value first at each position, and its flag says whether a synthetic value
  occurs in the text; it never panics. This is what every restored response goes through.
\<close>

theorem replace_synthetics_rewrites:
  assumes "leftmost_longest build" and "vault_ok build v" and "keys_ok v" and "utf8_valid txt"
    and "synthetic_keys v \<noteq> [] \<longrightarrow> build (synthetic_keys v) \<noteq> None"
  shows "replace_synthetics v txt =
     Done (subst_longest (reverse_pairs v) txt, \<exists>k\<in>set (synthetic_keys v). sublist k txt)"
  using leftmost_longest.replace_synthetics_subst [OF assms] .

definition sample_vault :: pii_vault where
  "sample_vault =
     add_mapping naive_build ''John Smith'' ''Alice Brown'' PersonName 1 1
       (add_mapping naive_build ''Smith'' ''Brown'' PersonName 1 1 (vault_new zero_hash ''conv''))"

lemma sample_vault_ok: "vault_ok naive_build sample_vault"
  unfolding sample_vault_def by (intro vault_ok_add_mapping vault_ok_new)

lemma sample_vault_keys: "synthetic_keys sample_vault = [''Brown'', ''Alice Brown'']"
  and sample_vault_originals: "original_values sample_vault = [''Smith'', ''John Smith'']"
  by (simp_all add: sample_vault_def add_mapping_def insert_mapping_raw_def
      insert_mapping_raw_with_token_id_def vault_new_def empty_vault_def hm_simps)

lemma sample_vault_keys_ok: "keys_ok sample_vault"
  by (simp add: keys_ok_def sample_vault_keys ascii_literal byte_def)

theorem replace_synthetics_rewrites_witness:
  "replace_synthetics sample_vault ''Hello Alice Brown.'' =
     Done (''Hello John Smith.'', True)"
proof -
  have "replace_synthetics sample_vault ''Hello Alice Brown.'' =
     Done (subst_longest (reverse_pairs sample_vault) ''Hello Alice Brown.'',
       \<exists>k\<in>set (synthetic_keys sample_vault). sublist k ''Hello Alice Brown.'')"
    by (rule replace_synthetics_rewrites [OF naive.leftmost_longest_axioms sample_vault_ok sample_vault_keys_ok])
       (simp_all add: ascii_literal byte_def naive_build_def)
  moreover have "subst_longest [(''Brown'', ''Smith''), (''Alice Brown'', ''John Smith'')]
      ''Hello Alice Brown.'' = ''Hello John Smith.''" by code_simp
  moreover have "sublist ''Brown'' ''Hello Alice Brown.''" by code_simp
  ultimately show ?thesis
    by (simp add: reverse_pairs_def sample_vault_keys sample_vault_originals)
qed

section \<open>Persistence\<close>

lemma to_records_fields:
  assumes "vectors_ok v"
  shows "map vr_original (to_records v) = original_values v"
    "map vr_synthetic (to_records v) = synthetic_keys v"
    "map (label \<circ> vr_pii_type) (to_records v) = pii_type_labels v"
    "map vr_tier (to_records v) = tiers v"
    "map vr_confidence (to_records v) = confidences v"
    "map vr_token_id (to_records v) = token_ids v"
    "map vr_display_value (to_records v) = synthetic_keys v"
  by (rule nth_equalityI; use assms in \<open>simp add: vectors_ok_def to_records_def quints_def\<close>)+

lemma distinct_to_records: "vectors_ok v \<Longrightarrow> distinct (map vr_original (to_records v))"
  using to_records_fields(1) by (simp add: vectors_ok_def)

text \<open>What the loop of \<open>from_records\<close> puts into the index maps.\<close>

lemma load_records_index_None:
  "hm_get (token_id_to_original v) tid = None \<Longrightarrow> tid \<notin> set (map vr_token_id rs) \<Longrightarrow>
     hm_get (token_id_to_original (fold load_record rs v)) tid = None"
proof (induction rs arbitrary: v)
  case Nil
  then show ?case by simp
next
  case (Cons r rs)
  have "hm_get (token_id_to_original (load_record r v)) tid = None"
    using Cons.prems
    by (auto simp: load_record_def Let_def insert_mapping_raw_with_token_id_def hm_simps)
  with Cons show ?case by simp
qed

lemma load_records_index_Some:
  assumes "r \<in> set rs" and "vr_token_id r = tid" and "tid \<noteq> []"
    and "\<forall>q\<in>set rs. vr_token_id q = tid \<longrightarrow> vr_original q = vr_original r"
  shows "hm_get (token_id_to_original (fold load_record rs v)) tid = Some (vr_original r)"
proof -
  have load: "hm_get (token_id_to_original (load_record q w)) tid =
      (if vr_token_id q = tid then Some (vr_original q) else hm_get (token_id_to_original w) tid)"
    for q w using assms(3)
    by (auto simp: load_record_def Let_def insert_mapping_raw_with_token_id_def hm_simps)
  show ?thesis using assms(1,4)
  proof (induction rs arbitrary: v rule: rev_induct)
    case Nil
    then show ?case by simp
  next
    case (snoc q qs)
    show ?case
    proof (cases "vr_token_id q = tid")
      case True
      with snoc.prems(2) have "vr_original q = vr_original r" by simp
      with True show ?thesis by (simp add: load)
    next
      case False
      with snoc.prems(1) assms(2) have "r \<in> set qs" by auto
      with snoc False show ?thesis by (simp add: load)
    qed
  qed
qed

text \<open>
  C16. Saving a vault and restoring it gives back the core mapping: the same originals, synthetics,
  labels, tiers, confidences and token identifiers in the same order, the same lookups, the same
  window length and the same automaton, for every vault the code can reach.
\<close>

theorem records_roundtrip:
  assumes "vault_ok build v"
  shows "(let w = from_records build (conversation_id v) (rng_seed v) (to_records v) in
     original_values w = original_values v \<and> synthetic_keys w = synthetic_keys v
     \<and> pii_type_labels w = pii_type_labels v \<and> tiers w = tiers v
     \<and> confidences w = confidences v \<and> token_ids w = token_ids v
     \<and> get_synthetic w = get_synthetic v \<and> mapping_count w = mapping_count v
     \<and> max_synthetic_key_len w = max_synthetic_key_len v
     \<and> reverse_automaton w = reverse_automaton v
     \<and> rng_seed w = rng_seed v \<and> conversation_id w = conversation_id v)"
proof -
  let ?w = "from_records build (conversation_id v) (rng_seed v) (to_records v)"
  have v: "vectors_ok v" using assms by (simp add: vault_ok_def)
  have w: "vault_ok build ?w" using distinct_to_records [OF v] by (rule vault_ok_from_records)
  have "original_values ?w = original_values v" "synthetic_keys ?w = synthetic_keys v"
    "pii_type_labels ?w = pii_type_labels v" "tiers ?w = tiers v"
    "confidences ?w = confidences v" "token_ids ?w = token_ids v"
    "rng_seed ?w = rng_seed v" "conversation_id ?w = conversation_id v"
    by (simp_all add: from_records_def load_records_fields to_records_fields [OF v] empty_vault_def)
  with assms w show ?thesis
    by (simp add: Let_def vault_ok_def vectors_ok_def automaton_ok_def get_synthetic_def
        [abs_def] mapping_count_def pairs_def)
qed

theorem records_roundtrip_witness:
  "get_synthetic (from_records naive_build (conversation_id sample_vault) (rng_seed sample_vault)
     (to_records sample_vault)) ''Smith'' = Some ''Brown''"
proof -
  have "get_synthetic (from_records naive_build (conversation_id sample_vault) (rng_seed sample_vault)
     (to_records sample_vault)) = get_synthetic sample_vault"
    using records_roundtrip [OF sample_vault_ok] by (simp add: Let_def)
  then show ?thesis
    by (simp add: sample_vault_def add_mapping_def insert_mapping_raw_def get_synthetic_def
        insert_mapping_raw_with_token_id_def vault_new_def empty_vault_def hm_simps)
qed

text \<open>
  The path the pipeline takes: the original is first added without a token, then its token is
  registered. The core insert of the second call is skipped, so the token never reaches the
  vector that is persisted.
\<close>

lemma token_ids_after_both:
  assumes "\<not> hm_contains (original_to_synthetic v) og"
  shows "token_ids (add_mapping_with_token_id build og dv tid ty t c
           (add_mapping build og dv ty t c v)) = token_ids v @ [[]]"
  using assms
  by (simp add: add_mapping_with_token_id_def add_mapping_def insert_mapping_raw_def Let_def
      insert_mapping_raw_with_token_id_def hm_simps)

text \<open>
  A token registered for an original that was first added by \<open>get_or_create\<close> (the order the
  pipeline uses for every regex or NER span) resolves in memory, and no longer resolves after the
  vault has been saved and restored.
\<close>

theorem token_lost_by_persistence:
  assumes "vault_ok build v" and "\<not> hm_contains (original_to_synthetic v) og"
    and "tid \<noteq> []" and "tid \<notin> set (token_ids v)"
  shows "(let w = add_mapping_with_token_id build og dv tid ty t c (add_mapping build og dv ty t c v)
     in get_by_token_id w tid = Some og
        \<and> get_by_token_id (from_records build (conversation_id w) (rng_seed w) (to_records w)) tid = None)"
proof -
  let ?w = "add_mapping_with_token_id build og dv tid ty t c (add_mapping build og dv ty t c v)"
  have "vault_ok build ?w"
    using assms(1) by (intro vault_ok_add_mapping_with_token_id vault_ok_add_mapping)
  then have "map vr_token_id (to_records ?w) = token_ids ?w"
    by (simp add: vault_ok_def to_records_fields)
  then have "tid \<notin> set (map vr_token_id (to_records ?w))"
    using assms(2-4) by (simp add: token_ids_after_both)
  then have "get_by_token_id (from_records build (conversation_id ?w) (rng_seed ?w) (to_records ?w)) tid = None"
    unfolding get_by_token_id_def from_records_def
    using load_records_index_None by (simp add: empty_vault_def hm_simps)
  moreover have "get_by_token_id ?w tid = Some og"
    by (simp add: add_mapping_with_token_id_def Let_def get_by_token_id_def hm_simps)
  ultimately show ?thesis by (simp add: Let_def)
qed

theorem token_lost_by_persistence_witness:
  "(let w = add_mapping_with_token_id naive_build ''a@b.co'' ''x@example.com'' ''a3f9b2c1'' Email 1 1
          (add_mapping naive_build ''a@b.co'' ''x@example.com'' Email 1 1 (vault_new zero_hash ''c''))
     in get_by_token_id w ''a3f9b2c1'' = Some ''a@b.co''
        \<and> get_by_token_id (from_records naive_build (conversation_id w) (rng_seed w) (to_records w))
            ''a3f9b2c1'' = None)"
  by (rule token_lost_by_persistence [OF vault_ok_new])
     (simp_all add: vault_new_def empty_vault_def hm_simps)

text \<open>
  Merging index maps keeps every entry the vault already had and adds the other vault's entries
  where it had none, for all three cascade levels.
\<close>

theorem merge_index_maps_lookup:
  "hm_get (full_token_to_original (merge_index_maps_from w v)) k =
     (case hm_get (full_token_to_original v) k of
        None \<Rightarrow> hm_get (full_token_to_original w) k | Some x \<Rightarrow> Some x)
   \<and> get_by_token_id (merge_index_maps_from w v) k =
     (case get_by_token_id v k of None \<Rightarrow> get_by_token_id w k | Some x \<Rightarrow> Some x)
   \<and> get_by_display_value (merge_index_maps_from w v) k =
     (case get_by_display_value v k of None \<Rightarrow> get_by_display_value w k | Some x \<Rightarrow> Some x)"
  unfolding merge_index_maps_from_def get_by_token_id_def get_by_display_value_def hm_or_insert_or_put
  by (simp add: hm.get_fold_or_put) (auto simp: hm_get_def split: option.splits)

end
