(* ===== verification/Tier1.thy ===== *)
theory Tier1
  imports Vault
begin

text \<open>
  The regex tier of \<open>src/src/pii/tier1.rs\<close> and the locale packs of \<open>src/src/pii/locale.rs\<close>.

  The regex engine (crate \<open>fancy-regex\<close>) is a parameter \<open>re_find\<close>: a pattern and a text give the
  results of \<open>find_iter\<close>, each a byte range or, for the engine's own error, \<open>None\<close>. The pattern
  tables, the validators (Luhn, CPF, IPv6), the greedy detection and the replacement loop are the
  code's. \<open>engine_ok\<close> is what the replacement relies on: matches are non-empty ranges on character
  boundaries of the text.
\<close>

abbreviation BSL :: char where "BSL \<equiv> CHR 0x5C"
abbreviation SQUOTE :: char where "SQUOTE \<equiv> CHR 0x27"

section \<open>Locales\<close>

datatype locale_pack = EnUs | EnGb | DeDe | FrFr | InIn | KoKr | BrBr

definition locale_from_str_opt :: "bytes \<Rightarrow> locale_pack option" where
  "locale_from_str_opt s =
     (let k = map (\<lambda>c. if c = CHR ''_'' then CHR ''-'' else c) (to_lowercase s) in
      if k = ''en-us'' \<or> k = ''en'' then Some EnUs
      else if k = ''en-gb'' then Some EnGb
      else if k = ''de-de'' \<or> k = ''de'' then Some DeDe
      else if k = ''fr-fr'' \<or> k = ''fr'' then Some FrFr
      else if k = ''in-in'' \<or> k = ''in'' then Some InIn
      else if k = ''ko-kr'' \<or> k = ''ko'' then Some KoKr
      else if k = ''br-br'' \<or> k = ''pt-br'' then Some BrBr
      else None)"

fun locale_as_str :: "locale_pack \<Rightarrow> bytes" where
  "locale_as_str EnUs = ''en-US''"
| "locale_as_str EnGb = ''en-GB''"
| "locale_as_str DeDe = ''de-DE''"
| "locale_as_str FrFr = ''fr-FR''"
| "locale_as_str InIn = ''in-IN''"
| "locale_as_str KoKr = ''ko-KR''"
| "locale_as_str BrBr = ''br-BR''"

section \<open>Validators\<close>

definition is_ascii_digit :: "char \<Rightarrow> bool" where
  "is_ascii_digit c \<longleftrightarrow> 48 \<le> byte c \<and> byte c \<le> 57"

definition digits_of :: "bytes \<Rightarrow> nat list" where
  "digits_of s = map (\<lambda>c. byte c - 48) (filter is_ascii_digit s)"

definition ipv6_valid :: "bytes \<Rightarrow> bool" where
  "ipv6_valid s =
     (if length (filter (\<lambda>c. c = CHR '':'') s) < 2 then False
      else list_all (\<lambda>seg. length seg \<le> 4) (filter (\<lambda>seg. seg \<noteq> []) (split_on (CHR '':'') s)))"

fun luhn_loop :: "nat list \<Rightarrow> bool \<Rightarrow> nat \<Rightarrow> nat" where
  "luhn_loop [] dbl s = s"
| "luhn_loop (d # ds) dbl s =
     (let val = (if dbl then (if 9 < d * 2 then d * 2 - 9 else d * 2) else d)
      in luhn_loop ds (\<not> dbl) (s + val))"

definition luhn_valid :: "bytes \<Rightarrow> bool" where
  "luhn_valid s =
     (let digits = digits_of s in
      if length digits < 13 \<or> 19 < length digits then False
      else luhn_loop (rev digits) False 0 mod 10 = 0)"

text \<open>\<open>digits[..n].iter().enumerate().map(|(i, d)| d * (w - i)).sum()\<close>.\<close>

fun weighted_sum :: "nat \<Rightarrow> nat list \<Rightarrow> nat" where
  "weighted_sum w [] = 0"
| "weighted_sum w (d # ds) = d * w + weighted_sum (w - 1) ds"

definition cpf_valid :: "bytes \<Rightarrow> bool" where
  "cpf_valid s =
     (let digits = digits_of s in
      if length digits \<noteq> 11 then False
      else if list_all (\<lambda>d. d = digits ! 0) digits then False
      else
        let r1 = weighted_sum 10 (take 9 digits) mod 11;
            check1 = (if r1 < 2 then 0 else 11 - r1)
        in if digits ! 9 \<noteq> check1 then False
           else
             let r2 = weighted_sum 11 (take 10 digits) mod 11;
                 check2 = (if r2 < 2 then 0 else 11 - r2)
             in digits ! 10 = check2)"

section \<open>Patterns\<close>

record pattern_set =
  ps_entity_type :: pii_type
  ps_validate :: "(bytes \<Rightarrow> bool) option"
  ps_re :: bytes

definition pattern :: "pii_type \<Rightarrow> (bytes \<Rightarrow> bool) option \<Rightarrow> bytes \<Rightarrow> pattern_set" where
  "pattern ty validate re = \<lparr>ps_entity_type = ty, ps_validate = validate, ps_re = re\<rparr>"

type_synonym re_engine = "bytes \<Rightarrow> bytes \<Rightarrow> (nat \<times> nat) option list"

definition universal_patterns :: "pattern_set list" where
  "universal_patterns =
     [pattern DbConnectionString None
         (''(?i)(?:postgres|postgresql|mysql|mariadb|mongodb|redis|amqp)://[^:'' @ [BSL]
          @ ''s]+:[^@'' @ [BSL] @ ''s]+@[^'' @ [BSL] @ ''s]+''),
      pattern UrlWithCreds None
         (''https?://[^:'' @ [BSL] @ ''s]+:[^@'' @ [BSL] @ ''s]+@[^'' @ [BSL] @ ''s]+''),
      pattern SshPrivateKey None
         (''-----BEGIN (?:RSA|EC|OPENSSH|DSA|PGP) PRIVATE KEY-----''),
      pattern BearerToken None
         (''Bearer [A-Za-z0-9._~+/='' @ [BSL] @ ''-]{20,}''),
      pattern GitHubPat None
         (''ghp_[A-Za-z0-9]{36}|github_pat_[A-Za-z0-9_]{82}''),
      pattern AwsSecretKey None
         (''(?i)aws.{0,20}secret.{0,10}[=:'' @ [BSL] @ ''s]['' @ [SQUOTE] @ [QUOTE]
          @ '']?([A-Za-z0-9/+]{40})''),
      pattern AwsAccessKey None
         (''AKIA[0-9A-Z]{16}''),
      pattern OpenAiApiKey None
         (''sk-[A-Za-z0-9]{20,100}''),
      pattern IpV6 (Some ipv6_valid)
         (''(?<![:'' @ [BSL] @ ''w])(?:[0-9a-fA-F]{1,4}:){7}[0-9a-fA-F]{1,4}(?![:'' @ [BSL]
          @ ''w])|(?<![:'' @ [BSL] @ ''w])(?:[0-9a-fA-F]{1,4}:){1,7}:[0-9a-fA-F:]*(?![:''
          @ [BSL] @ ''w])|(?<![:'' @ [BSL] @ ''w])::[0-9a-fA-F:]*(?![:'' @ [BSL] @ ''w])''),
      pattern IpV4 None
         (''(?<!'' @ [BSL] @ ''d)(?:(?:25[0-5]|2[0-4]'' @ [BSL] @ ''d|[01]?'' @ [BSL]
          @ ''d'' @ [BSL] @ ''d?)'' @ [BSL] @ ''.){3}(?:25[0-5]|2[0-4]'' @ [BSL]
          @ ''d|[01]?'' @ [BSL] @ ''d'' @ [BSL] @ ''d?)(?!'' @ [BSL] @ ''d)''),
      pattern CreditCard (Some luhn_valid)
         (''(?<!'' @ [BSL] @ ''d)(?:4'' @ [BSL] @ ''d{3}|5[1-5]'' @ [BSL] @ ''d{2}|3[47]''
          @ [BSL] @ ''d{2}|6011|65'' @ [BSL] @ ''d{2})['' @ [BSL] @ ''s'' @ [BSL] @ ''-]?''
          @ [BSL] @ ''d{4}['' @ [BSL] @ ''s'' @ [BSL] @ ''-]?'' @ [BSL] @ ''d{4}['' @ [BSL]
          @ ''s'' @ [BSL] @ ''-]?'' @ [BSL] @ ''d{4}(?:'' @ [BSL] @ ''d{3})?(?!'' @ [BSL]
          @ ''d)''),
      pattern Ssn None
         (''(?<!'' @ [BSL] @ ''d)(?!000|666|9'' @ [BSL] @ ''d'' @ [BSL] @ ''d)'' @ [BSL]
          @ ''d{3}[-'' @ [BSL] @ ''s](?!00)'' @ [BSL] @ ''d{2}[-'' @ [BSL] @ ''s](?!0000)''
          @ [BSL] @ ''d{4}(?!'' @ [BSL] @ ''d)''),
      pattern Phone None
         (''(?:'' @ [BSL] @ ''+1['' @ [BSL] @ ''s'' @ [BSL] @ ''-.]?)?'' @ [BSL] @ ''(?''
          @ [BSL] @ ''d{3}'' @ [BSL] @ '')?['' @ [BSL] @ ''s'' @ [BSL] @ ''-.](?:'' @ [BSL]
          @ ''d{3})['' @ [BSL] @ ''s'' @ [BSL] @ ''-.]('' @ [BSL] @ ''d{4})''),
      pattern Email None
         (''(?i)[a-z0-9._%+'' @ [BSL] @ ''-]+@[a-z0-9.'' @ [BSL] @ ''-]+'' @ [BSL]
          @ ''.[a-z]{2,}'')]"

fun locale_patterns :: "locale_pack \<Rightarrow> pattern_set list" where
  "locale_patterns EnGb =
     [pattern (Custom ''UK_NIN'') None
         (''(?i)[A-CEGHJ-PR-TW-Z]{2}'' @ [BSL] @ ''s?'' @ [BSL] @ ''d{2}'' @ [BSL] @ ''s?''
          @ [BSL] @ ''d{2}'' @ [BSL] @ ''s?'' @ [BSL] @ ''d{2}'' @ [BSL] @ ''s?[A-D]'')]"
| "locale_patterns DeDe =
     [pattern (Custom ''DE_STEUER_ID'') None
         (''(?<!'' @ [BSL] @ ''d)[1-9]'' @ [BSL] @ ''d{10}(?!'' @ [BSL] @ ''d)'')]"
| "locale_patterns FrFr =
     [pattern (Custom ''FR_INSEE'') None
         (''(?<!'' @ [BSL] @ ''d)[12]'' @ [BSL] @ ''d{12}(?!'' @ [BSL] @ ''d)'')]"
| "locale_patterns InIn =
     [pattern AadhaarNumber None
         ([BSL] @ ''d{4}'' @ [BSL] @ ''s'' @ [BSL] @ ''d{4}'' @ [BSL] @ ''s'' @ [BSL]
          @ ''d{4}''),
      pattern (Custom ''IN_PAN'') None
         (''[A-Z]{5}[0-9]{4}[A-Z]'')]"
| "locale_patterns KoKr =
     [pattern (Custom ''KO_RRN'') None
         ([BSL] @ ''d{6}-[1-4]'' @ [BSL] @ ''d{6}''),
      pattern (Custom ''KO_BRN'') None
         ([BSL] @ ''d{3}-'' @ [BSL] @ ''d{2}-'' @ [BSL] @ ''d{5}'')]"
| "locale_patterns BrBr =
     [pattern CpfNumber (Some cpf_valid)
         ([BSL] @ ''d{3}'' @ [BSL] @ ''.'' @ [BSL] @ ''d{3}'' @ [BSL] @ ''.'' @ [BSL]
          @ ''d{3}-'' @ [BSL] @ ''d{2}''),
      pattern (Custom ''BR_CNPJ'') None
         ([BSL] @ ''d{2}'' @ [BSL] @ ''.'' @ [BSL] @ ''d{3}'' @ [BSL] @ ''.'' @ [BSL]
          @ ''d{3}/'' @ [BSL] @ ''d{4}-'' @ [BSL] @ ''d{2}'')]"
| "locale_patterns EnUs = []"

section \<open>Detection\<close>

text \<open>\<open>m.as_str()\<close> is the text between the match's offsets.\<close>

definition match_str :: "bytes \<Rightarrow> nat \<times> nat \<Rightarrow> bytes" where
  "match_str txt m = take (snd m - fst m) (drop (fst m) txt)"

definition find_all :: "re_engine \<Rightarrow> pattern_set \<Rightarrow> bytes \<Rightarrow> pii_span list" where
  "find_all re_find ps txt =
     List.map_filter
       (\<lambda>r. case r of None \<Rightarrow> None
         | Some m \<Rightarrow>
             if (case ps_validate ps of None \<Rightarrow> True | Some f \<Rightarrow> f (match_str txt m))
             then Some \<lparr>sp_start = fst m, sp_end = snd m, entity_type = ps_entity_type ps,
                        confidence = 1, sp_tier = 1\<rparr>
             else None)
       (re_find (ps_re ps) txt)"

definition span_iv :: "pii_span \<Rightarrow> nat \<times> nat" where
  "span_iv s = (sp_start s, sp_end s)"

definition spans_overlap :: "pii_span list \<Rightarrow> pii_span \<Rightarrow> bool" where
  "spans_overlap existing candidate \<longleftrightarrow>
     list_ex (\<lambda>s. sp_start s < sp_end candidate \<and> sp_start candidate < sp_end s) existing"

fun push_spans :: "pii_span list \<Rightarrow> pii_span list \<Rightarrow> pii_span list" where
  "push_spans spans [] = spans"
| "push_spans spans (s # ss) = push_spans (if spans_overlap spans s then spans else spans @ [s]) ss"

fun scan_patterns :: "re_engine \<Rightarrow> bytes \<Rightarrow> pattern_set list \<Rightarrow> pii_span list \<Rightarrow> pii_span list" where
  "scan_patterns re_find txt [] spans = spans"
| "scan_patterns re_find txt (p # ps) spans =
     scan_patterns re_find txt ps (push_spans spans (find_all re_find p txt))"

definition detect :: "re_engine \<Rightarrow> bytes \<Rightarrow> locale_pack \<Rightarrow> pii_span list" where
  "detect re_find txt loc =
     (let spans = scan_patterns re_find txt universal_patterns [];
          spans = scan_patterns re_find txt (locale_patterns loc) spans
      in sort_key sp_start spans)"

text \<open>
  \<open>replace_in_text\<close>: the callback threads a state (the vault it writes to) and may itself panic.
\<close>

fun replace_spans_with ::
    "(bytes \<Rightarrow> pii_type \<Rightarrow> 's \<Rightarrow> (bytes \<times> 's) outcome) \<Rightarrow> bytes \<Rightarrow> nat \<Rightarrow> pii_span list \<Rightarrow> 's
       \<Rightarrow> (bytes \<times> 's) outcome" where
  "replace_spans_with get_syn txt from [] st = and_then (str_from txt from) (\<lambda>r. Done (r, st))"
| "replace_spans_with get_syn txt from (s # ss) st =
     and_then (str_slice txt from (sp_start s)) (\<lambda>gap.
     and_then (str_slice txt (sp_start s) (sp_end s)) (\<lambda>original.
     and_then (get_syn original (entity_type s) st) (\<lambda>(synthetic, st1).
     and_then (replace_spans_with get_syn txt (sp_end s) ss st1) (\<lambda>(rest, st2).
       Done (gap @ synthetic @ rest, st2)))))"

definition replace_in_text ::
    "re_engine \<Rightarrow> (bytes \<Rightarrow> pii_type \<Rightarrow> 's \<Rightarrow> (bytes \<times> 's) outcome) \<Rightarrow> bytes \<Rightarrow> locale_pack \<Rightarrow> 's
       \<Rightarrow> ((bytes \<times> pii_span list) \<times> 's) outcome" where
  "replace_in_text re_find get_syn txt loc st =
     (let spans = detect re_find txt loc in
      if spans = [] then Done ((txt, []), st)
      else and_then (replace_spans_with get_syn txt 0 spans st) (\<lambda>(res, st'). Done ((res, spans), st')))"

section \<open>Detection is a greedy choice of disjoint matches\<close>

definition all_patterns :: "locale_pack \<Rightarrow> pattern_set list" where
  "all_patterns loc = universal_patterns @ locale_patterns loc"

definition all_matches :: "re_engine \<Rightarrow> bytes \<Rightarrow> locale_pack \<Rightarrow> pii_span list" where
  "all_matches re_find txt loc = concat (map (\<lambda>p. find_all re_find p txt) (all_patterns loc))"

lemma spans_overlap_overlaps:
  "spans_overlap spans s \<longleftrightarrow> list_ex (\<lambda>x. overlaps (span_iv x) (span_iv s)) spans"
  by (simp add: spans_overlap_def overlaps_def span_iv_def)

lemma push_spans_greedy: "push_spans spans ss = greedy span_iv spans ss"
  by (induction spans ss rule: push_spans.induct) (simp_all add: spans_overlap_overlaps)

lemma greedy_append: "greedy iv out (xs @ ys) = greedy iv (greedy iv out xs) ys"
  by (induction iv out xs rule: greedy.induct) simp_all

lemma scan_patterns_greedy:
  "scan_patterns re_find txt ps spans
     = greedy span_iv spans (concat (map (\<lambda>p. find_all re_find p txt) ps))"
  by (induction ps arbitrary: spans) (simp_all add: push_spans_greedy greedy_append)

lemma detect_greedy:
  "detect re_find txt loc = sort_key sp_start (greedy span_iv [] (all_matches re_find txt loc))"
  by (simp add: detect_def Let_def scan_patterns_greedy all_matches_def all_patterns_def greedy_append)

lemma detect_sorted: "sorted (map sp_start (detect re_find txt loc))"
  by (simp add: detect_greedy)

lemma detect_disjoint_on: "disjoint_on span_iv (detect re_find txt loc)"
  unfolding detect_greedy
  by (intro disjoint_on_sort_key greedy_disjoint) (simp add: disjoint_on_def)

lemma detect_candidates: "set (detect re_find txt loc) \<subseteq> set (all_matches re_find txt loc)"
  using greedy_subset [of span_iv "[]"] by (auto simp: detect_greedy)

lemma find_all_iff:
  "s \<in> set (find_all re_find p txt) \<longleftrightarrow>
     (\<exists>m. Some m \<in> set (re_find (ps_re p) txt)
        \<and> (case ps_validate p of None \<Rightarrow> True | Some f \<Rightarrow> f (match_str txt m))
        \<and> s = \<lparr>sp_start = fst m, sp_end = snd m, entity_type = ps_entity_type p,
               confidence = 1, sp_tier = 1\<rparr>)"
  unfolding find_all_def set_map_filter_iff
proof (intro iffI; elim bexE exE conjE)
  fix m assume "Some m \<in> set (re_find (ps_re p) txt)"
    and "case ps_validate p of None \<Rightarrow> True | Some f \<Rightarrow> f (match_str txt m)"
    and "s = \<lparr>sp_start = fst m, sp_end = snd m, entity_type = ps_entity_type p,
               confidence = 1, sp_tier = 1\<rparr>"
  then show "\<exists>r\<in>set (re_find (ps_re p) txt). (case r of None \<Rightarrow> None
         | Some m \<Rightarrow>
             if (case ps_validate p of None \<Rightarrow> True | Some f \<Rightarrow> f (match_str txt m))
             then Some \<lparr>sp_start = fst m, sp_end = snd m, entity_type = ps_entity_type p,
                        confidence = 1, sp_tier = 1\<rparr>
             else None) = Some s"
    by (intro bexI [of _ "Some m"]) auto
qed (auto split: option.splits if_splits)


text \<open>
  An engine for concrete texts: one literal address, recognised by the e-mail pattern and, in part,
  by the Bearer pattern.
\<close>

definition email_re :: bytes where
  "email_re = ps_re (universal_patterns ! 13)"

definition sample_engine :: re_engine where
  "sample_engine re txt =
     (if re = email_re then (case find_sub ''a@b.co'' txt of None \<Rightarrow> [] | Some i \<Rightarrow> [Some (i, i + 6)])
      else [])"

lemma sample_detect:
  "detect sample_engine ''mail a@b.co now'' EnUs =
     [\<lparr>sp_start = 5, sp_end = 11, entity_type = Email, confidence = 1, sp_tier = 1\<rparr>]"
  by code_simp

lemma sample_find: "find_sub ''a@b.co'' ''mail a@b.co now'' = Some 5"
  by code_simp

lemma sample_boundaries:
  "is_char_boundary ''mail a@b.co now'' 5" "is_char_boundary ''mail a@b.co now'' 11"
  by code_simp+

lemma sample_all_patterns: "universal_patterns ! 13 \<in> set (all_patterns EnUs)"
  by (simp add: all_patterns_def universal_patterns_def)


section \<open>Replacement\<close>

text \<open>
  \<open>engine_ok\<close>: on the given text the engine's matches for the patterns of the tables are non-empty
  ranges between character boundaries (none of the patterns matches the empty string, and
  \<open>fancy-regex\<close> reports offsets of a \<open>str\<close>).
\<close>

definition engine_ok :: "re_engine \<Rightarrow> locale_pack \<Rightarrow> bytes \<Rightarrow> bool" where
  "engine_ok re_find loc txt \<longleftrightarrow>
     (\<forall>p\<in>set (all_patterns loc). \<forall>m. Some m \<in> set (re_find (ps_re p) txt) \<longrightarrow>
        fst m < snd m \<and> is_char_boundary txt (fst m) \<and> is_char_boundary txt (snd m))"

text \<open>Spans in order between character boundaries: what the replacement loops need of their input.\<close>

definition spans_fit :: "bytes \<Rightarrow> nat \<Rightarrow> pii_span list \<Rightarrow> bool" where
  "spans_fit txt from ss \<longleftrightarrow>
     is_char_boundary txt from \<and> tiles span_iv from ss
     \<and> (\<forall>s\<in>set ss. is_char_boundary txt (sp_start s) \<and> is_char_boundary txt (sp_end s))"

definition span_text :: "bytes \<Rightarrow> pii_span \<Rightarrow> bytes" where
  "span_text txt s = take (sp_end s - sp_start s) (drop (sp_start s) txt)"

text \<open>The text between the spans, the text after the last one at the end.\<close>

fun gaps_of :: "bytes \<Rightarrow> nat \<Rightarrow> pii_span list \<Rightarrow> bytes list" where
  "gaps_of txt from [] = [drop from txt]"
| "gaps_of txt from (s # ss) = take (sp_start s - from) (drop from txt) # gaps_of txt (sp_end s) ss"

fun interleave :: "bytes list \<Rightarrow> bytes list \<Rightarrow> bytes" where
  "interleave (g # gs) (x # xs) = g @ x @ interleave gs xs"
| "interleave gs xs = concat gs"

lemma spans_fit_Cons:
  "spans_fit txt from (s # ss) \<longleftrightarrow>
     is_char_boundary txt from \<and> from \<le> sp_start s \<and> sp_start s \<le> sp_end s
     \<and> is_char_boundary txt (sp_start s) \<and> spans_fit txt (sp_end s) ss"
  by (auto simp: spans_fit_def span_iv_def)

lemma boundary_le: "is_char_boundary txt n \<Longrightarrow> n \<le> length txt"
  by (auto simp: is_char_boundary_def)

lemma length_gaps_of [simp]: "length (gaps_of txt from ss) = Suc (length ss)"
  by (induction ss arbitrary: "from") simp_all

lemma take_drop_join:
  "a \<le> b \<Longrightarrow> b \<le> c \<Longrightarrow> take (b - a) (drop a xs) @ take (c - b) (drop b xs) = take (c - a) (drop a xs)"
proof -
  assume ab: "a \<le> b" "b \<le> c"
  then have e: "drop b xs = drop (b - a) (drop a xs)" "c - a = (b - a) + (c - b)" by simp_all
  show ?thesis unfolding e by (simp only: take_add)
qed

lemma take_drop_rest: "a \<le> b \<Longrightarrow> take (b - a) (drop a xs) @ drop b xs = drop a xs"
  by (metis append_take_drop_id drop_drop le_add_diff_inverse2)

text \<open>The gaps and the span texts together are the text.\<close>

lemma interleave_gaps_text:
  "spans_fit txt from ss \<Longrightarrow> interleave (gaps_of txt from ss) (map (span_text txt) ss) = drop from txt"
proof (induction ss arbitrary: "from")
  case Nil
  then show ?case by simp
next
  case (Cons s ss)
  then have "spans_fit txt (sp_end s) ss" and le: "from \<le> sp_start s" "sp_start s \<le> sp_end s"
    by (auto simp: spans_fit_Cons)
  with Cons.IH show ?case
    by (simp add: span_text_def take_drop_rest)
qed

text \<open>The callback applied to the span texts from left to right.\<close>

fun synth_all ::
    "(bytes \<Rightarrow> pii_type \<Rightarrow> 's \<Rightarrow> (bytes \<times> 's) outcome) \<Rightarrow> bytes \<Rightarrow> pii_span list \<Rightarrow> 's
       \<Rightarrow> (bytes list \<times> 's) outcome" where
  "synth_all get_syn txt [] st = Done ([], st)"
| "synth_all get_syn txt (s # ss) st =
     and_then (get_syn (span_text txt s) (entity_type s) st) (\<lambda>(x, st1).
     and_then (synth_all get_syn txt ss st1) (\<lambda>(xs, st2). Done (x # xs, st2)))"

lemma replace_spans_with_interleave:
  "spans_fit txt from ss \<Longrightarrow>
     replace_spans_with get_syn txt from ss st =
       and_then (synth_all get_syn txt ss st)
         (\<lambda>(xs, st'). Done (interleave (gaps_of txt from ss) xs, st'))"
proof (induction ss arbitrary: "from" st)
  case Nil
  then show ?case by (simp add: spans_fit_def out_simps)
next
  case (Cons s ss)
  from Cons.prems have f: "is_char_boundary txt from" "from \<le> sp_start s" "sp_start s \<le> sp_end s"
    "is_char_boundary txt (sp_start s)" "spans_fit txt (sp_end s) ss"
    and e: "is_char_boundary txt (sp_end s)"
    by (auto simp: spans_fit_def span_iv_def)
  show ?case
    using f e
    by (simp add: str_slice_ok Cons.IH [OF f(5)] span_text_def and_then_assoc split_def)
qed

lemma detect_nonempty_spans:
  assumes "engine_ok re_find loc txt" and "s \<in> set (detect re_find txt loc)"
  shows "sp_start s < sp_end s \<and> is_char_boundary txt (sp_start s) \<and> is_char_boundary txt (sp_end s)"
proof -
  from assms(2) detect_candidates obtain p where p: "p \<in> set (all_patterns loc)"
    and s: "s \<in> set (find_all re_find p txt)" by (fastforce simp: all_matches_def)
  from s obtain m where "Some m \<in> set (re_find (ps_re p) txt)" "sp_start s = fst m" "sp_end s = snd m"
    by (auto simp: find_all_iff)
  with assms(1) p show ?thesis unfolding engine_ok_def by metis
qed

lemma detect_fits:
  assumes "engine_ok re_find loc txt"
  shows "spans_fit txt 0 (detect re_find txt loc)"
proof -
  have "tiles span_iv 0 (detect re_find txt loc)"
    using detect_nonempty_spans [OF assms] detect_sorted [of re_find "txt" loc] detect_disjoint_on
    by (intro tiles_sorted_disjoint) (auto simp: span_iv_def)
  then show ?thesis using detect_nonempty_spans [OF assms] by (simp add: spans_fit_def)
qed

text \<open>
  Replacement by the regex tier: when the engine reports matches on character boundaries, no
  slice panics, every detected span is handed to the callback once, from left to right, and the
  result is the text with exactly the span texts exchanged for what the callback returned (the
  same gaps with the original span texts give the original text).
\<close>

theorem replace_in_text_interleaves:
  assumes "engine_ok re_find loc txt"
  shows "(let ss = detect re_find txt loc in
     replace_in_text re_find get_syn txt loc st =
       and_then (synth_all get_syn txt ss st)
         (\<lambda>(xs, st'). Done ((interleave (gaps_of txt 0 ss) xs, ss), st'))
     \<and> interleave (gaps_of txt 0 ss) (map (span_text txt) ss) = txt)"
  using interleave_gaps_text [OF detect_fits [OF assms]]
  by (simp add: Let_def replace_in_text_def and_then_assoc split_def
      replace_spans_with_interleave [OF detect_fits [OF assms]])

theorem replace_in_text_interleaves_witness:
  "replace_in_text sample_engine (\<lambda>og ty n. Done (''<e>'', n + (1::nat))) ''mail a@b.co now'' EnUs 0 =
     Done ((''mail <e> now'',
       [\<lparr>sp_start = 5, sp_end = 11, entity_type = Email, confidence = 1, sp_tier = 1\<rparr>]), 1)"
proof -
  have "engine_ok sample_engine EnUs ''mail a@b.co now''"
  proof -
    have "Some m \<in> set (sample_engine re ''mail a@b.co now'') \<Longrightarrow> m = (5, 11)" for re m
      unfolding sample_engine_def sample_find by (cases "re = email_re") simp_all
    then show ?thesis using sample_boundaries by (fastforce simp: engine_ok_def)
  qed
  from replace_in_text_interleaves [OF this, of "\<lambda>og ty n. Done (''<e>'', n + (1::nat))" 0]
  show ?thesis by (simp add: sample_detect Let_def)
qed

text \<open>
  The name a locale is configured by is read back as that locale.
\<close>

theorem locale_roundtrip: "locale_from_str_opt (locale_as_str l) = Some l"
  by (cases l; simp only: locale_as_str.simps; code_simp)

section \<open>The Luhn validator catches a wrong digit\<close>

definition luhn_term :: "bool \<Rightarrow> nat \<Rightarrow> nat" where
  "luhn_term dbl d = (if dbl then (if 9 < d * 2 then d * 2 - 9 else d * 2) else d)"

lemma luhn_loop_acc: "luhn_loop ds dbl s = s + luhn_loop ds dbl 0"
proof (induction ds arbitrary: dbl s)
  case (Cons d ds)
  show ?case
    using Cons.IH [of "\<not> dbl" "s + luhn_term dbl d"] Cons.IH [of "\<not> dbl" "luhn_term dbl d"]
    by (simp add: Let_def luhn_term_def)
qed simp

lemma luhn_loop_Cons: "luhn_loop (d # ds) dbl 0 = luhn_term dbl d + luhn_loop ds (\<not> dbl) 0"
  using luhn_loop_acc [of ds "\<not> dbl" "luhn_term dbl d"] by (simp add: luhn_term_def Let_def)

lemma luhn_loop_middle:
  "\<exists>k b. \<forall>x. luhn_loop (as @ x # cs) dbl 0 = k + luhn_term b x"
proof (induction as arbitrary: dbl)
  case Nil
  show ?case
    by (auto simp: luhn_loop_Cons simp del: luhn_loop.simps
        intro!: exI [of _ "luhn_loop cs (\<not> dbl) 0"] exI [of _ dbl])
next
  case (Cons a as)
  obtain k b where "\<forall>x. luhn_loop (as @ x # cs) (\<not> dbl) 0 = k + luhn_term b x"
    using Cons.IH [of "\<not> dbl"] by blast
  then show ?case
    by (auto simp: luhn_loop_Cons simp del: luhn_loop.simps
        intro!: exI [of _ "luhn_term dbl a + k"] exI [of _ b])
qed

lemma luhn_term_inj:
  assumes "x < 10" and "y < 10" and "luhn_term b x mod 10 = luhn_term b y mod 10"
  shows "x = y"
proof -
  have "x \<in> {0, 1, 2, 3, 4, 5, 6, 7, 8, 9}" "y \<in> {0, 1, 2, 3, 4, 5, 6, 7, 8, 9}"
    using assms(1,2) by auto
  then show ?thesis using assms(3) by (cases b) (auto simp: luhn_term_def)
qed

lemma add_mod_cancel:
  assumes "(k + a) mod (n::nat) = 0" and "(k + b) mod n = 0"
  shows "a mod n = b mod n"
proof -
  have "(int k + int a) mod int n = (int k + int b) mod int n"
    using assms by (metis of_nat_add zmod_int)
  then have "int a mod int n = int b mod int n"
    by (simp add: mod_eq_dvd_iff)
  then show ?thesis by (metis of_nat_eq_iff zmod_int)
qed

text \<open>
  The Luhn check catches every single wrong digit: of two card numbers that differ in one
  digit at most one is valid.
\<close>

theorem luhn_single_digit:
  assumes "luhn_valid (p @ c # q)" and "luhn_valid (p @ d # q)"
    and "is_ascii_digit c" and "is_ascii_digit d"
  shows "c = d"
proof -
  let ?x = "byte c - 48" and ?y = "byte d - 48"
  have dig: "digits_of (p @ c # q) = digits_of p @ ?x # digits_of q"
    "digits_of (p @ d # q) = digits_of p @ ?y # digits_of q"
    using assms(3,4) by (simp_all add: digits_of_def)
  obtain k b where kb: "\<And>x. luhn_loop (rev (digits_of q) @ x # rev (digits_of p)) False 0
      = k + luhn_term b x"
    using luhn_loop_middle by blast
  have "(k + luhn_term b ?x) mod 10 = 0" "(k + luhn_term b ?y) mod 10 = 0"
    using assms(1,2) kb by (simp_all add: luhn_valid_def dig Let_def split: if_splits)
  then have "luhn_term b ?x mod 10 = luhn_term b ?y mod 10" by (rule add_mod_cancel)
  moreover have "?x < 10" "?y < 10" using assms(3,4) by (auto simp: is_ascii_digit_def)
  ultimately have "?x = ?y" by (metis luhn_term_inj)
  then have "byte c = byte d" using assms(3,4) unfolding is_ascii_digit_def by linarith
  then show ?thesis by (simp add: byte_inj)
qed

theorem luhn_single_digit_witness:
  "luhn_valid ''4111 1111 1111 1111'' \<and> \<not> luhn_valid ''4111 1111 1111 1121''"
proof -
  have "luhn_valid (''4111 1111 1111 11'' @ CHR ''1'' # ''1'')" by code_simp
  moreover have "is_ascii_digit (CHR ''1'')" "is_ascii_digit (CHR ''2'')" by code_simp+
  ultimately show ?thesis
    using luhn_single_digit [of "''4111 1111 1111 11''" "CHR ''1''" "''1''" "CHR ''2''"] by auto
qed

end
