(* ===== verification/Synth.thy ===== *)
theory Synth
  imports Tier1
begin

text \<open>
  The synthetic value generator of \<open>src/src/pii/synth.rs\<close>.

  The random number generator (crate \<open>rand\<close>, \<open>SmallRng\<close>) is a parameter: a record of its operations
  on an abstract state. The locale \<open>rng\<close> states what \<open>gen_range\<close> documents, that the value lies in
  the range asked for. The date arithmetic of \<open>chrono\<close> used by \<open>gen_dob\<close> is a parameter too: the text
  of a date and a number of days give nothing where the text is not a date, and otherwise the
  shifted date as text, or the panic of an overflow.

  A generator is a state transformer that may panic; \<open>gbind\<close> sequences the draws in the order the
  code evaluates them. \<open>gen_post\<close> says that a generator returns and what its value satisfies.
\<close>

section \<open>Generators\<close>

datatype int_ty = U8 | U16 | U32 | I64 | Usize

record 'r rng_ops =
  seed_from_u64 :: "64 word \<Rightarrow> 'r"
  gen_range :: "int_ty \<Rightarrow> nat \<Rightarrow> nat \<Rightarrow> 'r \<Rightarrow> nat \<times> 'r"
  gen_range_incl :: "int_ty \<Rightarrow> nat \<Rightarrow> nat \<Rightarrow> 'r \<Rightarrow> nat \<times> 'r"
  gen_bool_half :: "'r \<Rightarrow> bool \<times> 'r"

type_synonym ('a, 'r) gen = "'r \<Rightarrow> ('a \<times> 'r) outcome"
type_synonym date_shift = "bytes \<Rightarrow> nat \<Rightarrow> bytes outcome option"

definition gret :: "'a \<Rightarrow> ('a, 'r) gen" where
  "gret x r = Done (x, r)"

definition gbind :: "('a, 'r) gen \<Rightarrow> ('a \<Rightarrow> ('b, 'r) gen) \<Rightarrow> ('b, 'r) gen" where
  "gbind m f r = and_then (m r) (\<lambda>(x, r'). f x r')"

definition glift :: "'a outcome \<Rightarrow> ('a, 'r) gen" where
  "glift m r = and_then m (\<lambda>x. Done (x, r))"

definition gdraw :: "('r \<Rightarrow> 'a \<times> 'r) \<Rightarrow> ('a, 'r) gen" where
  "gdraw f r = Done (f r)"

text \<open>\<open>(0..n).map(|_| g).collect()\<close>.\<close>

fun grepeat :: "nat \<Rightarrow> ('a, 'r) gen \<Rightarrow> ('a list, 'r) gen" where
  "grepeat 0 g = gret []"
| "grepeat (Suc n) g = gbind g (\<lambda>x. gbind (grepeat n g) (\<lambda>xs. gret (x # xs)))"

section \<open>Word lists\<close>

definition FIRST_NAMES :: "bytes list" where
  "FIRST_NAMES =
     [''Alice'', ''Bob'', ''Carol'', ''David'', ''Eve'', ''Frank'', ''Grace'', ''Henry'',
      ''Iris'', ''Jack'', ''Karen'', ''Liam'', ''Mia'', ''Noah'', ''Olivia'', ''Paul'',
      ''Quinn'', ''Rachel'', ''Sam'', ''Tara'', ''Uma'', ''Victor'', ''Wendy'', ''Xander'',
      ''Yara'', ''Zoe'']"

definition LAST_NAMES :: "bytes list" where
  "LAST_NAMES =
     [''Brown'', ''Chen'', ''Davis'', ''Evans'', ''Foster'', ''Garcia'', ''Harris'', ''Ibarra'',
      ''Johnson'', ''Kim'', ''Lee'', ''Martin'', ''Nguyen'', ''O'' @ [SQUOTE] @ ''Brien'', ''Patel'',
      ''Quinn'', ''Roberts'', ''Smith'', ''Taylor'', ''Ueda'', ''Vargas'', ''Walker'', ''Xu'',
      ''Young'', ''Zhang'']"

definition ORG_NAMES :: "bytes list" where
  "ORG_NAMES =
     [''Acme Corp'', ''Initech'', ''Globex Corporation'', ''Umbrella Corp'',
      ''Soylent Corp'', ''Vandelay Industries'', ''Bluth Company'', ''Dunder Mifflin'',
      ''Hooli'', ''Pied Piper'', ''Sterling Cooper'', ''Wonka Industries'']"

definition STREET_NAMES :: "bytes list" where
  "STREET_NAMES =
     [''Main'', ''Oak'', ''Maple'', ''Cedar'', ''Pine'', ''Elm'', ''Walnut'', ''Birch'',
      ''Washington'', ''Lincoln'', ''Jefferson'', ''Madison'', ''Monroe'', ''Adams'']"

definition STREET_SUFFIXES :: "bytes list" where
  "STREET_SUFFIXES =
     [''St'', ''Ave'', ''Blvd'', ''Dr'', ''Ln'', ''Rd'', ''Way'', ''Ct'', ''Pl'', ''Ter'']"

section \<open>Check digits\<close>

definition to_digit10_or_0 :: "char \<Rightarrow> nat" where
  "to_digit10_or_0 c = (case digit_val 10 c of None \<Rightarrow> 0 | Some d \<Rightarrow> d)"

definition luhn_check_digit :: "bytes \<Rightarrow> nat" where
  "luhn_check_digit digits =
     (10 - luhn_loop (rev (map to_digit10_or_0 digits)) True 0 mod 10) mod 10"

definition cpf_check_digit :: "nat list \<Rightarrow> nat \<Rightarrow> nat" where
  "cpf_check_digit digits multiplier_start =
     (let rem = weighted_sum multiplier_start digits mod 11 in if rem < 2 then 0 else 11 - rem)"

section \<open>One generator per type\<close>

definition pick :: "'r rng_ops \<Rightarrow> 'a list \<Rightarrow> ('a, 'r) gen" where
  "pick R xs = gbind (gdraw (gen_range R Usize 0 (length xs))) (\<lambda>i. glift (index xs i))"

definition gen_email :: "'r rng_ops \<Rightarrow> (bytes, 'r) gen" where
  "gen_email R =
     gbind (pick R FIRST_NAMES) (\<lambda>first.
     gbind (pick R LAST_NAMES) (\<lambda>last_name.
     gbind (gdraw (gen_bool_half R)) (\<lambda>b.
       gret (to_lowercase first @ (if b then ''.'' else []) @ to_lowercase last_name
             @ ''@example.com''))))"

definition phone_prefix :: "bytes \<Rightarrow> bytes outcome" where
  "phone_prefix original =
     (case strip_prefix ''+'' original of
        Some after_plus \<Rightarrow>
          (let i = length (takeWhile is_ascii_digit after_plus);
               code_end = (if i < length after_plus then i + 1 else 3)
           in and_then (str_slice after_plus 0 (min code_end 3)) (\<lambda>p. Done (''+'' @ p @ '' '')))
      | None \<Rightarrow> Done [])"

definition gen_phone :: "'r rng_ops \<Rightarrow> bytes \<Rightarrow> (bytes, 'r) gen" where
  "gen_phone R original =
     gbind (glift (phone_prefix original)) (\<lambda>pre.
     gbind (gdraw (gen_range R U32 0 10000)) (\<lambda>a.
     gbind (gdraw (gen_range R U32 0 10000)) (\<lambda>b.
       gret (pre @ ''555-'' @ zero_pad 4 (show_nat a) @ ''-'' @ zero_pad 4 (show_nat b)))))"

definition gen_ssn :: "'r rng_ops \<Rightarrow> (bytes, 'r) gen" where
  "gen_ssn R =
     gbind (gdraw (gen_range_incl R U32 100 665)) (\<lambda>area.
     gbind (gdraw (gen_range_incl R U32 1 99)) (\<lambda>group.
     gbind (gdraw (gen_range_incl R U32 1 9999)) (\<lambda>serial.
       gret (zero_pad 3 (show_nat area) @ ''-'' @ zero_pad 2 (show_nat group) @ ''-''
             @ zero_pad 4 (show_nat serial)))))"

definition gen_credit_card :: "'r rng_ops \<Rightarrow> bytes \<Rightarrow> (bytes, 'r) gen" where
  "gen_credit_card R original =
     (let first = (case List.find is_ascii_digit original of Some c \<Rightarrow> c | None \<Rightarrow> CHR ''4'') in
      gbind (grepeat 14 (gdraw (gen_range R U32 0 10))) (\<lambda>ds.
      let digits = first # map digit_char ds in
        gret (digits @ show_nat (luhn_check_digit digits))))"

definition gen_ipv4 :: "'r rng_ops \<Rightarrow> (bytes, 'r) gen" where
  "gen_ipv4 R =
     gbind (gdraw (gen_range_incl R U8 0 255)) (\<lambda>second.
     gbind (gdraw (gen_range_incl R U8 0 255)) (\<lambda>third.
     gbind (gdraw (gen_range_incl R U8 1 254)) (\<lambda>fourth.
       gret (''10.'' @ show_nat second @ ''.'' @ show_nat third @ ''.'' @ show_nat fourth))))"

definition gen_ipv6 :: "'r rng_ops \<Rightarrow> (bytes, 'r) gen" where
  "gen_ipv6 R =
     gbind (gdraw (gen_range_incl R U16 0 0xffff)) (\<lambda>g1.
     gbind (gdraw (gen_range_incl R U16 0 0xffff)) (\<lambda>g2.
       gret (''fd'' @ zero_pad 4 (show_hex_lower g1) @ '':'' @ zero_pad 4 (show_hex_lower g2)
             @ ''::1'')))"

definition ALNUM_CHARS :: bytes where
  "ALNUM_CHARS = ''ABCDEFGHIJKLMNOPQRSTUVWXYZabcdefghijklmnopqrstuvwxyz0123456789''"

definition UPPER_CHARS :: bytes where
  "UPPER_CHARS = ''ABCDEFGHIJKLMNOPQRSTUVWXYZ0123456789''"

definition gen_random_alphanumeric :: "'r rng_ops \<Rightarrow> nat \<Rightarrow> (bytes, 'r) gen" where
  "gen_random_alphanumeric R n = grepeat n (pick R ALNUM_CHARS)"

definition gen_random_uppercase :: "'r rng_ops \<Rightarrow> nat \<Rightarrow> (bytes, 'r) gen" where
  "gen_random_uppercase R n = grepeat n (pick R UPPER_CHARS)"

definition gen_api_key :: "'r rng_ops \<Rightarrow> bytes \<Rightarrow> nat \<Rightarrow> (bytes, 'r) gen" where
  "gen_api_key R pre original_len =
     gbind (gen_random_alphanumeric R (max (original_len - length pre) 32)) (\<lambda>suffix.
       gret (pre @ suffix))"

definition gen_aws_access_key :: "'r rng_ops \<Rightarrow> (bytes, 'r) gen" where
  "gen_aws_access_key R =
     gbind (gen_random_uppercase R 12) (\<lambda>suffix. gret (''AKIAIOSFODNN7'' @ suffix))"

definition scheme_end :: "bytes \<Rightarrow> nat" where
  "scheme_end original = (case find_sub ''://'' original of Some i \<Rightarrow> i + 3 | None \<Rightarrow> 0)"

definition gen_db_connection :: "bytes \<Rightarrow> (bytes, 'r) gen" where
  "gen_db_connection original =
     gbind (glift (str_slice original 0 (scheme_end original))) (\<lambda>scheme.
       gret (scheme @ ''synthetic:synthetic@localhost/db''))"

definition gen_url_with_creds :: "bytes \<Rightarrow> (bytes, 'r) gen" where
  "gen_url_with_creds original =
     (let se = scheme_end original in
      gbind (glift (str_slice original 0 se)) (\<lambda>scheme.
      gbind (glift (str_from original se)) (\<lambda>after.
      let host_start = (case find_sub ''@'' after of Some i \<Rightarrow> se + i + 1 | None \<Rightarrow> se) in
      gbind (glift (str_from original host_start)) (\<lambda>host.
        gret (scheme @ ''user:password@'' @ host)))))"

definition gen_person_name :: "'r rng_ops \<Rightarrow> (bytes, 'r) gen" where
  "gen_person_name R =
     gbind (pick R FIRST_NAMES) (\<lambda>first.
     gbind (pick R LAST_NAMES) (\<lambda>last_name. gret (first @ '' '' @ last_name)))"

definition gen_org_name :: "'r rng_ops \<Rightarrow> (bytes, 'r) gen" where
  "gen_org_name R = pick R ORG_NAMES"

definition gen_address :: "'r rng_ops \<Rightarrow> (bytes, 'r) gen" where
  "gen_address R =
     gbind (gdraw (gen_range_incl R U32 1 9999)) (\<lambda>num.
     gbind (pick R STREET_NAMES) (\<lambda>street.
     gbind (pick R STREET_SUFFIXES) (\<lambda>suffix.
       gret (show_nat num @ '' '' @ street @ '' '' @ suffix))))"

definition gen_dob :: "'r rng_ops \<Rightarrow> date_shift \<Rightarrow> bytes \<Rightarrow> (bytes, 'r) gen" where
  "gen_dob R shift original =
     gbind (gdraw (gen_range_incl R I64 7 97)) (\<lambda>offset_days.
     case shift original offset_days of
       Some shifted \<Rightarrow> glift shifted
     | None \<Rightarrow>
         gbind (gdraw (gen_range_incl R U32 1950 2005)) (\<lambda>y.
         gbind (gdraw (gen_range_incl R U32 1 12)) (\<lambda>m.
         gbind (gdraw (gen_range_incl R U32 1 28)) (\<lambda>d.
           gret (show_nat y @ ''-'' @ zero_pad 2 (show_nat m) @ ''-'' @ zero_pad 2 (show_nat d))))))"

definition gen_aadhaar :: "'r rng_ops \<Rightarrow> (bytes, 'r) gen" where
  "gen_aadhaar R =
     gbind (gdraw (gen_range_incl R U32 2000 9999)) (\<lambda>a.
     gbind (gdraw (gen_range_incl R U32 0 9999)) (\<lambda>b.
     gbind (gdraw (gen_range_incl R U32 0 9999)) (\<lambda>c.
       gret (show_nat a @ '' '' @ zero_pad 4 (show_nat b) @ '' '' @ zero_pad 4 (show_nat c)))))"

definition format_cpf :: "nat list \<Rightarrow> bytes" where
  "format_cpf d =
     concat (map show_nat (take 3 d)) @ ''.'' @ concat (map show_nat (take 3 (drop 3 d))) @ ''.''
     @ concat (map show_nat (take 3 (drop 6 d))) @ ''-''
     @ show_nat (cpf_check_digit d 10) @ show_nat (cpf_check_digit d 11)"

definition gen_cpf :: "'r rng_ops \<Rightarrow> (bytes, 'r) gen" where
  "gen_cpf R = gbind (grepeat 9 (gdraw (gen_range_incl R U8 0 9))) (\<lambda>d. gret (format_cpf d))"

fun generate :: "'r rng_ops \<Rightarrow> date_shift \<Rightarrow> pii_type \<Rightarrow> bytes \<Rightarrow> (bytes, 'r) gen" where
  "generate R shift Email original = gen_email R"
| "generate R shift Phone original = gen_phone R original"
| "generate R shift Ssn original = gen_ssn R"
| "generate R shift CreditCard original = gen_credit_card R original"
| "generate R shift IpV4 original = gen_ipv4 R"
| "generate R shift IpV6 original = gen_ipv6 R"
| "generate R shift OpenAiApiKey original = gen_api_key R ''sk-'' (length original)"
| "generate R shift AwsAccessKey original = gen_aws_access_key R"
| "generate R shift AwsSecretKey original = gen_random_alphanumeric R 40"
| "generate R shift GitHubPat original = gen_api_key R ''ghp_'' (length original)"
| "generate R shift BearerToken original = gen_random_alphanumeric R (max (length original) 32)"
| "generate R shift SshPrivateKey original = gret ''[REDACTED_PRIVATE_KEY]''"
| "generate R shift DbConnectionString original = gen_db_connection original"
| "generate R shift UrlWithCreds original = gen_url_with_creds original"
| "generate R shift PersonName original = gen_person_name R"
| "generate R shift OrgName original = gen_org_name R"
| "generate R shift Address original = gen_address R"
| "generate R shift DateOfBirth original = gen_dob R shift original"
| "generate R shift AadhaarNumber original = gen_aadhaar R"
| "generate R shift CpfNumber original = gen_cpf R"
| "generate R shift ty original = gen_random_alphanumeric R (max (length original) 8)"

text \<open>
  \<open>get_or_create\<close>: a fresh generator per new original, seeded by the vault's seed plus the number of
  mappings with wrap-around at 64 bits.
\<close>

definition get_or_create ::
    "'r rng_ops \<Rightarrow> date_shift \<Rightarrow> ac_builder \<Rightarrow> bytes \<Rightarrow> pii_type \<Rightarrow> nat \<Rightarrow> f32 \<Rightarrow> pii_vault
       \<Rightarrow> (bytes \<times> pii_vault) outcome" where
  "get_or_create R shift build original ty tier conf v =
     (case get_synthetic v original of
        Some existing \<Rightarrow> Done (existing, v)
      | None \<Rightarrow>
          (let call_offset = word_of_nat (mapping_count v) in
           and_then (generate R shift ty original (seed_from_u64 R (rng_seed v + call_offset)))
             (\<lambda>(synthetic, _). Done (synthetic, add_mapping build original synthetic ty tier conf v))))"

section \<open>The random number generator's contract\<close>

locale rng =
  fixes R :: "'r rng_ops"
  assumes gen_range_bounds: "lo < hi \<Longrightarrow> lo \<le> fst (gen_range R ty lo hi r) \<and> fst (gen_range R ty lo hi r) < hi"
    and gen_range_incl_bounds:
      "lo \<le> hi \<Longrightarrow> lo \<le> fst (gen_range_incl R ty lo hi r) \<and> fst (gen_range_incl R ty lo hi r) \<le> hi"

definition gen_post :: "('a, 'r) gen \<Rightarrow> ('a \<Rightarrow> bool) \<Rightarrow> bool" where
  "gen_post m Q \<longleftrightarrow> (\<forall>r. \<exists>x r'. m r = Done (x, r') \<and> Q x)"

lemma gen_post_gret: "Q x \<Longrightarrow> gen_post (gret x) Q"
  by (simp add: gen_post_def gret_def)

lemma gen_post_gbind:
  assumes "gen_post m P" and "\<And>x. P x \<Longrightarrow> gen_post (f x) Q"
  shows "gen_post (gbind m f) Q"
  unfolding gen_post_def
proof
  fix r
  from assms(1) obtain x r1 where x: "m r = Done (x, r1)" "P x" unfolding gen_post_def by blast
  with assms(2) [OF x(2)] obtain y r2 where "f x r1 = Done (y, r2)" "Q y"
    unfolding gen_post_def by blast
  with x show "\<exists>y r'. gbind m f r = Done (y, r') \<and> Q y" by (simp add: gbind_def)
qed

lemma gen_post_glift: "m = Done x \<Longrightarrow> Q x \<Longrightarrow> gen_post (glift m) Q"
  by (simp add: gen_post_def glift_def)

lemma gen_post_gdraw: "(\<And>r. Q (fst (f r))) \<Longrightarrow> gen_post (gdraw f) Q"
  by (metis gdraw_def gen_post_def prod.collapse)

lemma gen_post_mono: "gen_post m P \<Longrightarrow> (\<And>x. P x \<Longrightarrow> Q x) \<Longrightarrow> gen_post m Q"
  unfolding gen_post_def by blast

lemma gen_post_grepeat:
  assumes "gen_post g P"
  shows "gen_post (grepeat n g) (\<lambda>xs. length xs = n \<and> list_all P xs)"
proof (induction n)
  case 0
  show ?case by (simp add: gen_post_gret)
next
  case (Suc n)
  show ?case
    unfolding grepeat.simps
    by (rule gen_post_gbind [OF assms], rule gen_post_gbind [OF Suc.IH], rule gen_post_gret) simp
qed

context rng
begin

lemma post_gen_range:
  "lo < hi \<Longrightarrow> gen_post (gdraw (gen_range R ty lo hi)) (\<lambda>n. lo \<le> n \<and> n < hi)"
  by (rule gen_post_gdraw) (rule gen_range_bounds)

lemma post_gen_range_incl:
  "lo \<le> hi \<Longrightarrow> gen_post (gdraw (gen_range_incl R ty lo hi)) (\<lambda>n. lo \<le> n \<and> n \<le> hi)"
  by (rule gen_post_gdraw) (rule gen_range_incl_bounds)

lemma post_any: "gen_post (gdraw f) (\<lambda>_. True)"
  by (rule gen_post_gdraw) simp

lemma post_pick: "xs \<noteq> [] \<Longrightarrow> gen_post (pick R xs) (\<lambda>x. x \<in> set xs)"
  unfolding pick_def
  by (rule gen_post_gbind [OF post_gen_range]) (auto intro: gen_post_glift simp: index_ok)

end

text \<open>A linear congruential generator meets the contract.\<close>

definition lcg_next :: "nat \<Rightarrow> nat" where
  "lcg_next s = (s * 1103515245 + 12345) mod 2147483648"

definition lcg_rng :: "nat rng_ops" where
  "lcg_rng = \<lparr>seed_from_u64 = (\<lambda>w. unat w mod 2147483648),
     gen_range = (\<lambda>ty lo hi s. (lo + s div 65536 mod (hi - lo), lcg_next s)),
     gen_range_incl = (\<lambda>ty lo hi s. (lo + s div 65536 mod (Suc hi - lo), lcg_next s)),
     gen_bool_half = (\<lambda>s. (even (s div 65536), lcg_next s))\<rparr>"

interpretation lcg: rng lcg_rng
proof unfold_locales
  fix lo hi r :: nat and ty :: int_ty
  have m: "lo + r div 65536 mod (k - lo) < k" if "lo < k" for k
    using that mod_less_divisor [of "k - lo" "r div 65536"] by linarith
  show "lo \<le> fst (gen_range lcg_rng ty lo hi r) \<and> fst (gen_range lcg_rng ty lo hi r) < hi" if "lo < hi"
    using m [OF that] by (simp add: lcg_rng_def)
  show "lo \<le> fst (gen_range_incl lcg_rng ty lo hi r) \<and> fst (gen_range_incl lcg_rng ty lo hi r) \<le> hi"
    if "lo \<le> hi"
    using m [of "Suc hi"] that by (simp add: lcg_rng_def)
qed

section \<open>Cards\<close>

lemma digit_char_ascii_digit: "d < 10 \<Longrightarrow> is_ascii_digit (digit_char d) \<and> byte (digit_char d) = 48 + d"
  by (simp add: is_ascii_digit_def digit_char_def byte_def)

lemma to_digit_ascii: "is_ascii_digit c \<Longrightarrow> to_digit10_or_0 c = byte c - 48"
  by (auto simp: to_digit10_or_0_def digit_val_def is_ascii_digit_def Let_def split: option.splits)

lemma show_nat_digit: "d < 10 \<Longrightarrow> show_nat d = [digit_char d]"
  by (simp add: show_nat_def show_radix.simps)

lemma digits_of_all: "list_all is_ascii_digit s \<Longrightarrow> digits_of s = map to_digit10_or_0 s"
  by (induction s) (simp_all add: digits_of_def to_digit_ascii)

lemma luhn_check_digit_lt: "luhn_check_digit s < 10"
  by (simp add: luhn_check_digit_def)

lemma luhn_check_digit_valid:
  assumes "list_all is_ascii_digit s" and "12 \<le> length s" and "length s \<le> 18"
  shows "luhn_valid (s @ show_nat (luhn_check_digit s))"
proof -
  let ?c = "luhn_check_digit s" and ?S = "luhn_loop (rev (map to_digit10_or_0 s)) True 0"
  have c: "?c < 10" by (rule luhn_check_digit_lt)
  have d: "digits_of (s @ show_nat ?c) = map to_digit10_or_0 s @ [?c]"
    using digits_of_all [OF assms(1)] digit_char_ascii_digit [OF c]
    by (simp add: show_nat_digit [OF c] digits_of_def)
  have "luhn_loop (?c # rev (map to_digit10_or_0 s)) False 0 = ?c + ?S"
    using luhn_loop_Cons [of ?c _ False] by (simp add: luhn_term_def)
  also have "(?c + ?S) mod 10 = 0"
  proof -
    have "(?c + ?S) mod 10 = ((10 - ?S mod 10) + ?S mod 10) mod 10"
      unfolding luhn_check_digit_def by (simp only: mod_add_left_eq mod_add_right_eq)
    also have "(10 - ?S mod 10) + ?S mod 10 = 10"
      using mod_less_divisor [of 10 ?S] by (intro le_add_diff_inverse2) simp
    finally show ?thesis by simp
  qed
  finally show ?thesis using assms(2,3) by (simp add: luhn_valid_def d Let_def rev_map)
qed

definition card_first :: "bytes \<Rightarrow> char" where
  "card_first original = (case List.find is_ascii_digit original of Some c \<Rightarrow> c | None \<Rightarrow> CHR ''4'')"

lemma card_first_digit: "is_ascii_digit (card_first original)"
  by (auto simp: card_first_def is_ascii_digit_def byte_def find_Some_iff split: option.splits)

context rng
begin

lemma card_post:
  "gen_post (gen_credit_card R original)
     (\<lambda>x. length x = 16 \<and> hd x = card_first original \<and> list_all is_ascii_digit x \<and> luhn_valid x)"
  unfolding gen_credit_card_def card_first_def [symmetric] Let_def
proof (rule gen_post_gbind [OF gen_post_grepeat [OF post_gen_range]])
  fix ds :: "nat list" assume ds: "length ds = 14 \<and> list_all (\<lambda>n. 0 \<le> n \<and> n < 10) ds"
  let ?s = "card_first original # map digit_char ds"
  have s: "list_all is_ascii_digit ?s"
    using ds digit_char_ascii_digit by (auto simp: card_first_digit list_all_iff)
  moreover have "length ?s = 15" using ds by simp
  moreover have "luhn_valid (?s @ show_nat (luhn_check_digit ?s))"
    using s ds by (intro luhn_check_digit_valid) auto
  moreover have "show_nat (luhn_check_digit ?s) = [digit_char (luhn_check_digit ?s)]"
    "is_ascii_digit (digit_char (luhn_check_digit ?s))"
    using show_nat_digit digit_char_ascii_digit luhn_check_digit_lt by blast+
  ultimately show "gen_post (gret (?s @ show_nat (luhn_check_digit ?s)))
     (\<lambda>x. length x = 16 \<and> hd x = card_first original \<and> list_all is_ascii_digit x \<and> luhn_valid x)"
    by (intro gen_post_gret) simp
qed simp

end

text \<open>
  A synthetic card number is always produced, has sixteen digits, begins with the first digit
  of the original (4 where it has none) and passes the Luhn check that the detector applies.
\<close>

theorem gen_credit_card_luhn:
  assumes "rng R"
  shows "\<exists>x r'. gen_credit_card R original r = Done (x, r') \<and> length x = 16
     \<and> hd x = card_first original \<and> list_all is_ascii_digit x \<and> luhn_valid x"
  using rng.card_post [OF assms, of original] unfolding gen_post_def by blast

theorem gen_credit_card_luhn_witness:
  "\<exists>x r'. gen_credit_card lcg_rng ''5500 0000'' 7 = Done (x, r') \<and> luhn_valid x \<and> hd x = CHR ''5''"
proof -
  have "card_first ''5500 0000'' = CHR ''5''" by code_simp
  then show ?thesis using gen_credit_card_luhn [OF lcg.rng_axioms, of "''5500 0000''" 7] by auto
qed

section \<open>Every generator returns a non-empty string\<close>

definition text_ok :: "bytes \<Rightarrow> bool" where
  "text_ok x \<longleftrightarrow> x \<noteq> [] \<and> utf8_valid x"

lemma ascii_zero_pad [simp]: "ascii (zero_pad n s) \<longleftrightarrow> ascii s"
  by (auto simp: zero_pad_def ascii_iff byte_def)

lemma ascii_concat_show: "ascii (concat (map show_nat ds))"
  by (induction ds) simp_all

lemma digit_char_lower_ascii: "d < 36 \<Longrightarrow> byte (digit_char_lower d) < 128"
  by (auto simp: digit_char_lower_def byte_char_of)

lemma ascii_show_hex_lower [simp]: "ascii (show_hex_lower n)"
  unfolding show_hex_lower_def
proof (induction n rule: less_induct)
  case (less n)
  show ?case
  proof (cases "n < 16")
    case True
    then show ?thesis by (subst show_radix.simps) (simp add: digit_char_lower_ascii)
  next
    case False
    moreover have "ascii (show_radix digit_char_lower 16 (n div 16))"
      using False by (intro less) simp
    moreover have "n mod 16 < 36" using mod_less_divisor [of 16 n] by linarith
    ultimately show ?thesis
      by (subst show_radix.simps) (simp add: digit_char_lower_ascii)
  qed
qed

lemma ascii_lower_ascii: "byte c < 128 \<Longrightarrow> byte (ascii_lower c) < 128"
  by (auto simp: ascii_lower_def byte_char_of)

lemma ascii_to_lowercase: "ascii s \<Longrightarrow> ascii (to_lowercase s)"
  by (auto simp: to_lowercase_ascii ascii_iff ascii_lower_ascii)

lemma ascii_lists:
  "x \<in> set FIRST_NAMES \<Longrightarrow> ascii x" "x \<in> set LAST_NAMES \<Longrightarrow> ascii x" "x \<in> set ORG_NAMES \<Longrightarrow> ascii x \<and> x \<noteq> []"
  "x \<in> set STREET_NAMES \<Longrightarrow> ascii x" "x \<in> set STREET_SUFFIXES \<Longrightarrow> ascii x"
proof -
  have "list_all ascii FIRST_NAMES" "list_all ascii LAST_NAMES"
    "list_all (\<lambda>x. ascii x \<and> x \<noteq> []) ORG_NAMES" "list_all ascii STREET_NAMES" "list_all ascii STREET_SUFFIXES"
    by code_simp+
  then show "x \<in> set FIRST_NAMES \<Longrightarrow> ascii x" "x \<in> set LAST_NAMES \<Longrightarrow> ascii x"
    "x \<in> set ORG_NAMES \<Longrightarrow> ascii x \<and> x \<noteq> []"
    "x \<in> set STREET_NAMES \<Longrightarrow> ascii x" "x \<in> set STREET_SUFFIXES \<Longrightarrow> ascii x"
    by (auto simp: list_all_iff)
qed

lemma ascii_chars: "c \<in> set ALNUM_CHARS \<Longrightarrow> byte c < 128" "c \<in> set UPPER_CHARS \<Longrightarrow> byte c < 128"
proof -
  have "list_all (\<lambda>c. byte c < 128) ALNUM_CHARS" "list_all (\<lambda>c. byte c < 128) UPPER_CHARS"
    by code_simp+
  then show "c \<in> set ALNUM_CHARS \<Longrightarrow> byte c < 128" "c \<in> set UPPER_CHARS \<Longrightarrow> byte c < 128"
    by (auto simp: list_all_iff)
qed

lemma text_okI: "ascii x \<Longrightarrow> x \<noteq> [] \<Longrightarrow> text_ok x"
  by (simp add: text_ok_def ascii_utf8)

lemma nonempty_lists:
  "FIRST_NAMES \<noteq> []" "LAST_NAMES \<noteq> []" "ORG_NAMES \<noteq> []" "STREET_NAMES \<noteq> []" "STREET_SUFFIXES \<noteq> []"
  "ALNUM_CHARS \<noteq> []" "UPPER_CHARS \<noteq> []"
  by (simp_all add: FIRST_NAMES_def LAST_NAMES_def ORG_NAMES_def STREET_NAMES_def
      STREET_SUFFIXES_def ALNUM_CHARS_def UPPER_CHARS_def)

lemma scheme_end_boundary:
  assumes "utf8_valid og"
  shows "is_char_boundary og (scheme_end og)"
proof (cases "find_sub ''://'' og")
  case None
  then show ?thesis by (simp add: scheme_end_def)
next
  case (Some i)
  have "utf8_valid ''://''" by (rule ascii_utf8) (simp add: byte_def)
  with Some occurrence_boundaries(2) [OF assms, of "''://''" i] show ?thesis
    using find_sub_SomeD [OF Some] by (simp add: scheme_end_def numeral_3_eq_3)
qed

lemma post_db:
  assumes "utf8_valid og"
  shows "gen_post (gen_db_connection og) text_ok"
proof -
  note b = scheme_end_boundary [OF assms]
  have "text_ok (take (scheme_end og) og @ ''synthetic:synthetic@localhost/db'')"
    using utf8_valid_split [OF assms b]
    by (simp add: text_ok_def byte_def utf8_valid_append ascii_utf8)
  moreover have "str_slice og 0 (scheme_end og) = Done (take (scheme_end og) og)"
    using b by (simp add: str_slice_ok)
  ultimately show ?thesis
    by (simp add: gen_post_def gen_db_connection_def gbind_def glift_def gret_def)
qed

lemma post_url:
  assumes "utf8_valid og"
  shows "gen_post (gen_url_with_creds og) text_ok"
proof -
  let ?se = "scheme_end og"
  note b = scheme_end_boundary [OF assms]
  have at: "utf8_valid ''@''" by (rule ascii_utf8) (simp add: byte_def)
  have v: "utf8_valid (take ?se og)" "utf8_valid (drop ?se og)"
    using utf8_valid_split [OF assms b] by simp_all
  define hs where "hs = (case find_sub ''@'' (drop ?se og) of Some i \<Rightarrow> ?se + i + 1 | None \<Rightarrow> ?se)"
  have hb: "is_char_boundary og hs"
  proof (cases "find_sub ''@'' (drop ?se og)")
    case None
    then show ?thesis using b by (simp add: hs_def)
  next
    case (Some i)
    then have "prefix ''@'' (drop (?se + i) og)"
      using find_sub_SomeD [OF Some] by (simp add: add.commute)
    with occurrence_boundaries(2) [OF assms at] Some show ?thesis by (simp add: hs_def)
  qed
  have u: "utf8_valid ''user:password@''" by (rule ascii_utf8) (simp add: byte_def)
  have "text_ok (take ?se og @ ''user:password@'' @ drop hs og)"
    unfolding text_ok_def using v utf8_valid_split [OF assms hb]
    by (metis append_is_Nil_conv list.discI u utf8_valid_append)
  then show ?thesis
    using b hb by (simp add: gen_post_def gen_url_with_creds_def gbind_def glift_def gret_def Let_def
        str_slice_ok str_from_ok hs_def [symmetric])
qed

lemma post_phone_prefix:
  "utf8_valid og \<Longrightarrow> phone_prefix og = Done p \<Longrightarrow> utf8_valid p"
proof -
  assume v: "utf8_valid og" and p: "phone_prefix og = Done p"
  show ?thesis
  proof (cases "strip_prefix ''+'' og")
    case None
    with p show ?thesis by (simp add: phone_prefix_def)
  next
    case (Some s)
    then have og: "og = ''+'' @ s" by (auto simp: strip_prefix_def prefix_def split: if_splits)
    have plus: "utf8_valid ''+''" and blank: "utf8_valid '' ''" by (auto intro!: ascii_utf8 simp: byte_def)
    with v og have s: "utf8_valid s" using utf8_valid_append_iff [OF plus] by metis
    from p Some obtain n where "is_char_boundary s n" and "p = ''+'' @ take n s @ '' ''"
      by (auto simp: phone_prefix_def Let_def str_slice_def split: if_splits)
    with utf8_valid_split [OF s] plus blank show ?thesis by (metis utf8_valid_append)
  qed
qed

text \<open>What a call needs beyond a well-formed original: see \<open>phone_prefix\<close> and the date arithmetic.\<close>

definition generable :: "date_shift \<Rightarrow> pii_type \<Rightarrow> bytes \<Rightarrow> bool" where
  "generable shift ty og \<longleftrightarrow>
     utf8_valid og \<and> (ty = Phone \<longrightarrow> phone_prefix og \<noteq> Panic)
     \<and> (ty = DateOfBirth \<longrightarrow> (\<forall>n. case shift og n of None \<Rightarrow> True | Some (Done x) \<Rightarrow> text_ok x | Some Panic \<Rightarrow> False))"

context rng
begin

lemmas post_intros = gen_post_gret post_any post_gen_range post_gen_range_incl

lemma post_alnum: "0 < n \<Longrightarrow> gen_post (gen_random_alphanumeric R n) (\<lambda>x. ascii x \<and> x \<noteq> [])"
  unfolding gen_random_alphanumeric_def
  by (rule gen_post_mono [OF gen_post_grepeat [OF post_pick]])
     (auto simp: nonempty_lists ascii_iff list_all_iff dest: ascii_chars)

lemma post_upper: "gen_post (gen_random_uppercase R n) ascii"
  unfolding gen_random_uppercase_def
  by (rule gen_post_mono [OF gen_post_grepeat [OF post_pick]])
     (auto simp: nonempty_lists ascii_iff list_all_iff dest: ascii_chars)

lemma post_email: "gen_post (gen_email R) text_ok"
  unfolding gen_email_def
  by (rule gen_post_gbind [OF post_pick], simp add: nonempty_lists,
      rule gen_post_gbind [OF post_pick], simp add: nonempty_lists,
      rule gen_post_gbind [OF post_any])
     (auto intro!: gen_post_gret text_okI simp: ascii_to_lowercase ascii_lists byte_def)

lemma post_phone:
  assumes "utf8_valid og" and "phone_prefix og \<noteq> Panic"
  shows "gen_post (gen_phone R og) text_ok"
proof -
  obtain p where p: "phone_prefix og = Done p" using assms(2) by (cases "phone_prefix og") auto
  have "utf8_valid p" using assms(1) p by (rule post_phone_prefix)
  then have "text_ok (p @ ''555-'' @ zero_pad 4 (show_nat a) @ ''-'' @ zero_pad 4 (show_nat b))" for a b
    by (simp add: text_ok_def byte_def utf8_valid_append ascii_utf8)
  then show ?thesis
    unfolding gen_phone_def p
    by (intro gen_post_gbind [OF gen_post_glift [OF refl, of "\<lambda>x. x = p"]]
        gen_post_gbind [OF post_any] gen_post_gret) auto
qed

lemma post_person: "gen_post (gen_person_name R) text_ok"
  unfolding gen_person_name_def
  by (rule gen_post_gbind [OF post_pick], simp add: nonempty_lists,
      rule gen_post_gbind [OF post_pick], simp add: nonempty_lists)
     (auto intro!: gen_post_gret text_okI simp: ascii_lists byte_def)

lemma post_org: "gen_post (gen_org_name R) text_ok"
  unfolding gen_org_name_def
  by (rule gen_post_mono [OF post_pick]) (auto intro!: text_okI dest: ascii_lists simp: nonempty_lists)

lemma post_address: "gen_post (gen_address R) text_ok"
  unfolding gen_address_def
  by (rule gen_post_gbind [OF post_any],
      rule gen_post_gbind [OF post_pick], simp add: nonempty_lists,
      rule gen_post_gbind [OF post_pick], simp add: nonempty_lists)
     (auto intro!: gen_post_gret text_okI simp: ascii_lists byte_def)

lemma post_dob:
  assumes "\<forall>n. case shift og n of None \<Rightarrow> True | Some (Done x) \<Rightarrow> text_ok x | Some Panic \<Rightarrow> False"
  shows "gen_post (gen_dob R shift og) text_ok"
  unfolding gen_dob_def
proof (rule gen_post_gbind [OF post_any])
  fix n
  show "gen_post (case shift og n of Some shifted \<Rightarrow> glift shifted
     | None \<Rightarrow>
         gbind (gdraw (gen_range_incl R U32 1950 2005)) (\<lambda>y.
         gbind (gdraw (gen_range_incl R U32 1 12)) (\<lambda>m.
         gbind (gdraw (gen_range_incl R U32 1 28)) (\<lambda>d.
           gret (show_nat y @ ''-'' @ zero_pad 2 (show_nat m) @ ''-'' @ zero_pad 2 (show_nat d)))))) text_ok"
  proof (cases "shift og n")
    case None
    then show ?thesis
      by (auto intro!: gen_post_gbind [OF post_any] gen_post_gret text_okI simp: byte_def)
  next
    case (Some x)
    then show ?thesis using assms [rule_format, of n]
      by (auto split: outcome.splits intro: gen_post_glift)
  qed
qed

lemma post_numeric:
  "gen_post (gen_ssn R) text_ok" "gen_post (gen_ipv4 R) text_ok" "gen_post (gen_ipv6 R) text_ok"
  "gen_post (gen_aadhaar R) text_ok" "gen_post (gen_cpf R) text_ok"
  "gen_post (gen_credit_card R og) text_ok"
  unfolding gen_ssn_def gen_ipv4_def gen_ipv6_def gen_aadhaar_def gen_cpf_def
proof -
  show "gen_post (gen_credit_card R og) text_ok"
    by (rule gen_post_mono [OF card_post])
       (force intro!: text_okI simp: ascii_iff list_all_iff is_ascii_digit_def)
  show "gen_post (gbind (grepeat 9 (gdraw (gen_range_incl R U8 0 9))) (\<lambda>d. gret (format_cpf d))) text_ok"
    by (rule gen_post_gbind [OF gen_post_grepeat [OF post_any]], rule gen_post_gret, rule text_okI)
       (simp_all add: format_cpf_def ascii_concat_show byte_def)
qed (auto intro!: gen_post_gbind [OF post_any] gen_post_gret text_okI simp: byte_def)

lemma post_keys:
  "gen_post (gen_api_key R ''sk-'' n) text_ok" "gen_post (gen_api_key R ''ghp_'' n) text_ok"
  "gen_post (gen_aws_access_key R) text_ok"
  unfolding gen_api_key_def gen_aws_access_key_def
  by (rule gen_post_gbind [OF post_alnum] gen_post_gbind [OF post_upper];
      auto intro!: gen_post_gret text_okI simp: byte_def)+

lemma post_alnum_text: "0 < n \<Longrightarrow> gen_post (gen_random_alphanumeric R n) text_ok"
  by (rule gen_post_mono [OF post_alnum]) (auto intro: text_okI)

lemma post_generate:
  "generable shift ty og \<Longrightarrow> gen_post (generate R shift ty og) text_ok"
  by (cases ty)
     (auto simp: generable_def post_email post_phone post_numeric post_keys post_db post_url
        post_person post_org post_address post_dob post_alnum_text text_ok_def byte_def
      intro!: post_alnum_text gen_post_gret ascii_utf8)

lemma get_or_create_cases:
  assumes "generable shift ty og"
  obtains syn where "get_or_create R shift build og ty t c v = Done (syn, add_mapping build og syn ty t c v)"
    and "get_synthetic v og = Some syn \<or> get_synthetic v og = None \<and> text_ok syn"
proof (cases "get_synthetic v og")
  case None
  obtain syn r where "generate R shift ty og (seed_from_u64 R (rng_seed v + word_of_nat (mapping_count v)))
      = Done (syn, r)" and "text_ok syn"
    using post_generate [OF assms] unfolding gen_post_def by blast
  with None show ?thesis by (intro that [of syn]) (simp_all add: get_or_create_def)
next
  case (Some syn)
  then show ?thesis
    by (intro that [of syn])
       (simp_all add: get_or_create_def add_mapping_def get_synthetic_def hm_contains_def)
qed

end

section \<open>Properties\<close>

text \<open>
  C26. \<open>get_or_create\<close> returns for every original a generator can serve, keeps the vault's
  invariant and every other mapping, and is stable: asking again returns the same value and
  changes nothing. A value it creates is a non-empty string.
\<close>

theorem get_or_create_stable:
  assumes "rng R" and "vault_ok build v" and "generable shift ty og"
  shows "\<exists>syn v'. get_or_create R shift build og ty t c v = Done (syn, v')
     \<and> vault_ok build v' \<and> get_synthetic v' og = Some syn
     \<and> get_or_create R shift build og ty' t' c' v' = Done (syn, v')
     \<and> (\<forall>k. k \<noteq> og \<longrightarrow> get_synthetic v' k = get_synthetic v k)
     \<and> (get_synthetic v og = None \<longrightarrow> text_ok syn)"
proof -
  from rng.get_or_create_cases [OF assms(1,3)] obtain syn
    where g: "get_or_create R shift build og ty t c v = Done (syn, add_mapping build og syn ty t c v)"
      and syn: "get_synthetic v og = Some syn \<or> get_synthetic v og = None \<and> text_ok syn" by metis
  let ?v = "add_mapping build og syn ty t c v"
  have l: "get_synthetic ?v k =
      (case get_synthetic v k of Some s \<Rightarrow> Some s | None \<Rightarrow> if k = og then Some syn else None)" for k
    by (auto simp: get_synthetic_def add_mapping_def insert_mapping_raw_def
        insert_mapping_raw_with_token_id_def hm_simps hm_contains_def split: option.splits)
  have "get_synthetic ?v og = Some syn" using syn by (auto simp: l)
  moreover from this have "get_or_create R shift build og ty' t' c' ?v = Done (syn, ?v)"
    by (simp add: get_or_create_def)
  moreover have "vault_ok build ?v" using assms(2) by (rule vault_ok_add_mapping)
  moreover have "\<forall>k. k \<noteq> og \<longrightarrow> get_synthetic ?v k = get_synthetic v k"
    by (simp add: l split: option.splits)
  ultimately show ?thesis using g syn by auto
qed

theorem get_or_create_stable_witness:
  "\<exists>syn v'. get_or_create lcg_rng (\<lambda>_ _. None) naive_build ''jo@x.org'' Email 1 1 (vault_new zero_hash ''c'')
      = Done (syn, v') \<and> vault_ok naive_build v' \<and> text_ok syn"
proof -
  have "generable (\<lambda>_ _. None) Email ''jo@x.org''"
    by (simp add: generable_def ascii_literal byte_def)
  from get_or_create_stable [OF lcg.rng_axioms vault_ok_new [of naive_build zero_hash "''c''"] this, of 1 1]
  have "get_synthetic (vault_new zero_hash ''c'') ''jo@x.org'' = None \<Longrightarrow> ?thesis" by blast
  then show ?thesis by (simp add: get_synthetic_def vault_new_def empty_vault_def hm_simps)
qed

text \<open>The phone generator slices the country code at a fixed offset of three bytes.\<close>

lemma gen_phone_short_code_panics:
  "gen_phone R ''+1'' r = Panic"
  by (simp add: gen_phone_def gbind_def glift_def phone_prefix_def strip_prefix_def Let_def
      str_slice_def is_char_boundary_def is_ascii_digit_def byte_def)

subsection \<open>Check digits of generated CPF numbers\<close>

lemma weighted_sum_append:
  "length xs \<le> w \<Longrightarrow> weighted_sum w (xs @ ys) = weighted_sum w xs + weighted_sum (w - length xs) ys"
  by (induction xs arbitrary: w) auto

lemma cpf_check_digit_lt: "cpf_check_digit d m < 10"
  by (auto simp: cpf_check_digit_def Let_def)

lemma digits_of_append: "digits_of (a @ b) = digits_of a @ digits_of b"
  by (simp add: digits_of_def)

lemma digits_of_show: "d < 10 \<Longrightarrow> digits_of (show_nat d) = [d]"
  using digit_char_ascii_digit [of d] by (simp add: show_nat_digit digits_of_def)

lemma digits_of_concat_show: "list_all (\<lambda>d. d < 10) ds \<Longrightarrow> digits_of (concat (map show_nat ds)) = ds"
  by (induction ds) (simp_all add: digits_of_append digits_of_show digits_of_def [of "[]"])

lemma digits_of_punct: "digits_of ''.'' = []" "digits_of ''-'' = []"
  by (simp_all add: digits_of_def is_ascii_digit_def byte_def)

lemma digits_of_format_cpf:
  assumes "list_all (\<lambda>d. d < 10) d" and "length d = 9"
  shows "digits_of (format_cpf d) = d @ [cpf_check_digit d 10, cpf_check_digit d 11]"
proof -
  have "list_all (\<lambda>d. d < 10) (take 3 d)" "list_all (\<lambda>d. d < 10) (take 3 (drop 3 d))"
    "list_all (\<lambda>d. d < 10) (take 3 (drop 6 d))"
    using assms(1) by (auto simp: list_all_iff dest: in_set_takeD in_set_dropD)
  moreover have "take 3 d @ take 3 (drop 3 d) @ take 3 (drop 6 d) = d"
    using take_drop_join [of 3 6 9 d] assms(2) append_take_drop_id [of 3 d] by simp
  ultimately show ?thesis
    unfolding format_cpf_def
    by (simp only: digits_of_append digits_of_concat_show digits_of_punct digits_of_show
        cpf_check_digit_lt) (metis append.assoc append_Cons append_Nil)
qed

lemma lt_11_cases: "(r::nat) < 11 \<Longrightarrow> r \<in> {0, 1, 2, 3, 4, 5, 6, 7, 8, 9, 10}"
  by (simp add: less_Suc_eq numeral_eq_Suc)

lemma check_shift:
  fixes s x :: nat
  assumes "x < 10" and "x \<notin> {0, 5, 6}"
  shows "(if s mod 11 < 2 then 0 else 11 - s mod 11)
      \<noteq> (if (s + x * 2) mod 11 < 2 then 0 else 11 - (s + x * 2) mod 11)"
proof -
  have r: "s mod 11 \<in> {0, 1, 2, 3, 4, 5, 6, 7, 8, 9, 10}"
    using lt_11_cases [of "s mod 11"] by simp
  have x: "x \<in> {1, 2, 3, 4, 7, 8, 9}" using assms by auto
  have e: "(s + x * 2) mod 11 = (s mod 11 + x * 2) mod 11" by (simp add: mod_add_left_eq)
  from r x show ?thesis unfolding e by (elim insertE emptyE) simp_all
qed

text \<open>
  The second check digit of a generated CPF number is computed from nine digits instead of
  ten, so whenever the first check digit is none of 0, 5 and 6 the generated number fails the
  validator that the detector applies to CPF numbers.
\<close>

theorem gen_cpf_rejected:
  assumes "length d = 9" and "list_all (\<lambda>x. x < 10) d" and "cpf_check_digit d 10 \<notin> {0, 5, 6}"
  shows "\<not> cpf_valid (format_cpf d)"
proof
  assume v: "cpf_valid (format_cpf d)"
  let ?c = "cpf_check_digit d 10" and ?s = "weighted_sum 11 d"
  note dg = digits_of_format_cpf [OF assms(2,1)]
  have "weighted_sum 11 (d @ [?c]) = ?s + ?c * 2"
    using assms(1) by (simp add: weighted_sum_append)
  with v assms(1) have
    "cpf_check_digit d 11 = (if (?s + ?c * 2) mod 11 < 2 then 0 else 11 - (?s + ?c * 2) mod 11)"
    by (simp add: cpf_valid_def dg Let_def nth_append split: if_splits)
  moreover have "cpf_check_digit d 11 = (if ?s mod 11 < 2 then 0 else 11 - ?s mod 11)"
    by (simp add: cpf_check_digit_def Let_def)
  ultimately show False using check_shift [OF cpf_check_digit_lt assms(3), of ?s] by simp
qed

theorem gen_cpf_rejected_witness:
  "\<not> cpf_valid (format_cpf [1, 1, 1, 4, 4, 4, 7, 7, 7])"
  by (rule gen_cpf_rejected) (simp_all add: cpf_check_digit_def)

subsection \<open>Generated IPv6 addresses\<close>

lemma show_hex_lower_no_colon: "CHR '':'' \<notin> set (show_hex_lower n)"
  unfolding show_hex_lower_def
proof (induction n rule: less_induct)
  case (less n)
  have d: "digit_char_lower k \<noteq> CHR '':''" if "k < 36" for k
  proof -
    have "byte (digit_char_lower k) \<noteq> 58" using that by (auto simp: digit_char_lower_def byte_char_of)
    then show ?thesis by (auto simp: byte_def)
  qed
  have "n mod 16 < 36" using mod_less_divisor [of 16 n] by linarith
  then show ?case
    using d [of n] d [of "n mod 16"] less [of "n div 16"]
    by (subst show_radix.simps) auto
qed

lemma length_zero_pad: "n \<le> length (zero_pad n s)"
  by (simp add: zero_pad_def)

lemma ipv6_long_segment:
  "seg \<in> set (split_on (CHR '':'') s) \<Longrightarrow> \<not> length seg \<le> 4 \<Longrightarrow> seg \<noteq> [] \<Longrightarrow> \<not> ipv6_valid s"
  by (auto simp: ipv6_valid_def list_all_iff)

text \<open>
  A generated IPv6 address starts with a group of six or more hexadecimal digits: it is no
  IPv6 address, and the validator that the detector applies to such addresses rejects it.
\<close>

theorem gen_ipv6_rejected:
  "\<exists>x r'. gen_ipv6 R r = Done (x, r') \<and> \<not> ipv6_valid x"
proof -
  obtain g1 r1 where g1: "gen_range_incl R U16 0 0xffff r = (g1, r1)" by fastforce
  obtain g2 r' where g2: "gen_range_incl R U16 0 0xffff r1 = (g2, r')" by fastforce
  have g: "gen_ipv6 R r = Done ((''fd'' @ zero_pad 4 (show_hex_lower g1)) @ CHR '':''
      # zero_pad 4 (show_hex_lower g2) @ ''::1'', r')"
    using g1 g2 by (simp add: gen_ipv6_def gbind_def gdraw_def gret_def)
  let ?h = "''fd'' @ zero_pad 4 (show_hex_lower g1)"
  have "CHR '':'' \<notin> set ?h" using show_hex_lower_no_colon by (auto simp: zero_pad_def)
  then have "?h \<in> set (split_on (CHR '':'') (?h @ CHR '':'' # zero_pad 4 (show_hex_lower g2) @ ''::1''))"
    by (subst split_on_hd) simp_all
  moreover have "\<not> length ?h \<le> 4" using length_zero_pad [of 4 "show_hex_lower g1"] by simp
  moreover have "?h \<noteq> []" by simp
  ultimately have "\<not> ipv6_valid (?h @ CHR '':'' # zero_pad 4 (show_hex_lower g2) @ ''::1'')"
    by (intro ipv6_long_segment)
  then show ?thesis unfolding g by auto
qed

subsection \<open>Generators that lose information\<close>

text \<open>
  The generator of connection strings keeps only the scheme, and \<open>get_or_create\<close> does not
  look whether a synthetic value is taken: two different connection strings with the same scheme
  get the same synthetic value, so the vault's synthetic values are no longer distinct and a
  response that mentions the second is restored to the first.
\<close>

theorem db_connection_collision:
  assumes "utf8_valid og1" and "utf8_valid og2" and "og1 \<noteq> og2"
    and "take (scheme_end og1) og1 = take (scheme_end og2) og2"
    and "get_synthetic v og1 = None" and "get_synthetic v og2 = None"
  shows "\<exists>syn v1 v2. get_or_create R shift build og1 DbConnectionString t c v = Done (syn, v1)
     \<and> get_or_create R shift build og2 DbConnectionString t c v1 = Done (syn, v2)
     \<and> synthetic_keys v2 = synthetic_keys v @ [syn, syn]
     \<and> original_values v2 = original_values v @ [og1, og2]"
proof -
  let ?syn = "take (scheme_end og1) og1 @ ''synthetic:synthetic@localhost/db''"
  let ?v1 = "add_mapping build og1 ?syn DbConnectionString t c v"
  let ?v2 = "add_mapping build og2 ?syn DbConnectionString t c ?v1"
  have gen: "generate R shift DbConnectionString og r = Done (take (scheme_end og) og
      @ ''synthetic:synthetic@localhost/db'', r)" if "utf8_valid og" for og r
    using scheme_end_boundary [OF that]
    by (simp add: gen_db_connection_def gbind_def glift_def gret_def str_slice_ok)
  have n: "\<not> hm_contains (original_to_synthetic v) og1" "\<not> hm_contains (original_to_synthetic v) og2"
    using assms(5,6) by (simp_all add: get_synthetic_def hm_contains_def)
  have f: "synthetic_keys ?v1 = synthetic_keys v @ [?syn]" "original_values ?v1 = original_values v @ [og1]"
    "original_to_synthetic ?v1 = hm_insert og1 ?syn (original_to_synthetic v)"
    using n by (simp_all add: add_mapping_def insert_mapping_raw_def
        insert_mapping_raw_with_token_id_def)
  have n2: "\<not> hm_contains (original_to_synthetic ?v1) og2"
    using n assms(3) unfolding f by (simp add: hm_simps)
  then have "synthetic_keys ?v2 = synthetic_keys v @ [?syn, ?syn]"
    "original_values ?v2 = original_values v @ [og1, og2]"
    using f by (simp_all add: add_mapping_def [of _ og2] insert_mapping_raw_def
        insert_mapping_raw_with_token_id_def)
  moreover have "get_or_create R shift build og1 DbConnectionString t c v = Done (?syn, ?v1)"
    using assms(5) by (simp add: get_or_create_def gen [OF assms(1)] del: generate.simps)
  moreover have "get_synthetic ?v1 og2 = None"
    using n2 by (simp add: get_synthetic_def hm_contains_def)
  then have "get_or_create R shift build og2 DbConnectionString t c ?v1 = Done (?syn, ?v2)"
    by (simp add: get_or_create_def gen [OF assms(2)] assms(4) del: generate.simps)
  ultimately show ?thesis by blast
qed

theorem db_connection_collision_witness:
  "\<exists>syn v1 v2. get_or_create lcg_rng (\<lambda>_ _. None) naive_build ''redis://a:b@h/1'' DbConnectionString 1 1
        (vault_new zero_hash ''c'') = Done (syn, v1)
     \<and> get_or_create lcg_rng (\<lambda>_ _. None) naive_build ''redis://u:p@k/2'' DbConnectionString 1 1 v1
        = Done (syn, v2)
     \<and> synthetic_keys v2 = [syn, syn] \<and> original_values v2 = [''redis://a:b@h/1'', ''redis://u:p@k/2'']"
proof -
  have "take (scheme_end ''redis://a:b@h/1'') ''redis://a:b@h/1''
      = take (scheme_end ''redis://u:p@k/2'') ''redis://u:p@k/2''" by code_simp
  then show ?thesis
    using db_connection_collision [of "''redis://a:b@h/1''" "''redis://u:p@k/2''"
        "vault_new zero_hash ''c''" lcg_rng "\<lambda>_ _. None" naive_build 1 1]
    by (simp add: ascii_literal byte_def get_synthetic_def vault_new_def empty_vault_def hm_simps)
qed

end
