(* ===== verification/Tiers.thy ===== *)
theory Tiers
  imports Synth
begin

text \<open>
  The optional detection tiers and how they are merged: \<open>src/src/pii/tier2.rs\<close> (offset mapping,
  decoding of the span matrix, batching), \<open>src/src/pii/tier3.rs\<close> (disambiguation and replacement
  replies of the language model), and \<open>merge_spans\<close>, \<open>detect_spans\<close> and
  \<open>detect_spans_with_exclusions\<close> of \<open>src/src/pii/mod.rs\<close>.

  The neural network, its tokenizer, the HTTP client and the JSON decoder of the replies are
  parameters. An HTTP exchange is the value of type \<open>http_reply\<close> it ends with.
\<close>

section \<open>Tier 2: named entities\<close>

definition map_token_offset :: "nat \<Rightarrow> nat \<Rightarrow> nat \<Rightarrow> nat \<Rightarrow> (nat \<times> nat) option" where
  "map_token_offset raw_start raw_end text_byte_offset text_len =
     (if raw_start < text_byte_offset \<or> raw_end \<le> text_byte_offset then None
      else (let s = raw_start - text_byte_offset; e = raw_end - text_byte_offset
            in if s < e \<and> e \<le> text_len then Some (s, e) else None))"

text \<open>
  The loops of \<open>decode_spans\<close>. \<open>prob s e l\<close> is the sigmoid of the logit at those indices; \<open>dims\<close> are
  the second and the last axis of a four-dimensional output, nothing for another layout.
\<close>

definition span_at ::
    "(nat \<Rightarrow> nat \<Rightarrow> nat \<Rightarrow> f32) \<Rightarrow> f32 \<Rightarrow> bytes list \<Rightarrow> (nat \<times> nat) list \<Rightarrow> nat \<Rightarrow> nat \<Rightarrow> nat \<Rightarrow> nat \<Rightarrow> nat
       \<Rightarrow> pii_span option" where
  "span_at prob threshold labels offsets text_byte_offset text_len l s e =
     (if threshold \<le> prob s e l then
        (let raw_start = (case get_at offsets s of Some o1 \<Rightarrow> fst o1 | None \<Rightarrow> 0);
             raw_end = (case get_at offsets e of Some o1 \<Rightarrow> snd o1 | None \<Rightarrow> 0)
         in map_option (\<lambda>(bs, be). \<lparr>sp_start = bs, sp_end = be, entity_type = Custom (labels ! l),
                                     confidence = prob s e l, sp_tier = 2\<rparr>)
              (map_token_offset raw_start raw_end text_byte_offset text_len))
      else None)"

definition raw_spans ::
    "(nat \<Rightarrow> nat \<Rightarrow> nat \<Rightarrow> f32) \<Rightarrow> f32 \<Rightarrow> bytes list \<Rightarrow> (nat \<times> nat) list \<Rightarrow> nat \<Rightarrow> nat \<Rightarrow> (nat \<times> nat) option
       \<Rightarrow> pii_span list" where
  "raw_spans prob threshold labels offsets text_byte_offset text_len dims =
     (case dims of None \<Rightarrow> []
      | Some (d1, d3) \<Rightarrow>
          concat (map (\<lambda>l. concat (map (\<lambda>s.
             List.map_filter (span_at prob threshold labels offsets text_byte_offset text_len l s)
               [s..<min d1 (s + 50)]) [0..<d1])) [0..<min (length labels) d3]))"

text \<open>Sorting by descending confidence is stable; equal confidences keep their order.\<close>

definition by_confidence :: "pii_span list \<Rightarrow> pii_span list" where
  "by_confidence ss = sort_key (\<lambda>s. - confidence s) ss"

fun keep_first :: "pii_span list \<Rightarrow> pii_span list \<Rightarrow> pii_span list" where
  "keep_first out [] = out"
| "keep_first out (s # ss) =
     keep_first (if list_ex (\<lambda>x. sp_start x < sp_end s \<and> sp_start s < sp_end x) out then out else out @ [s]) ss"

definition decode_spans ::
    "(nat \<Rightarrow> nat \<Rightarrow> nat \<Rightarrow> f32) \<Rightarrow> f32 \<Rightarrow> bytes list \<Rightarrow> (nat \<times> nat) list \<Rightarrow> nat \<Rightarrow> nat \<Rightarrow> (nat \<times> nat) option
       \<Rightarrow> pii_span list" where
  "decode_spans prob threshold labels offsets text_byte_offset text_len dims =
     sort_key sp_start (keep_first []
       (by_confidence (raw_spans prob threshold labels offsets text_byte_offset text_len dims)))"

definition BATCH_SIZE :: nat where
  "BATCH_SIZE = 8"

text \<open>\<open>infer\<close> is the inference with its time limit: \<open>None\<close> for the timeout, else an error or the spans.\<close>

definition detect_batch ::
    "(bytes list \<Rightarrow> (unit + pii_span list list) option) \<Rightarrow> bytes list \<Rightarrow> unit + pii_span list list" where
  "detect_batch infer texts =
     (if texts = [] then Inr []
      else (let ts = (if BATCH_SIZE < length texts then take BATCH_SIZE texts else texts) in
            case infer ts of Some r \<Rightarrow> r | None \<Rightarrow> Inr (replicate (length ts) [])))"

definition tier2_detect ::
    "(bytes list \<Rightarrow> (unit + pii_span list list) option) \<Rightarrow> bytes \<Rightarrow> unit + pii_span list" where
  "tier2_detect infer txt =
     (case detect_batch infer [txt] of Inl e \<Rightarrow> Inl e
      | Inr rs \<Rightarrow> Inr (case rs of r # _ \<Rightarrow> r | [] \<Rightarrow> []))"

section \<open>Tier 3: the language model\<close>

datatype 'a http_reply = Http_Error | Http_Timeout | Http_Bad_Status | Http_Body "'a option"

record replace_replacement =
  rr_start :: nat
  rr_end :: nat
  rr_display_value :: bytes
  rr_pii_type :: bytes

text \<open>A completion is the list of the contents of its choices; \<open>parse\<close> reads a JSON array of indices.\<close>

definition disambiguate ::
    "(bytes \<Rightarrow> nat list option) \<Rightarrow> bytes list http_reply \<Rightarrow> pii_span list \<Rightarrow> pii_span list" where
  "disambiguate parse reply candidates =
     (if candidates = [] then []
      else (case reply of
          Http_Error \<Rightarrow> candidates
        | Http_Timeout \<Rightarrow> candidates
        | Http_Bad_Status \<Rightarrow> candidates
        | Http_Body None \<Rightarrow> candidates
        | Http_Body (Some choices) \<Rightarrow>
            (let content = (case choices of c # _ \<Rightarrow> c | [] \<Rightarrow> ''[]'');
                 confirmed_indices = (case parse content of Some is \<Rightarrow> is | None \<Rightarrow> [0..<length candidates])
             in map (\<lambda>i. candidates ! i) (filter (\<lambda>i. i < length candidates) confirmed_indices))))"

definition slm_replace :: "replace_replacement list http_reply \<Rightarrow> replace_replacement list option" where
  "slm_replace reply =
     (case reply of Http_Error \<Rightarrow> None | Http_Timeout \<Rightarrow> None | Http_Bad_Status \<Rightarrow> None | Http_Body r \<Rightarrow> r)"

section \<open>Merging the tiers\<close>

definition merge_spans :: "pii_span list \<Rightarrow> pii_span list \<Rightarrow> pii_span list" where
  "merge_spans a b = sort_key sp_start (keep_first [] (by_confidence (a @ b)))"

text \<open>
  \<open>ner\<close> is the detector of tier 2 where there is one; \<open>slm\<close> the sidecar where there is one, as the
  reply it gives to a text and its candidates.
\<close>

type_synonym ner = "(bytes \<Rightarrow> unit + pii_span list) option"
type_synonym slm = "(bytes \<Rightarrow> pii_span list \<Rightarrow> bytes list http_reply) option"

definition detect_spans ::
    "re_engine \<Rightarrow> ner \<Rightarrow> (bytes \<Rightarrow> nat list option) \<Rightarrow> slm \<Rightarrow> f32 \<Rightarrow> locale_pack \<Rightarrow> bytes \<Rightarrow> pii_span list" where
  "detect_spans re_find ner parse slm threshold loc txt =
     (let t1 = detect re_find txt loc;
          t2 = (case ner of Some d \<Rightarrow> (case d txt of Inr ss \<Rightarrow> ss | Inl _ \<Rightarrow> []) | None \<Rightarrow> []);
          merged = merge_spans t1 t2
      in case slm of None \<Rightarrow> merged
         | Some ask \<Rightarrow>
             (let high = filter (\<lambda>s. threshold \<le> confidence s) merged;
                  low = filter (\<lambda>s. \<not> threshold \<le> confidence s) merged;
                  confirmed = disambiguate parse (ask txt low) low
              in sort_key sp_start (high @ confirmed)))"

definition detect_spans_with_exclusions :: "pii_span list \<Rightarrow> (nat \<times> nat) list \<Rightarrow> pii_span list" where
  "detect_spans_with_exclusions spans zones =
     (if zones = [] then spans
      else filter (\<lambda>sp. list_all (\<lambda>(s, e). sp_end sp \<le> s \<or> e \<le> sp_start sp) zones) spans)"

section \<open>Properties\<close>

lemma keep_first_greedy: "keep_first out ss = greedy span_iv out ss"
  by (induction out ss rule: keep_first.induct) (simp_all add: overlaps_def span_iv_def)

lemma merge_spans_greedy: "merge_spans a b = sort_key sp_start (greedy span_iv [] (by_confidence (a @ b)))"
  by (simp add: merge_spans_def keep_first_greedy)

lemma by_confidence_sorted: "sorted_wrt (\<lambda>x y. confidence y \<le> confidence x) (by_confidence ss)"
proof -
  have "sorted (map (\<lambda>s. - confidence s) (by_confidence ss))" by (simp add: by_confidence_def)
  then show ?thesis by (simp add: sorted_wrt_map)
qed

lemma set_by_confidence [simp]: "set (by_confidence ss) = set ss"
  by (simp add: by_confidence_def)

text \<open>
  Merging two span lists keeps spans of both, pairwise disjoint and in text order, and leaves a span
  out only where it overlaps a kept span of at least its confidence.
\<close>

theorem merge_spans_highest_wins:
  "sorted (map sp_start (merge_spans a b)) \<and> disjoint_on span_iv (merge_spans a b)
   \<and> set (merge_spans a b) \<subseteq> set a \<union> set b
   \<and> (\<forall>s\<in>set a \<union> set b. \<exists>k\<in>set (merge_spans a b).
        (k = s \<or> overlaps (span_iv k) (span_iv s)) \<and> confidence s \<le> confidence k)"
proof (intro conjI ballI)
  show "sorted (map sp_start (merge_spans a b))" by (simp add: merge_spans_greedy)
  show "disjoint_on span_iv (merge_spans a b)"
    unfolding merge_spans_greedy
    by (intro disjoint_on_sort_key greedy_disjoint) (simp add: disjoint_on_def)
  show "set (merge_spans a b) \<subseteq> set a \<union> set b"
    using greedy_subset [of span_iv "[]" "by_confidence (a @ b)"] by (auto simp: merge_spans_greedy)
  fix s assume "s \<in> set a \<union> set b"
  then have "s \<in> set (by_confidence (a @ b))" by simp
  from greedy_dropped_rank [where rank = confidence and iv = span_iv and out = "[]", OF this by_confidence_sorted]
  show "\<exists>k\<in>set (merge_spans a b). (k = s \<or> overlaps (span_iv k) (span_iv s)) \<and> confidence s \<le> confidence k"
    by (simp add: merge_spans_greedy)
qed

definition sp :: "nat \<Rightarrow> nat \<Rightarrow> pii_type \<Rightarrow> f32 \<Rightarrow> nat \<Rightarrow> pii_span" where
  "sp s e ty c t = \<lparr>sp_start = s, sp_end = e, entity_type = ty, confidence = c, sp_tier = t\<rparr>"

theorem merge_spans_highest_wins_witness:
  "\<exists>k\<in>set (merge_spans [sp 0 4 Email 1 1] [sp 2 9 PersonName (1/2) 2]). 1/2 \<le> confidence k"
proof -
  have "sp 2 9 PersonName (1/2) 2 \<in> set [sp 0 4 Email 1 1] \<union> set [sp 2 9 PersonName (1/2) 2]" by simp
  with merge_spans_highest_wins [of "[sp 0 4 Email 1 1]" "[sp 2 9 PersonName (1/2) 2]"]
  show ?thesis by (auto simp: sp_def)
qed

text \<open>A list of disjoint spans passes the greedy choice unchanged.\<close>

lemma greedy_disjoint_id: "disjoint_on iv (out @ xs) \<Longrightarrow> greedy iv out xs = out @ xs"
proof (induction xs arbitrary: out)
  case (Cons x xs)
  from Cons.prems have "\<not> list_ex (\<lambda>s. overlaps (iv s) (iv x)) out"
    by (auto simp: disjoint_on_def sorted_wrt_append list_ex_iff)
  with Cons.IH [of "out @ [x]"] Cons.prems show ?case by simp
qed simp

lemma sort_key_min_first:
  assumes "\<forall>x\<in>set a. f x = m" and "\<forall>x\<in>set b. m \<le> f x"
  shows "\<exists>c. sort_key f (a @ b) = a @ c"
  using assms
proof (induction a)
  case (Cons x a)
  then obtain c where c: "sort_key f (a @ b) = a @ c" by auto
  have "insort_key f x (a @ c) = x # a @ c"
  proof (cases "a @ c")
    case (Cons y ys)
    then have "y \<in> set (a @ b)" by (metis c list.set_intros(1) set_sort)
    then have "f x \<le> f y" using Cons.prems by auto
    then show ?thesis using Cons by simp
  qed simp
  with c show ?case by simp
qed simp

lemma merge_keeps_certain:
  assumes "\<forall>s\<in>set t1. confidence s = 1" and "\<forall>s\<in>set t2. confidence s \<le> 1" and "disjoint_on span_iv t1"
  shows "set t1 \<subseteq> set (merge_spans t1 t2)"
proof -
  obtain c where "by_confidence (t1 @ t2) = t1 @ c"
    using sort_key_min_first [of t1 "\<lambda>s. - confidence s" "-1" t2] assms(1,2) by (auto simp: by_confidence_def)
  moreover have "greedy span_iv [] t1 = t1" using greedy_disjoint_id [of span_iv "[]" t1] assms(3) by simp
  ultimately show ?thesis
    using greedy_keeps [of t1 span_iv c] by (simp add: merge_spans_greedy greedy_append)
qed

lemma detect_confidence: "s \<in> set (detect re_find txt loc) \<Longrightarrow> confidence s = 1"
proof -
  assume "s \<in> set (detect re_find txt loc)"
  then have "s \<in> set (all_matches re_find txt loc)" using detect_candidates by blast
  then obtain p where "s \<in> set (find_all re_find p txt)" by (auto simp: all_matches_def)
  then show ?thesis by (auto simp: find_all_iff)
qed



text \<open>
  Disambiguation only ever confirms candidates, and it fails open: on an HTTP error, a timeout, a bad
  status, an unreadable reply or an answer that is no list of indices every candidate is kept.
  (A reply without choices is the exception: it is read as the empty list and drops them all.)
\<close>

theorem disambiguate_fails_open:
  "set (disambiguate parse reply cs) \<subseteq> set cs
   \<and> (reply = Http_Error \<or> reply = Http_Timeout \<or> reply = Http_Bad_Status \<or> reply = Http_Body None
        \<or> (\<exists>c r. reply = Http_Body (Some (c # r)) \<and> parse c = None) \<longrightarrow> disambiguate parse reply cs = cs)
   \<and> (reply = Http_Body (Some []) \<longrightarrow> parse ''[]'' = Some [] \<longrightarrow> disambiguate parse reply cs = [])"
proof -
  have "map (\<lambda>i. cs ! i) (filter (\<lambda>i. i < length cs) [0..<length cs]) = cs"
    by (simp add: filter_id_conv [THEN iffD2] map_nth)
  then show ?thesis
    by (auto simp: disambiguate_def Let_def split: http_reply.splits option.splits list.splits)
qed

theorem disambiguate_fails_open_witness:
  "disambiguate (\<lambda>_. None) Http_Timeout [sp 0 4 Email 1 1] = [sp 0 4 Email 1 1]"
  using disambiguate_fails_open [of "\<lambda>_. None" Http_Timeout "[sp 0 4 Email 1 1]"] by simp

text \<open>
  Spans of the entity model lie inside the text, are not empty, carry a confidence of at least the
  threshold and do not overlap.
\<close>

theorem decode_spans_in_text:
  "disjoint_on span_iv (decode_spans prob threshold labels offsets off len dims)
   \<and> (\<forall>s\<in>set (decode_spans prob threshold labels offsets off len dims).
        sp_start s < sp_end s \<and> sp_end s \<le> len \<and> threshold \<le> confidence s \<and> sp_tier s = 2)"
proof
  show "disjoint_on span_iv (decode_spans prob threshold labels offsets off len dims)"
    unfolding decode_spans_def keep_first_greedy
    by (intro disjoint_on_sort_key greedy_disjoint) (simp add: disjoint_on_def)
  show "\<forall>s\<in>set (decode_spans prob threshold labels offsets off len dims).
        sp_start s < sp_end s \<and> sp_end s \<le> len \<and> threshold \<le> confidence s \<and> sp_tier s = 2"
  proof
    fix s assume "s \<in> set (decode_spans prob threshold labels offsets off len dims)"
    then have "s \<in> set (raw_spans prob threshold labels offsets off len dims)"
      using greedy_subset [of span_iv "[]"] by (fastforce simp: decode_spans_def keep_first_greedy)
    then obtain l a e where "span_at prob threshold labels offsets off len l a e = Some s"
      by (auto simp: raw_spans_def set_map_filter_iff split: option.splits)
    then show "sp_start s < sp_end s \<and> sp_end s \<le> len \<and> threshold \<le> confidence s \<and> sp_tier s = 2"
      by (auto simp: span_at_def map_token_offset_def Let_def split: if_splits)
  qed
qed

theorem decode_spans_in_text_witness:
  "\<exists>s. decode_spans (\<lambda>_ _ _. 9/10) (1/2) [''person name''] [(19, 22)] 19 3 (Some (1, 1)) = [s]
     \<and> sp_start s < sp_end s \<and> sp_end s \<le> 3 \<and> 1/2 \<le> confidence s \<and> sp_tier s = 2"
proof -
  let ?ss = "decode_spans (\<lambda>_ _ _. 9/10) (1/2) [''person name''] [(19, 22)] 19 3 (Some (1, 1))"
  have "?ss = [sp 0 3 (Custom ''person name'') (9/10) 2]"
    by (simp add: decode_spans_def raw_spans_def span_at_def map_token_offset_def get_at_def by_confidence_def
        sp_def map_filter_simps upt_rec)
  moreover have "sp 0 3 (Custom ''person name'') (9/10) 2 \<in> set ?ss" using calculation by simp
  ultimately show ?thesis
    using decode_spans_in_text [of "\<lambda>_ _ _. 9/10" "1/2" "[''person name'']" "[(19, 22)]" 19 3 "Some (1, 1)"] by blast
qed

lemma exclusions_respected:
  assumes "s \<in> set (detect_spans_with_exclusions spans zones)" and "z \<in> set zones" and "sp_start s < sp_end s"
  shows "\<not> overlaps (span_iv s) z"
  using assms by (auto simp: detect_spans_with_exclusions_def overlaps_def span_iv_def list_all_iff split: if_splits)

end
