(* ===== verification/Buffer.thy ===== *)
theory Buffer
  imports Tier1
begin

text \<open>
  The streaming reverse-replacement buffer of \<open>src/src/pii/buffer.rs\<close>: the cascade over complete
  XML tokens, the holdback decision and the two operations of \<open>ReplacementBuffer\<close>.

  The vault is shared with other tasks, so it is an argument of each call: the value it has while
  the read lock is held. \<open>restore_ref\<close> is the reference the cascade is shown equal to.
\<close>

section \<open>The cascade\<close>

definition XML_TOKEN_OPEN :: bytes where
  "XML_TOKEN_OPEN = ''<pii''"

definition XML_TOKEN_CLOSE :: bytes where
  "XML_TOKEN_CLOSE = ''</pii>''"

definition find_subsequence :: "bytes \<Rightarrow> nat \<Rightarrow> bytes \<Rightarrow> nat option" where
  "find_subsequence hay start needle =
     (if needle = [] \<or> length hay < start + length needle then None
      else map_option (\<lambda>p. start + p) (find_sub needle (drop start hay)))"

text \<open>\<open>str::rfind\<close>.\<close>

definition rfind_sub :: "bytes \<Rightarrow> bytes \<Rightarrow> nat option" where
  "rfind_sub needle hay =
     map_option (\<lambda>i. length hay - i - length needle) (find_sub (rev needle) (rev hay))"

definition extract_xml_attr :: "bytes \<Rightarrow> bytes \<Rightarrow> bytes option" where
  "extract_xml_attr token attr =
     (let search = attr @ ''='' @ [QUOTE] in
      case find_sub search token of None \<Rightarrow> None
      | Some i \<Rightarrow>
          (let start = i + length search in
           map_option (\<lambda>e. take e (drop start token)) (find_sub [QUOTE] (drop start token))))"

definition extract_xml_inner :: "bytes \<Rightarrow> bytes option" where
  "extract_xml_inner token =
     (case find_sub ''>'' token of None \<Rightarrow> None
      | Some open_end \<Rightarrow>
          (let inner_start = open_end + 1 in
           case rfind_sub ''</'' token of None \<Rightarrow> None
           | Some close_start \<Rightarrow>
               if close_start < inner_start then None
               else Some (take (close_start - inner_start) (drop inner_start token))))"

text \<open>Levels 1 to 4 on one complete token.\<close>

definition restore_token :: "pii_vault \<Rightarrow> bytes \<Rightarrow> bytes" where
  "restore_token v full_token =
     (case hm_get (full_token_to_original v) full_token of
        Some original \<Rightarrow> original
      | None \<Rightarrow>
          (case extract_xml_attr full_token ''id'' of
             None \<Rightarrow> full_token
           | Some token_id \<Rightarrow>
               (case get_by_token_id v token_id of
                  Some original \<Rightarrow> original
                | None \<Rightarrow>
                    (case extract_xml_inner full_token of
                       None \<Rightarrow> full_token
                     | Some display_value \<Rightarrow>
                         (case get_by_display_value v display_value of
                            Some original \<Rightarrow> original
                          | None \<Rightarrow> full_token)))))"

definition level5 :: "pii_vault \<Rightarrow> bytes \<Rightarrow> bytes outcome" where
  "level5 v segment = and_then (replace_synthetics v segment) (\<lambda>(replaced, _). Done replaced)"

lemma find_subsequence_bound:
  "find_subsequence hay start needle = Some p \<Longrightarrow> start \<le> p \<and> p + length needle \<le> length hay \<and> needle \<noteq> []"
  by (auto simp: find_subsequence_def dest: find_sub_bound split: if_splits)

function cascade_loop :: "pii_vault \<Rightarrow> bytes \<Rightarrow> nat \<Rightarrow> bytes outcome" where
  "cascade_loop v txt pos =
     (if \<not> pos < length txt then Done []
      else (case find_subsequence txt pos XML_TOKEN_OPEN of
          None \<Rightarrow> and_then (str_from txt pos) (level5 v)
        | Some open_pos \<Rightarrow>
            (case (if pos < open_pos then and_then (str_slice txt pos open_pos) (level5 v) else Done []) of
               Panic \<Rightarrow> Panic
             | Done before \<Rightarrow>
                 (case find_subsequence txt open_pos XML_TOKEN_CLOSE of
                    None \<Rightarrow> and_then (str_from txt open_pos) (\<lambda>r. Done (before @ r))
                  | Some close_pos \<Rightarrow>
                      let token_end = close_pos + length XML_TOKEN_CLOSE in
                      and_then (str_slice txt open_pos token_end) (\<lambda>full_token.
                        case cascade_loop v txt token_end of
                          Panic \<Rightarrow> Panic
                        | Done rest \<Rightarrow> Done (before @ restore_token v full_token @ rest))))))"
  by pat_completeness auto
termination
  by (relation "measure (\<lambda>(v, txt, pos). length txt - pos)")
     (auto dest!: find_subsequence_bound simp: XML_TOKEN_CLOSE_def)

declare cascade_loop.simps [simp del]

definition apply_xml_token_cascade :: "pii_vault \<Rightarrow> bytes \<Rightarrow> bytes outcome" where
  "apply_xml_token_cascade v txt =
     (if find_sub XML_TOKEN_OPEN txt = None then level5 v txt else cascade_loop v txt 0)"

section \<open>The holdback decision\<close>

primrec find_char_boundary_from :: "bytes \<Rightarrow> nat \<Rightarrow> nat" where
  "find_char_boundary_from s 0 = 0"
| "find_char_boundary_from s (Suc p) =
     (if \<not> is_char_boundary s (Suc p) then find_char_boundary_from s p else Suc p)"

definition find_char_boundary :: "bytes \<Rightarrow> nat \<Rightarrow> nat" where
  "find_char_boundary s pos = find_char_boundary_from s (min pos (length s))"

fun windows2 :: "bytes \<Rightarrow> (char \<times> char) list" where
  "windows2 (a # b # r) = (a, b) # windows2 (b # r)"
| "windows2 _ = []"

definition has_prefix_match :: "bytes \<Rightarrow> (char \<times> char) list \<Rightarrow> bool" where
  "has_prefix_match bs trig =
     (if list_ex (\<lambda>w. w \<in> set trig) (windows2 bs) then True
      else bs \<noteq> [] \<and> list_ex (\<lambda>p. fst p = last bs) trig)"

definition last_occurrence :: "bytes \<Rightarrow> bytes \<Rightarrow> nat option" where
  "last_occurrence needle hay =
     (let occ = filter (\<lambda>i. prefix needle (drop i hay)) [0..<Suc (length hay) - length needle]
      in if occ = [] then None else Some (last occ))"

definition xml_token_holdback_pos :: "bytes \<Rightarrow> nat option" where
  "xml_token_holdback_pos txt =
     (case last_occurrence XML_TOKEN_OPEN txt of None \<Rightarrow> None
      | Some last_open \<Rightarrow>
          if find_subsequence txt last_open XML_TOKEN_CLOSE \<noteq> None then None else Some last_open)"

definition compute_safe_flush_len :: "bytes \<Rightarrow> nat \<Rightarrow> (char \<times> char) list \<Rightarrow> nat" where
  "compute_safe_flush_len txt max_key_len trig =
     (case xml_token_holdback_pos txt of
        Some xml_holdback \<Rightarrow> xml_holdback
      | None \<Rightarrow>
          if max_key_len < length txt then
            (let tail_start = find_char_boundary txt (length txt - max_key_len);
                 tail = (case str_get txt tail_start (length txt) of Some t \<Rightarrow> t | None \<Rightarrow> txt)
             in if has_prefix_match tail trig then tail_start else length txt)
          else if has_prefix_match txt trig then 0 else length txt)"

section \<open>The buffer\<close>

record replacement_buffer =
  rb_buffer :: bytes
  trigger_prefixes :: "(char \<times> char) list"
  cached_mapping_count :: nat

definition rb_new :: replacement_buffer where
  "rb_new = \<lparr>rb_buffer = [], trigger_prefixes = [], cached_mapping_count = 0\<rparr>"

definition refresh_triggers :: "pii_vault \<Rightarrow> replacement_buffer \<Rightarrow> replacement_buffer" where
  "refresh_triggers v rb =
     (if mapping_count v \<noteq> cached_mapping_count rb
      then rb\<lparr>trigger_prefixes := synthetic_key_prefixes v, cached_mapping_count := mapping_count v\<rparr>
      else rb)"

definition process_delta :: "pii_vault \<Rightarrow> bytes \<Rightarrow> replacement_buffer \<Rightarrow> (bytes \<times> replacement_buffer) outcome" where
  "process_delta v incoming rb =
     (if incoming = [] then Done ([], rb)
      else
        let rb1 = refresh_triggers v (rb\<lparr>rb_buffer := rb_buffer rb @ incoming\<rparr>) in
        if vault_is_empty v then Done (rb_buffer rb1, rb1\<lparr>rb_buffer := []\<rparr>)
        else
          and_then (apply_xml_token_cascade v (rb_buffer rb1)) (\<lambda>xml_processed.
            let safe_len = compute_safe_flush_len xml_processed (max_synthetic_key_len v) (trigger_prefixes rb1) in
            if safe_len = 0 then Done ([], rb1\<lparr>rb_buffer := xml_processed\<rparr>)
            else
              let flush_to = find_char_boundary xml_processed safe_len in
              (case (str_get xml_processed 0 flush_to, str_get xml_processed flush_to (length xml_processed)) of
                 (Some flushed, Some remaining) \<Rightarrow> Done (flushed, rb1\<lparr>rb_buffer := remaining\<rparr>)
               | _ \<Rightarrow> Done ([], rb1\<lparr>rb_buffer := xml_processed\<rparr>))))"

definition flush_remaining :: "pii_vault \<Rightarrow> replacement_buffer \<Rightarrow> (bytes \<times> replacement_buffer) outcome" where
  "flush_remaining v rb =
     (if rb_buffer rb = [] then Done ([], rb)
      else and_then (apply_xml_token_cascade v (rb_buffer rb)) (\<lambda>replaced.
             Done (replaced, rb\<lparr>rb_buffer := []\<rparr>)))"

section \<open>The cascade computes its reference\<close>

text \<open>
  \<open>restore_ref l5 tok\<close> rewrites every complete token by \<open>tok\<close> and the text between tokens by \<open>l5\<close>;
  an incomplete token and what follows it stay.
\<close>

function restore_ref :: "(bytes \<Rightarrow> bytes) \<Rightarrow> (bytes \<Rightarrow> bytes) \<Rightarrow> bytes \<Rightarrow> bytes" where
  "restore_ref l5 tok txt =
     (case find_sub XML_TOKEN_OPEN txt of None \<Rightarrow> l5 txt
      | Some i \<Rightarrow>
          l5 (take i txt) @
          (case find_sub XML_TOKEN_CLOSE (drop i txt) of None \<Rightarrow> drop i txt
           | Some j \<Rightarrow> tok (take (j + 6) (drop i txt)) @ restore_ref l5 tok (drop (i + j + 6) txt)))"
  by pat_completeness auto
termination
proof (relation "measure (\<lambda>(l5, tok, txt). length txt)", goal_cases)
  case (2 l5 tok hay i j)
  from find_sub_bound [OF 2(1)] have "hay \<noteq> []" by (auto simp: XML_TOKEN_OPEN_def)
  then show ?case by simp
qed simp

declare restore_ref.simps [simp del]

text \<open>What the cascade relies on: the vault rewrites a valid text by a function \<open>l5\<close> and keeps the empty one.\<close>

definition level5_is :: "pii_vault \<Rightarrow> (bytes \<Rightarrow> bytes) \<Rightarrow> bool" where
  "level5_is v l5 \<longleftrightarrow> l5 [] = [] \<and> (\<forall>t. utf8_valid t \<longrightarrow> level5 v t = Done (l5 t))"

lemma utf8_tags: "utf8_valid XML_TOKEN_OPEN" "utf8_valid XML_TOKEN_CLOSE" "XML_TOKEN_OPEN \<noteq> []" "XML_TOKEN_CLOSE \<noteq> []"
  by (simp_all add: XML_TOKEN_OPEN_def XML_TOKEN_CLOSE_def ascii_literal byte_def)

lemma boundary_drop:
  assumes "utf8_valid txt" and "is_char_boundary txt pos" and "is_char_boundary (drop pos txt) i"
  shows "is_char_boundary txt (pos + i)"
proof -
  have "pos \<le> length txt" using assms(2) by (rule boundary_le)
  then have "txt = take pos txt @ drop pos txt" "length (take pos txt) = pos" by simp_all
  then show ?thesis
    using boundary_append_iff [of "drop pos txt" "take pos txt" i] utf8_valid_split [OF assms(1,2)] assms(3)
    by metis
qed

lemma find_subsequence_drop:
  "n \<noteq> [] \<Longrightarrow> pos \<le> length txt \<Longrightarrow>
     find_subsequence txt pos n = map_option (\<lambda>i. pos + i) (find_sub n (drop pos txt))"
  using find_sub_bound [of n "drop pos txt"]
  by (cases "find_sub n (drop pos txt)") (fastforce simp: find_subsequence_def)+

lemma find_sub_boundaries:
  assumes "utf8_valid txt" and "utf8_valid n" and "n \<noteq> []" and "find_sub n txt = Some i"
  shows "is_char_boundary txt i" and "is_char_boundary txt (i + length n)"
  using occurrence_boundaries [OF assms(1-3)] find_sub_SomeD [OF assms(4)] by auto

lemma cascade_loop_ref:
  assumes "level5_is v l5" and "utf8_valid txt" and "is_char_boundary txt pos"
  shows "cascade_loop v txt pos = Done (restore_ref l5 (restore_token v) (drop pos txt))"
  using assms(3)
proof (induction "length txt - pos" arbitrary: pos rule: less_induct)
  case less
  let ?r = "drop pos txt"
  have l5: "l5 [] = []" "\<And>t. utf8_valid t \<Longrightarrow> level5 v t = Done (l5 t)"
    using assms(1) by (auto simp: level5_is_def)
  have le: "pos \<le> length txt" using less.prems by (rule boundary_le)
  have vr: "utf8_valid ?r" using utf8_valid_split [OF assms(2) less.prems] by simp
  show ?case
  proof (cases "pos < length txt")
    case False
    then have "?r = []" by simp
    with False l5 show ?thesis
      by (simp add: cascade_loop.simps [of v _ pos] restore_ref.simps [of l5 _ "[]"] XML_TOKEN_OPEN_def)
  next
    case True
    show ?thesis
    proof (cases "find_sub XML_TOKEN_OPEN ?r")
      case None
      then have "find_subsequence txt pos XML_TOKEN_OPEN = None"
        using le utf8_tags by (simp add: find_subsequence_drop)
      with True None l5 vr less.prems show ?thesis
        by (subst cascade_loop.simps, subst restore_ref.simps) (simp add: str_from_ok)
    next
      case (Some i)
      note ib = find_sub_boundaries [OF vr utf8_tags(1,3) Some]
      have ob: "is_char_boundary txt (pos + i)" by (rule boundary_drop [OF assms(2) less.prems ib(1)])
      have ole: "pos + i \<le> length txt" using ob by (rule boundary_le)
      have fo: "find_subsequence txt pos XML_TOKEN_OPEN = Some (pos + i)"
        using Some le utf8_tags by (simp add: find_subsequence_drop)
      have vi: "utf8_valid (take i ?r)" using utf8_valid_split [OF vr ib(1)] by simp
      have pre: "(if pos < pos + i then and_then (str_slice txt pos (pos + i)) (level5 v) else Done [])
          = Done (l5 (take i ?r))"
        using l5 vi ob less.prems by (cases i) (simp_all add: str_slice_ok)
      have dr: "drop (pos + i) txt = drop i ?r" by (simp add: add.commute)
      have vd: "utf8_valid (drop i ?r)" using utf8_valid_split [OF vr ib(1)] by simp
      show ?thesis
      proof (cases "find_sub XML_TOKEN_CLOSE (drop i ?r)")
        case None
        then have "find_subsequence txt (pos + i) XML_TOKEN_CLOSE = None"
          using ole utf8_tags dr by (simp add: find_subsequence_drop)
        with True fo pre Some None ob dr show ?thesis
          by (subst cascade_loop.simps, subst restore_ref.simps) (simp add: str_from_ok)
      next
        case j: (Some j)
        have fc: "find_subsequence txt (pos + i) XML_TOKEN_CLOSE = Some (pos + i + j)"
          using j ole utf8_tags dr by (simp add: find_subsequence_drop)
        have "is_char_boundary (drop i ?r) (j + length XML_TOKEN_CLOSE)"
          by (rule find_sub_boundaries(2) [OF vd utf8_tags(2,4) j])
        then have "is_char_boundary (drop (pos + i) txt) (j + 6)"
          by (simp add: XML_TOKEN_CLOSE_def numeral_eq_Suc dr)
        then have tb: "is_char_boundary txt (pos + i + (j + 6))"
          by (rule boundary_drop [OF assms(2) ob])
        have dec: "length txt - (pos + i + j + 6) < length txt - pos" using True by simp
        have IH: "cascade_loop v txt (pos + i + j + 6)
            = Done (restore_ref l5 (restore_token v) (drop (pos + i + j + 6) txt))"
          using less.hyps [OF dec] tb by (simp add: add.assoc)
        have l6: "length XML_TOKEN_CLOSE = 6" by (simp add: XML_TOKEN_CLOSE_def)
        have sl: "str_slice txt (pos + i) (pos + i + j + 6) = Done (take (j + 6) (drop i ?r))"
          using ob tb dr by (simp add: str_slice_ok add.assoc)
        have dd: "drop (i + j + 6) ?r = drop (pos + i + j + 6) txt" by (simp add: ac_simps)
        have "cascade_loop v txt pos = Done (l5 (take i ?r) @ restore_token v (take (j + 6) (drop i ?r))
            @ restore_ref l5 (restore_token v) (drop (pos + i + j + 6) txt))"
          using True fo pre fc sl IH l6 by (subst cascade_loop.simps) (simp add: Let_def)
        also have "\<dots> = Done (restore_ref l5 (restore_token v) ?r)"
          using Some j dd by (subst restore_ref.simps [of l5 _ ?r]) simp
        finally show ?thesis .
      qed
    qed
  qed
qed

lemma cascade_ref:
  assumes "level5_is v l5" and "utf8_valid txt"
  shows "apply_xml_token_cascade v txt = Done (restore_ref l5 (restore_token v) txt)"
proof (cases "find_sub XML_TOKEN_OPEN txt")
  case None
  with assms show ?thesis
    by (simp add: apply_xml_token_cascade_def level5_is_def restore_ref.simps [of l5 _ "txt"])
next
  case (Some i)
  then show ?thesis
    using cascade_loop_ref [OF assms boundary_0] by (simp add: apply_xml_token_cascade_def)
qed

text \<open>A vault in good order: what it needs so that level 5 is the rewriting of its synthetic values.\<close>

definition vault_fit :: "ac_builder \<Rightarrow> pii_vault \<Rightarrow> bool" where
  "vault_fit build v \<longleftrightarrow>
     leftmost_longest build \<and> vault_ok build v \<and> keys_ok v
     \<and> (synthetic_keys v \<noteq> [] \<longrightarrow> build (synthetic_keys v) \<noteq> None)"

lemma vault_fit_level5: "vault_fit build v \<Longrightarrow> level5_is v (subst_longest (reverse_pairs v))"
  unfolding level5_is_def level5_def vault_fit_def
  using leftmost_longest.replace_synthetics_subst [of build v] by simp


lemma sample_vault_fit: "vault_fit naive_build sample_vault"
  by (simp add: vault_fit_def naive.leftmost_longest_axioms sample_vault_ok sample_vault_keys_ok
      naive_build_def)


section \<open>The operations of the buffer\<close>

definition vault_text :: "pii_vault \<Rightarrow> bool" where
  "vault_text v \<longleftrightarrow>
     (\<forall>og \<in> set (original_values v) \<union> snd ` set (full_token_to_original v)
        \<union> snd ` set (token_id_to_original v) \<union> snd ` set (display_value_to_original v). utf8_valid og)"

lemma hm_get_set: "hm_get m k = Some x \<Longrightarrow> x \<in> snd ` set m"
  by (metis hm_get_def image_eqI map_of_SomeD snd_conv)

lemma restore_token_utf8:
  assumes "vault_text v" and "utf8_valid tok"
  shows "utf8_valid (restore_token v tok)"
  using assms unfolding restore_token_def vault_text_def get_by_token_id_def get_by_display_value_def
  by (auto split: option.splits dest!: hm_get_set)

lemma restore_ref_utf8:
  assumes "\<And>t. utf8_valid t \<Longrightarrow> utf8_valid (l5 t)" and "\<And>t. utf8_valid t \<Longrightarrow> utf8_valid (tok t)"
    and "utf8_valid hay"
  shows "utf8_valid (restore_ref l5 tok hay)"
  using assms(3)
proof (induction "length hay" arbitrary: hay rule: less_induct)
  case less
  show ?case
  proof (cases "find_sub XML_TOKEN_OPEN hay")
    case None
    then show ?thesis using assms(1) less.prems by (subst restore_ref.simps) simp
  next
    case (Some i)
    note ib = find_sub_boundaries [OF less.prems utf8_tags(1,3) Some]
    have v: "utf8_valid (take i hay)" "utf8_valid (drop i hay)"
      using utf8_valid_split [OF less.prems ib(1)] by auto
    have ne: "hay \<noteq> []" using find_sub_bound [OF Some] by (auto simp: XML_TOKEN_OPEN_def)
    show ?thesis
    proof (cases "find_sub XML_TOKEN_CLOSE (drop i hay)")
      case None
      then show ?thesis using Some v assms(1) by (subst restore_ref.simps) (simp add: utf8_valid_append)
    next
      case j: (Some j)
      have "is_char_boundary (drop i hay) (j + 6)"
        using find_sub_boundaries(2) [OF v(2) utf8_tags(2,4) j] by (simp add: XML_TOKEN_CLOSE_def numeral_eq_Suc)
      then have w: "utf8_valid (take (j + 6) (drop i hay))" "utf8_valid (drop (j + 6) (drop i hay))"
        using utf8_valid_split [OF v(2)] by auto
      have "utf8_valid (restore_ref l5 tok (drop (i + j + 6) hay))"
        using w(2) ne by (intro less.hyps) (simp_all add: ac_simps)
      then show ?thesis
        using Some j v w assms(1,2) by (subst restore_ref.simps) (simp add: utf8_valid_append)
    qed
  qed
qed

definition restored :: "pii_vault \<Rightarrow> bytes \<Rightarrow> bytes" where
  "restored v t = restore_ref (subst_longest (reverse_pairs v)) (restore_token v) t"

lemma restored_utf8:
  assumes "vault_fit build v" and "vault_text v" and "utf8_valid t"
  shows "utf8_valid (restored v t)"
  unfolding restored_def
proof (rule restore_ref_utf8)
  have kv: "\<forall>(k, og)\<in>set (reverse_pairs v). utf8_valid k \<and> utf8_valid og"
    using assms(1,2) by (auto simp: vault_fit_def keys_ok_def vault_text_def reverse_pairs_def
        dest: set_zip_leftD set_zip_rightD)
  show "utf8_valid (subst_longest (reverse_pairs v) s)" if "utf8_valid s" for s
    using subst_longest_utf8 [OF kv that] .
qed (use assms restore_token_utf8 in auto)

lemma find_char_boundary_ok: "is_char_boundary s (find_char_boundary s p)" "find_char_boundary s p \<le> p"
proof -
  have "is_char_boundary s (find_char_boundary_from s q) \<and> find_char_boundary_from s q \<le> q" for q
    by (induction q) auto
  then show "is_char_boundary s (find_char_boundary s p)" "find_char_boundary s p \<le> p"
    unfolding find_char_boundary_def by (blast, meson min.boundedE order_refl)
qed

lemma process_delta_conserved:
  assumes "vault_fit build v" and "vault_text v" and "utf8_valid (rb_buffer rb)" and "utf8_valid incoming"
    and "incoming \<noteq> []"
  shows "\<exists>out rb'. process_delta v incoming rb = Done (out, rb')
     \<and> out @ rb_buffer rb' =
         (if vault_is_empty v then rb_buffer rb @ incoming else restored v (rb_buffer rb @ incoming))
     \<and> utf8_valid out \<and> utf8_valid (rb_buffer rb')
     \<and> (vault_is_empty v \<longrightarrow> rb_buffer rb' = [])"
proof -
  let ?t = "rb_buffer rb @ incoming"
  have t: "utf8_valid ?t" using assms(3,4) by (rule utf8_valid_append)
  define rb1 where "rb1 = refresh_triggers v (rb\<lparr>rb_buffer := ?t\<rparr>)"
  have b1: "rb_buffer rb1 = ?t" by (simp add: rb1_def refresh_triggers_def)
  show ?thesis
  proof (cases "vault_is_empty v")
    case True
    then show ?thesis using assms(5) t b1 by (simp add: process_delta_def Let_def rb1_def [symmetric])
  next
    case False
    let ?x = "restored v ?t"
    have c: "apply_xml_token_cascade v ?t = Done ?x"
      unfolding restored_def by (rule cascade_ref [OF vault_fit_level5 [OF assms(1)] t])
    have x: "utf8_valid ?x" by (rule restored_utf8 [OF assms(1,2) t])
    define s where "s = compute_safe_flush_len ?x (max_synthetic_key_len v) (trigger_prefixes rb1)"
    define f where "f = find_char_boundary ?x s"
    have fb: "is_char_boundary ?x f" by (simp add: f_def find_char_boundary_ok)
    have g: "str_get ?x 0 f = Some (take f ?x)" "str_get ?x f (length ?x) = Some (drop f ?x)"
      using fb boundary_le [OF fb] by (simp_all add: str_get_def)
    have p: "process_delta v incoming rb =
        (if s = 0 then Done ([], rb1\<lparr>rb_buffer := ?x\<rparr>) else Done (take f ?x, rb1\<lparr>rb_buffer := drop f ?x\<rparr>))"
      using assms(5) False b1 c g
      by (simp add: process_delta_def Let_def rb1_def [symmetric] s_def [symmetric] f_def [symmetric])
    show ?thesis using p False x utf8_valid_split [OF x fb] by (cases "s = 0") auto
  qed
qed

text \<open>
  C13. No byte is lost or invented by the buffer: for a valid delta a call never panics, what it
  returns followed by what it keeps is exactly the restored form of what it held followed by the
  delta, both parts are valid strings, and an empty vault delays nothing.
\<close>

theorem process_delta_conserves:
  assumes "vault_fit build v" and "vault_text v" and "utf8_valid (rb_buffer rb)" and "utf8_valid incoming"
    and "incoming \<noteq> []"
  shows "\<exists>out rb'. process_delta v incoming rb = Done (out, rb')
     \<and> out @ rb_buffer rb' =
         (if vault_is_empty v then rb_buffer rb @ incoming else restored v (rb_buffer rb @ incoming))
     \<and> utf8_valid out \<and> utf8_valid (rb_buffer rb')
     \<and> (vault_is_empty v \<longrightarrow> rb_buffer rb' = [])"
  by (rule process_delta_conserved [OF assms])

lemma sample_vault_text: "vault_text sample_vault"
  by (simp add: vault_text_def sample_vault_originals sample_vault_def add_mapping_def
      insert_mapping_raw_def insert_mapping_raw_with_token_id_def vault_new_def empty_vault_def
      rebuild_automaton_def hm_simps ascii_literal byte_def split: option.splits)

theorem process_delta_conserves_witness:
  "\<exists>out rb'. process_delta sample_vault ''Dear Al'' rb_new = Done (out, rb')
     \<and> utf8_valid out \<and> utf8_valid (rb_buffer rb')"
  using process_delta_conserves [OF sample_vault_fit sample_vault_text, of rb_new "''Dear Al''"]
  by (auto simp: rb_new_def ascii_literal byte_def)

section \<open>Whole streams\<close>

text \<open>A response: the deltas in order, then the flush at its end; the client sees the concatenation.\<close>

fun run_stream :: "pii_vault \<Rightarrow> bytes list \<Rightarrow> replacement_buffer \<Rightarrow> bytes outcome" where
  "run_stream v [] rb = and_then (flush_remaining v rb) (\<lambda>(out, rb'). Done out)"
| "run_stream v (d # ds) rb =
     and_then (process_delta v d rb) (\<lambda>(out, rb').
     and_then (run_stream v ds rb') (\<lambda>rest. Done (out @ rest)))"

text \<open>Text with no opening tag and no synthetic value in it.\<close>

definition untouched :: "pii_vault \<Rightarrow> bytes \<Rightarrow> bool" where
  "untouched v t \<longleftrightarrow> \<not> sublist XML_TOKEN_OPEN t \<and> (\<forall>k\<in>set (synthetic_keys v). \<not> sublist k t)"

lemma subst_reverse_id:
  "\<forall>k\<in>set (synthetic_keys v). \<not> sublist k t \<Longrightarrow> subst_longest (reverse_pairs v) t = t"
  by (rule subst_longest_id) (auto simp: reverse_pairs_def dest: set_zip_leftD)

lemma restored_untouched: "untouched v t \<Longrightarrow> restored v t = t"
  unfolding restored_def untouched_def
  by (subst restore_ref.simps) (simp add: find_sub_None_iff [THEN iffD2] subst_reverse_id)

lemma untouched_parts: "untouched v (a @ b) \<Longrightarrow> untouched v a \<and> untouched v b"
  unfolding untouched_def by (meson sublist_append_leftI sublist_append_rightI sublist_order.order.trans)

text \<open>
  C14. A response that mentions no token and no synthetic value reaches the client unchanged, however
  it is cut into deltas and however much the buffer holds back on the way.
\<close>

theorem run_stream_identity:
  assumes "vault_fit build v" and "vault_text v" and "\<forall>d\<in>set ds. utf8_valid d" and "utf8_valid (rb_buffer rb)"
    and "untouched v (rb_buffer rb @ concat ds)"
  shows "run_stream v ds rb = Done (rb_buffer rb @ concat ds)"
  using assms(3-5)
proof (induction ds arbitrary: rb)
  case Nil
  then have "restored v (rb_buffer rb) = rb_buffer rb" by (simp add: restored_untouched)
  then show ?case
    using cascade_ref [OF vault_fit_level5 [OF assms(1)] Nil.prems(2)]
    by (simp add: flush_remaining_def restored_def)
next
  case (Cons d ds)
  show ?case
  proof (cases "d = []")
    case True
    with Cons show ?thesis by (simp add: process_delta_def)
  next
    case False
    have "untouched v (rb_buffer rb @ d)"
      using Cons.prems(3) untouched_parts [of v "rb_buffer rb @ d" "concat ds"] by simp
    then have r: "restored v (rb_buffer rb @ d) = rb_buffer rb @ d" by (rule restored_untouched)
    have d: "utf8_valid d" using Cons.prems(1) by simp
    from process_delta_conserved [OF assms(1,2) Cons.prems(2) d False] obtain out rb'
      where p: "process_delta v d rb = Done (out, rb')" and o: "out @ rb_buffer rb' = rb_buffer rb @ d"
        and u: "utf8_valid (rb_buffer rb')" using r by (auto split: if_splits)
    have e: "rb_buffer rb @ concat (d # ds) = out @ rb_buffer rb' @ concat ds" using o by simp
    have "run_stream v ds rb' = Done (rb_buffer rb' @ concat ds)"
      using Cons.prems u untouched_parts [of v out] unfolding e by (intro Cons.IH) auto
    then show ?thesis using p e by simp
  qed
qed

theorem run_stream_identity_witness:
  "run_stream sample_vault [''Hello Ali'', ''ce'', '' B.''] rb_new = Done ''Hello Alice B.''"
proof -
  have "untouched sample_vault ''Hello Alice B.''"
    unfolding untouched_def sample_vault_keys XML_TOKEN_OPEN_def by code_simp
  then show ?thesis
    using run_stream_identity [OF sample_vault_fit sample_vault_text,
        of "[''Hello Ali'', ''ce'', '' B.'']" rb_new]
    by (simp add: rb_new_def ascii_literal byte_def)
qed

section \<open>What is held back\<close>

lemma windows2_mem: "windows2 (a @ x # y # r) = windows2 (a @ [x]) @ (x, y) # windows2 (y # r)"
proof (induction a)
  case Nil
  show ?case by simp
next
  case (Cons c a)
  then show ?case by (cases a) auto
qed

lemma has_prefix_match_suffix:
  assumes "p \<noteq> []" and "strict_prefix p k" and "k \<in> set (synthetic_keys v)"
  shows "has_prefix_match (a @ p) (synthetic_key_prefixes v)"
proof -
  from assms(1,2) obtain x p' where p: "p = x # p'" by (cases p) auto
  from assms(2) p obtain y r where k: "k = x # y # r" by (cases k; cases "tl k") (auto simp: strict_prefix_def)
  have m: "(x, y) \<in> set (synthetic_key_prefixes v)"
    using assms(3) k by (force simp: synthetic_key_prefixes_def set_map_filter_iff)
  show ?thesis
  proof (cases p')
    case Nil
    with p m show ?thesis by (auto simp: has_prefix_match_def list_ex_iff intro!: bexI [of _ "(x, y)"])
  next
    case (Cons z q)
    with assms(2) p k have "z = y" by (simp add: strict_prefix_def)
    with Cons p m show ?thesis
      by (simp add: has_prefix_match_def windows2_mem list_ex_iff)
  qed
qed

lemma last_occurrence_SomeD: "last_occurrence n h = Some i \<Longrightarrow> prefix n (drop i h)"
  unfolding last_occurrence_def Let_def
  using last_in_set [of "filter (\<lambda>i. prefix n (drop i h)) [0..<Suc (length h) - length n]"]
  by (auto split: if_splits)

lemma vault_ok_key_len: "vault_ok build v \<Longrightarrow> k \<in> set (synthetic_keys v) \<Longrightarrow> length k \<le> max_synthetic_key_len v"
  by (simp add: vault_ok_def vectors_ok_def max_len_ge)

text \<open>
  C15. The beginning of a synthetic value is never released: when the processed text ends with a
  proper non-empty prefix of a synthetic value of the vault, the flush stops at or before it, so
  the value can still be recognised when its rest arrives.
\<close>

theorem partial_key_held:
  assumes "vault_ok build v" and "utf8_valid (a @ p)" and "p \<noteq> []" and "strict_prefix p k"
    and "k \<in> set (synthetic_keys v)" and "\<not> sublist XML_TOKEN_OPEN p"
  shows "find_char_boundary (a @ p)
     (compute_safe_flush_len (a @ p) (max_synthetic_key_len v) (synthetic_key_prefixes v)) \<le> length a"
proof (cases "xml_token_holdback_pos (a @ p)")
  case (Some i)
  then have "prefix XML_TOKEN_OPEN (drop i (a @ p))"
    by (auto simp: xml_token_holdback_pos_def dest!: last_occurrence_SomeD split: option.splits if_splits)
  have "i \<le> length a"
  proof (rule ccontr)
    assume "\<not> i \<le> length a"
    then have "drop i (a @ p) = drop (i - length a) p" by simp
    with \<open>prefix XML_TOKEN_OPEN (drop i (a @ p))\<close> have "sublist XML_TOKEN_OPEN p"
      by (metis prefix_imp_sublist sublist_drop sublist_order.order.trans)
    with assms(6) show False by simp
  qed
  then show ?thesis
    using Some find_char_boundary_ok(2) [of "a @ p" i] by (simp add: compute_safe_flush_len_def)
next
  case None
  let ?x = "a @ p" and ?m = "max_synthetic_key_len v"
  have "length k \<le> ?m" using assms(1,5) by (rule vault_ok_key_len)
  moreover have "length p < length k" using assms(4) by (simp add: prefix_length_less)
  ultimately have pm: "length p < ?m" by simp
  show ?thesis
  proof (cases "?m < length ?x")
    case False
    then show ?thesis
      using None has_prefix_match_suffix [OF assms(3-5), of a]
      by (simp add: compute_safe_flush_len_def find_char_boundary_def)
  next
    case True
    let ?ts = "find_char_boundary ?x (length ?x - ?m)"
    have ts: "is_char_boundary ?x ?ts" "?ts \<le> length ?x - ?m" by (rule find_char_boundary_ok)+
    then have le: "?ts \<le> length a" using pm by simp
    have "str_get ?x ?ts (length ?x) = Some (drop ?ts ?x)"
      using ts(1) boundary_le [OF ts(1)] boundary_length [of ?x] unfolding str_get_def by simp
    moreover have "drop ?ts ?x = drop ?ts a @ p" using le by simp
    ultimately have "compute_safe_flush_len ?x ?m (synthetic_key_prefixes v) = ?ts"
      using None True has_prefix_match_suffix [OF assms(3-5), of "drop ?ts a"]
      by (simp add: compute_safe_flush_len_def Let_def)
    then show ?thesis using find_char_boundary_ok(2) [of ?x ?ts] le by simp
  qed
qed

theorem partial_key_held_witness:
  "find_char_boundary ''Dear Alice B''
     (compute_safe_flush_len ''Dear Alice B'' (max_synthetic_key_len sample_vault)
       (synthetic_key_prefixes sample_vault)) \<le> 5"
proof -
  have "strict_prefix ''Alice B'' ''Alice Brown''" "\<not> sublist XML_TOKEN_OPEN ''Alice B''" by code_simp+
  then show ?thesis
    using partial_key_held [OF sample_vault_ok, of "''Dear ''" "''Alice B''" "''Alice Brown''"]
    by (simp add: sample_vault_keys ascii_literal byte_def)
qed

section \<open>Tokens\<close>

text \<open>A token's parts as the pipeline makes them: no quote or bracket in the identifier.\<close>

definition token_parts :: "bytes \<Rightarrow> bytes \<Rightarrow> bool" where
  "token_parts tid dv \<longleftrightarrow> QUOTE \<notin> set tid \<and> CHR ''>'' \<notin> set tid \<and> CHR ''<'' \<notin> set tid \<and> CHR ''<'' \<notin> set dv"

lemma xml_token_open: "prefix XML_TOKEN_OPEN (xml_token tid dv @ r)"
  by (simp add: xml_token_def XML_TOKEN_OPEN_def)

lemma xml_token_close:
  assumes "token_parts tid dv"
  shows "find_sub XML_TOKEN_CLOSE (xml_token tid dv @ r) = Some (length (xml_token tid dv) - 6)"
proof -
  let ?m = "''pii id='' @ [QUOTE] @ tid @ [QUOTE] @ ''>'' @ dv"
  have m: "CHR ''<'' \<notin> set ?m" using assms by (auto simp: token_parts_def)
  have e: "xml_token tid dv @ r = CHR ''<'' # ?m @ XML_TOKEN_CLOSE @ r"
    by (simp add: xml_token_def XML_TOKEN_CLOSE_def)
  have "find_sub XML_TOKEN_CLOSE (XML_TOKEN_CLOSE @ r) = Some 0" by (simp add: XML_TOKEN_CLOSE_def)
  then have "find_sub XML_TOKEN_CLOSE (?m @ XML_TOKEN_CLOSE @ r) = Some (length ?m)"
    using find_sub_skip [OF m, of "''/pii>''" "XML_TOKEN_CLOSE @ r"] by (simp add: XML_TOKEN_CLOSE_def)
  then have "find_sub XML_TOKEN_CLOSE (CHR ''<'' # ?m @ XML_TOKEN_CLOSE @ r) = Some (Suc (length ?m))"
    by (simp add: XML_TOKEN_CLOSE_def)
  moreover have "length (xml_token tid dv) - 6 = Suc (length ?m)" by (simp add: xml_token_def)
  ultimately show ?thesis unfolding e by simp
qed

lemma restore_ref_token:
  assumes "token_parts tid dv" and "\<not> sublist XML_TOKEN_OPEN g"
  shows "restore_ref l5 tok (g @ xml_token tid dv @ r) = l5 g @ tok (xml_token tid dv) @ restore_ref l5 tok r"
proof -
  have o: "find_sub XML_TOKEN_OPEN (g @ xml_token tid dv @ r) = Some (length g)"
    by (rule find_sub_after_gap [OF _ assms(2) xml_token_open]) (simp add: head_unique_def XML_TOKEN_OPEN_def)
  have l: "6 \<le> length (xml_token tid dv)" by (simp add: xml_token_def)
  have e: "length g + (length (xml_token tid dv) - 6) + 6 = length (g @ xml_token tid dv)" using l by simp
  show ?thesis
    using o xml_token_close [OF assms(1), of r] l e
    by (subst restore_ref.simps) simp
qed

lemma extract_id: "token_parts tid dv \<Longrightarrow> extract_xml_attr (xml_token tid dv) ''id'' = Some tid"
proof -
  assume t: "token_parts tid dv"
  have f: "find_sub (''id='' @ [QUOTE]) (xml_token tid dv) = Some 5"
    by (simp add: xml_token_def eval_nat_numeral)
  have d: "drop 9 (xml_token tid dv) = tid @ QUOTE # ''>'' @ dv @ ''</pii>''"
    by (simp add: xml_token_def eval_nat_numeral)
  have "find_sub [QUOTE] (tid @ QUOTE # ''>'' @ dv @ ''</pii>'') = Some (length tid)"
    using t find_sub_skip [of QUOTE tid "[]"] by (simp add: token_parts_def)
  with f d show ?thesis by (simp add: extract_xml_attr_def Let_def)
qed

lemma extract_inner: "token_parts tid dv \<Longrightarrow> extract_xml_inner (xml_token tid dv) = Some dv"
proof -
  assume t: "token_parts tid dv"
  let ?h = "''<pii id='' @ [QUOTE] @ tid @ [QUOTE]"
  have e: "xml_token tid dv = ?h @ CHR ''>'' # dv @ ''</pii>''" by (simp add: xml_token_def)
  have "CHR ''>'' \<notin> set ?h" using t by (auto simp: token_parts_def)
  then have f: "find_sub ''>'' (xml_token tid dv) = Some (length ?h)"
    unfolding e by (subst find_sub_skip) simp_all
  have r: "rfind_sub ''</'' (xml_token tid dv) = Some (length ?h + 1 + length dv)"
    unfolding e by (simp add: rfind_sub_def)
  have d: "drop (length ?h + 1) (xml_token tid dv) = dv @ ''</pii>''" unfolding e by simp
  show ?thesis unfolding extract_xml_inner_def f r by (simp only: option.case Let_def d) simp
qed

text \<open>
  How a token comes back: by its exact text if that was registered, else by its identifier even
  where the model changed the text inside, else by the text inside even where the identifier is
  unknown, and otherwise unchanged.
\<close>

theorem restore_token_levels:
  assumes "token_parts tid dv"
  shows "restore_token v (xml_token tid dv) =
     (case hm_get (full_token_to_original v) (xml_token tid dv) of Some og \<Rightarrow> og
      | None \<Rightarrow> (case get_by_token_id v tid of Some og \<Rightarrow> og
      | None \<Rightarrow> (case get_by_display_value v dv of Some og \<Rightarrow> og | None \<Rightarrow> xml_token tid dv)))"
  using extract_id [OF assms] extract_inner [OF assms]
  by (simp add: restore_token_def split: option.splits)

definition token_vault :: pii_vault where
  "token_vault = add_mapping_with_token_id naive_build ''Jo Doe'' ''Al Ray'' ''a3f9b2c1'' PersonName 1 1
     (vault_new zero_hash ''c'')"

lemma token_vault_lookups:
  "get_by_token_id token_vault ''a3f9b2c1'' = Some ''Jo Doe''"
  "hm_get (full_token_to_original token_vault) (xml_token ''a3f9b2c1'' dv)
     = (if dv = ''Al Ray'' then Some ''Jo Doe'' else None)"
  "synthetic_keys token_vault = [''Al Ray'']" "original_values token_vault = [''Jo Doe'']"
  by (simp_all add: token_vault_def add_mapping_with_token_id_def Let_def get_by_token_id_def hm_simps
      vault_new_def empty_vault_def insert_mapping_raw_with_token_id_def xml_token_def)

theorem restore_token_levels_witness:
  "restore_token token_vault (xml_token ''a3f9b2c1'' ''Mr. Ray'') = ''Jo Doe''"
proof -
  have "token_parts ''a3f9b2c1'' ''Mr. Ray''" by (simp add: token_parts_def)
  from restore_token_levels [OF this, of token_vault] show ?thesis by (simp add: token_vault_lookups)
qed

text \<open>A text of gaps and tokens, each token registered for its original.\<close>

definition tokens_known :: "pii_vault \<Rightarrow> (bytes \<times> bytes \<times> bytes) list \<Rightarrow> bool" where
  "tokens_known v toks \<longleftrightarrow>
     (\<forall>(tid, dv, og)\<in>set toks. token_parts tid dv
        \<and> hm_get (full_token_to_original v) (xml_token tid dv) = Some og)"

definition token_text :: "bytes list \<Rightarrow> (bytes \<times> bytes \<times> bytes) list \<Rightarrow> bytes" where
  "token_text gs toks = interleave gs (map (\<lambda>(tid, dv, og). xml_token tid dv) toks)"

lemma restored_token_text:
  assumes "tokens_known v toks" and "list_all (untouched v) gs" and "length gs = Suc (length toks)"
  shows "restored v (token_text gs toks) = interleave gs (map (\<lambda>(tid, dv, og). og) toks)"
  using assms
proof (induction toks arbitrary: gs)
  case Nil
  then obtain g where "gs = [g]" by (auto simp: length_Suc_conv)
  with Nil show ?case by (simp add: token_text_def restored_untouched)
next
  case (Cons t toks)
  obtain tid dv og where t: "t = (tid, dv, og)" by (cases t) auto
  from Cons.prems(3) obtain g gs' where gs: "gs = g # gs'" "length gs' = Suc (length toks)"
    by (auto simp: length_Suc_conv)
  have tp: "token_parts tid dv" "hm_get (full_token_to_original v) (xml_token tid dv) = Some og"
    using Cons.prems(1) t by (auto simp: tokens_known_def)
  have g: "\<not> sublist XML_TOKEN_OPEN g" "subst_longest (reverse_pairs v) g = g"
    using Cons.prems(2) gs by (auto simp: untouched_def intro: subst_reverse_id)
  have "restored v (token_text gs (t # toks)) = g @ og @ restored v (token_text gs' toks)"
    using restore_ref_token [OF tp(1) g(1), of "subst_longest (reverse_pairs v)" "restore_token v"] g(2) tp(2)
    by (simp add: restored_def token_text_def gs t restore_token_def)
  moreover have "restored v (token_text gs' toks) = interleave gs' (map (\<lambda>(tid, dv, og). og) toks)"
    using Cons gs by (intro Cons.IH) (auto simp: tokens_known_def)
  ultimately show ?case by (simp add: gs t)
qed

text \<open>
  A text in which every sensitive value is a registered token, and whose remaining text mentions
  no token and no synthetic value, is restored exactly: each token becomes its original and
  nothing else changes.
\<close>

theorem cascade_restores_tokens:
  assumes "vault_fit build v" and "tokens_known v toks" and "list_all (untouched v) gs"
    and "length gs = Suc (length toks)" and "utf8_valid (token_text gs toks)"
  shows "apply_xml_token_cascade v (token_text gs toks) = Done (interleave gs (map (\<lambda>(tid, dv, og). og) toks))"
  using cascade_ref [OF vault_fit_level5 [OF assms(1)] assms(5)] restored_token_text [OF assms(2-4)]
  by (simp add: restored_def)

lemma token_vault_fit: "vault_fit naive_build token_vault"
proof -
  have "vault_ok naive_build token_vault"
    unfolding token_vault_def by (intro vault_ok_add_mapping_with_token_id vault_ok_new)
  then show ?thesis
    by (simp add: vault_fit_def naive.leftmost_longest_axioms naive_build_def keys_ok_def token_vault_lookups
        ascii_literal byte_def)
qed

theorem cascade_restores_tokens_witness:
  "apply_xml_token_cascade token_vault (''Hi '' @ xml_token ''a3f9b2c1'' ''Al Ray'' @ ''!'') = Done ''Hi Jo Doe!''"
proof -
  have g: "untouched token_vault ''Hi ''" "untouched token_vault ''!''"
    unfolding untouched_def token_vault_lookups XML_TOKEN_OPEN_def by code_simp+
  have t: "tokens_known token_vault [(''a3f9b2c1'', ''Al Ray'', ''Jo Doe'')]"
    by (simp add: tokens_known_def token_parts_def token_vault_lookups)
  show ?thesis
    using cascade_restores_tokens [OF token_vault_fit t, of "[''Hi '', ''!'']"] g
    by (simp add: token_text_def xml_token_def ascii_literal byte_def)
qed

section \<open>An opening tag cut by the network\<close>

lemma has_prefix_match_drop:
  assumes "n < length t" and "has_prefix_match (drop n t) trig"
  shows "has_prefix_match t trig"
proof -
  have w: "set (windows2 (drop n t)) \<subseteq> set (windows2 t)"
  proof (induction n arbitrary: t)
    case (Suc n)
    then show ?case by (cases t rule: windows2.cases) (auto dest: Suc [THEN subsetD])
  qed simp
  have "drop n t \<noteq> []" "last (drop n t) = last t" using assms(1) by auto
  with assms(2) w show ?thesis by (auto simp: has_prefix_match_def list_ex_iff split: if_splits)
qed

lemma fit_max_pos:
  assumes "vault_fit build v" and "\<not> vault_is_empty v"
  shows "0 < max_synthetic_key_len v"
proof -
  have ok: "vault_ok build v" "keys_ok v" using assms(1) by (auto simp: vault_fit_def)
  have "synthetic_keys v \<noteq> []"
  proof
    assume "synthetic_keys v = []"
    then have "hm_len (original_to_synthetic v) = 0"
      using ok(1) by (simp add: vault_ok_def vectors_ok_def)
    with assms(2) show False by (simp add: vault_is_empty_def hm_len_def)
  qed
  then obtain k where k: "k \<in> set (synthetic_keys v)" by (cases "synthetic_keys v") auto
  then have "k \<noteq> []" using ok(2) by (auto simp: keys_ok_def)
  with vault_ok_key_len [OF ok(1) k] show ?thesis by (cases k) auto
qed

text \<open>
  The holdback looks for a complete \<open><pii\<close>. A delta that ends inside those four bytes, with no
  synthetic value in it, is released whole: the rest of the tag then arrives alone and the token
  is never recognised (the comment says that split tokens are never flushed).
\<close>

theorem split_open_tag_released:
  assumes "vault_fit build v" and "\<not> vault_is_empty v" and "utf8_valid t"
    and "t = a @ ''<pi''" and "untouched v t" and "\<not> has_prefix_match t (synthetic_key_prefixes v)"
  shows "\<exists>rb. process_delta v t rb_new = Done (t, rb) \<and> rb_buffer rb = []"
proof -
  have c: "apply_xml_token_cascade v t = Done t"
    using cascade_ref [OF vault_fit_level5 [OF assms(1)] assms(3)] restored_untouched [OF assms(5)]
    by (simp add: restored_def)
  have no: "last_occurrence XML_TOKEN_OPEN t = None"
  proof (rule ccontr)
    assume "last_occurrence XML_TOKEN_OPEN t \<noteq> None"
    then obtain i where "prefix XML_TOKEN_OPEN (drop i t)" using last_occurrence_SomeD by blast
    then have "sublist XML_TOKEN_OPEN t"
      by (metis prefix_imp_sublist sublist_drop sublist_order.order.trans)
    with assms(5) show False by (simp add: untouched_def)
  qed
  have tail: "\<not> has_prefix_match (drop n t) (synthetic_key_prefixes v)" if "n < length t" for n
    using assms(6) that has_prefix_match_drop by blast
  have "find_char_boundary t (length t - max_synthetic_key_len v) < length t" if "max_synthetic_key_len v < length t"
    using find_char_boundary_ok(2) [of t "length t - max_synthetic_key_len v"] that fit_max_pos [OF assms(1,2)]
    by linarith
  then have s: "compute_safe_flush_len t (max_synthetic_key_len v) (synthetic_key_prefixes v) = length t"
    using no assms(6) tail
    by (auto simp: compute_safe_flush_len_def xml_token_holdback_pos_def Let_def str_get_def boundary_le)
  have "find_char_boundary t (length t) = length t"
    using boundary_length [of t] by (cases "length t") (simp_all add: find_char_boundary_def)
  moreover have "mapping_count v \<noteq> 0" using assms(2) by (simp add: vault_is_empty_def mapping_count_def hm_len_eq_0_iff)
  moreover have "t \<noteq> []" using assms(4) by simp
  ultimately show ?thesis
    using assms(2) c s
    by (simp add: process_delta_def refresh_triggers_def rb_new_def Let_def str_get_def)
qed

theorem split_open_tag_released_witness:
  "\<exists>rb. process_delta token_vault ''Hi <pi'' rb_new = Done (''Hi <pi'', rb) \<and> rb_buffer rb = []"
proof (rule split_open_tag_released [OF token_vault_fit, of _ "''Hi ''"])
  show "\<not> vault_is_empty token_vault"
    by (simp add: vault_is_empty_def token_vault_def add_mapping_with_token_id_def Let_def
        vault_new_def empty_vault_def insert_mapping_raw_with_token_id_def rebuild_automaton_def
        naive_build_def hm_simps)
  show "untouched token_vault ''Hi <pi''"
    unfolding untouched_def token_vault_lookups XML_TOKEN_OPEN_def by code_simp
  show "\<not> has_prefix_match ''Hi <pi'' (synthetic_key_prefixes token_vault)"
    by (simp add: synthetic_key_prefixes_def token_vault_lookups has_prefix_match_def)
qed (simp_all add: ascii_literal byte_def)

end
