(* ===== verification/Json_Value.thy ===== *)
theory Json_Value
  imports Complex_Main Rust_Str
begin

text \<open>
  What the code uses of \<open>serde_json::Value\<close>: the value type with objects as sorted maps
  (the crate is built without \<open>preserve_order\<close>), the accessors, JSON pointers and updates.

  Reading and writing the text of a value is the crate's work and a parameter of the definitions
  that do it: \<open>parse\<close> from text to a value or nothing, \<open>print\<close> from a value to text or nothing.
\<close>

datatype json_number = PosInt nat | NegInt int | Float rat

datatype json =
    JNull
  | JBool bool
  | JNum json_number
  | JStr bytes
  | JArr "json list"
  | JObj "(bytes \<times> json) list"

type_synonym json_parser = "bytes \<Rightarrow> json option"
type_synonym json_printer = "json \<Rightarrow> bytes option"

section \<open>Objects\<close>

fun bytes_less :: "bytes \<Rightarrow> bytes \<Rightarrow> bool" where
  "bytes_less [] [] = False"
| "bytes_less [] (b # bs) = True"
| "bytes_less (a # as) [] = False"
| "bytes_less (a # as) (b # bs) = (byte a < byte b \<or> a = b \<and> bytes_less as bs)"

fun obj_insert :: "bytes \<Rightarrow> json \<Rightarrow> (bytes \<times> json) list \<Rightarrow> (bytes \<times> json) list" where
  "obj_insert k v [] = [(k, v)]"
| "obj_insert k v ((k', v') # m) =
     (if k = k' then (k, v) # m
      else if bytes_less k k' then (k, v) # (k', v') # m
      else (k', v') # obj_insert k v m)"

text \<open>\<open>json!({ ... })\<close>.\<close>

definition json_obj :: "(bytes \<times> json) list \<Rightarrow> json" where
  "json_obj kvs = JObj (fold (\<lambda>(k, v). obj_insert k v) kvs [])"

section \<open>Accessors\<close>

fun jget :: "json \<Rightarrow> bytes \<Rightarrow> json option" where
  "jget (JObj m) k = map_of m k"
| "jget v k = None"

text \<open>\<open>v[k]\<close> as a value: \<open>Null\<close> where there is nothing.\<close>

definition jindex :: "json \<Rightarrow> bytes \<Rightarrow> json" where
  "jindex v k = (case jget v k of Some x \<Rightarrow> x | None \<Rightarrow> JNull)"

fun as_str :: "json \<Rightarrow> bytes option" where
  "as_str (JStr s) = Some s"
| "as_str v = None"

fun as_array :: "json \<Rightarrow> json list option" where
  "as_array (JArr xs) = Some xs"
| "as_array v = None"

fun as_i64 :: "json \<Rightarrow> int option" where
  "as_i64 (JNum (PosInt n)) = (if n < 2 ^ 63 then Some (int n) else None)"
| "as_i64 (JNum (NegInt i)) = Some i"
| "as_i64 v = None"

fun first :: "'a list \<Rightarrow> 'a option" where
  "first [] = None"
| "first (x # xs) = Some x"

text \<open>\<open>and_then\<close> on options, as the \<open>?\<close> operator and \<open>Option::and_then\<close> chain it.\<close>

definition obind :: "'a option \<Rightarrow> ('a \<Rightarrow> 'b option) \<Rightarrow> 'b option" where
  "obind m f = (case m of None \<Rightarrow> None | Some x \<Rightarrow> f x)"

lemma obind_simps [simp]: "obind None f = None" "obind (Some x) f = f x"
  by (simp_all add: obind_def)

lemma obind_Some_iff: "obind m f = Some y \<longleftrightarrow> (\<exists>x. m = Some x \<and> f x = Some y)"
  by (cases m) simp_all

text \<open>\<open>v.get(k).and_then(|x| x.as_str())\<close>.\<close>

definition get_str :: "json \<Rightarrow> bytes \<Rightarrow> bytes option" where
  "get_str v k = obind (jget v k) as_str"

definition get_array :: "json \<Rightarrow> bytes \<Rightarrow> json list option" where
  "get_array v k = obind (jget v k) as_array"

text \<open>\<open>v[k] = x\<close>: inserts into an object, turns \<open>Null\<close> into one, panics on anything else.\<close>

fun json_assign :: "json \<Rightarrow> bytes \<Rightarrow> json \<Rightarrow> json outcome" where
  "json_assign (JObj m) k x = Done (JObj (obj_insert k x m))"
| "json_assign JNull k x = Done (JObj [(k, x)])"
| "json_assign v k x = Panic"

section \<open>Pointers\<close>

datatype pointer_step = Key bytes | Idx nat

fun step_get :: "json \<Rightarrow> pointer_step \<Rightarrow> json option" where
  "step_get v (Key k) = jget v k"
| "step_get (JArr xs) (Idx i) = get_at xs i"
| "step_get v (Idx i) = None"

fun pointer_get :: "json \<Rightarrow> pointer_step list \<Rightarrow> json option" where
  "pointer_get v [] = Some v"
| "pointer_get v (p # ps) = obind (step_get v p) (\<lambda>w. pointer_get w ps)"

text \<open>\<open>if let Some(t) = v.pointer_mut(p) { *t = x }\<close>: unchanged where the path does not exist.\<close>

fun map_entry :: "bytes \<Rightarrow> ('a \<Rightarrow> 'a) \<Rightarrow> (bytes \<times> 'a) list \<Rightarrow> (bytes \<times> 'a) list" where
  "map_entry k f [] = []"
| "map_entry k f ((k', v) # m) = (if k' = k then (k', f v) # m else (k', v) # map_entry k f m)"

fun step_map :: "pointer_step \<Rightarrow> (json \<Rightarrow> json) \<Rightarrow> json \<Rightarrow> json" where
  "step_map (Key k) f (JObj m) = JObj (map_entry k f m)"
| "step_map (Idx i) f (JArr xs) = (if i < length xs then JArr (xs[i := f (xs ! i)]) else JArr xs)"
| "step_map p f v = v"

fun pointer_set :: "pointer_step list \<Rightarrow> json \<Rightarrow> json \<Rightarrow> json" where
  "pointer_set [] x v = x"
| "pointer_set (p # ps) x v = step_map p (pointer_set ps x) v"

section \<open>Laws\<close>

lemma map_of_obj_insert: "map_of (obj_insert k v m) = (map_of m)(k \<mapsto> v)"
  by (induction k v m rule: obj_insert.induct) auto

lemma map_of_map_entry: "map_of (map_entry k f m) k' = (if k' = k then map_option f (map_of m k) else map_of m k')"
  by (induction m) auto

lemma jget_assign: "json_assign v k x = Done w \<Longrightarrow> jget w k' = (if k' = k then Some x else jget v k')"
  by (cases v) (auto simp: map_of_obj_insert)

lemma step_get_map: "step_get (step_map p f v) p = map_option f (step_get v p)"
  by (cases p; cases v) (auto simp: map_of_map_entry get_at_def)

lemma pointer_get_set: "pointer_get v ps \<noteq> None \<Longrightarrow> pointer_get (pointer_set ps x v) ps = Some x"
proof (induction ps arbitrary: v)
  case (Cons p ps)
  then obtain w where "step_get v p = Some w" "pointer_get w ps \<noteq> None"
    by (cases "step_get v p") auto
  with Cons.IH show ?case by (simp add: step_get_map)
qed simp

lemma step_map_missing: "step_get v p = None \<Longrightarrow> step_map p f v = v"
proof (cases p)
  case (Key k)
  have "map_of m k = None \<Longrightarrow> map_entry k f m = m" for m by (induction m) (auto split: if_splits)
  then show "step_get v p = None \<Longrightarrow> step_map p f v = v" using Key by (cases v) auto
next
  case (Idx i)
  then show "step_get v p = None \<Longrightarrow> step_map p f v = v" by (cases v) (auto simp: get_at_def split: if_splits)
qed

end
