(* ===== verification/Sse.thy ===== *)
theory Sse
  imports Rust_Str
begin

text \<open>
  The server-sent-event parser of \<open>src/src/parser/sse.rs\<close> and the event printer of
  \<open>src/src/proxy/intercept/pii_sse.rs\<close>.

  The parser is an instance of \<open>chunk_stream\<close>: the events of a byte stream do not depend on how the
  network cuts it.
\<close>

section \<open>The parser\<close>

record sse_event =
  event_type :: "bytes option"
  event_data :: bytes

text \<open>The loop tests CR LF CR LF before LF LF at each index.\<close>

fun find_double_newline :: "bytes \<Rightarrow> (nat \<times> nat) option" where
  "find_double_newline [] = None"
| "find_double_newline (c # cs) =
     (if prefix [CR, LF, CR, LF] (c # cs) then Some (0, 4)
      else if prefix [LF, LF] (c # cs) then Some (0, 2)
      else map_option (\<lambda>(b, d). (Suc b, Suc d)) (find_double_newline cs))"

fun scan_lines :: "bytes list \<Rightarrow> bytes option \<Rightarrow> bytes list \<Rightarrow> bytes option \<times> bytes list" where
  "scan_lines [] et parts = (et, parts)"
| "scan_lines (line # ls) et parts =
     (case strip_prefix ''event:'' line of
        Some val \<Rightarrow> scan_lines ls (Some (trim val)) parts
      | None \<Rightarrow>
          (case strip_prefix ''data:'' line of
             Some val \<Rightarrow> scan_lines ls et (parts @ [trim val])
           | None \<Rightarrow> scan_lines ls et parts))"

fun join :: "bytes \<Rightarrow> bytes list \<Rightarrow> bytes" where
  "join sep [] = []"
| "join sep [x] = x"
| "join sep (x # y # ys) = x @ sep @ join sep (y # ys)"

definition parse_event_block :: "bytes \<Rightarrow> sse_event option" where
  "parse_event_block block =
     (if \<not> utf8_valid block then None
      else (let (et, parts) = scan_lines (str_lines block) None [] in
            if parts = [] then None
            else Some \<lparr>event_type = et, event_data = join [LF] parts\<rparr>))"

lemma find_double_newline_bound:
  "find_double_newline buf = Some (b, d) \<Longrightarrow> b < d \<and> d \<le> length buf"
  by (induction buf arbitrary: b d) (auto split: if_splits dest: prefix_length_le)

function sse_drain :: "bytes \<Rightarrow> sse_event list \<times> bytes" where
  "sse_drain buf =
     (case find_double_newline buf of None \<Rightarrow> ([], buf)
      | Some (block_end, drain_end) \<Rightarrow>
          (let (evs, rest) = sse_drain (drop drain_end buf)
           in (case parse_event_block (take block_end buf) of None \<Rightarrow> evs | Some e \<Rightarrow> e # evs, rest)))"
  by pat_completeness auto
termination
  by (relation "measure length") (auto dest!: find_double_newline_bound)

declare sse_drain.simps [simp del]

text \<open>The parser's state is its buffer.\<close>

definition sse_push :: "bytes \<Rightarrow> bytes \<Rightarrow> sse_event list \<times> bytes" where
  "sse_push buf bs = sse_drain (buf @ bs)"

definition is_done_sentinel :: "sse_event \<Rightarrow> bool" where
  "is_done_sentinel e \<longleftrightarrow> trim (event_data e) = ''[DONE]''"

section \<open>The printer\<close>

definition reconstruct_sse_event_bytes :: "bytes option \<Rightarrow> bytes \<Rightarrow> bytes" where
  "reconstruct_sse_event_bytes et dat =
     (case et of Some t \<Rightarrow> ''event: '' @ t @ [LF] | None \<Rightarrow> [])
     @ ''data: '' @ dat @ [LF] @ [LF]"

section \<open>Cutting the stream\<close>

lemma find_double_newline_append:
  "find_double_newline a = Some (b, d) \<Longrightarrow> find_double_newline (a @ r) = Some (b, d)"
proof (induction a arbitrary: b d)
  case Nil
  then show ?case by simp
next
  case (Cons c cs)
  show ?case
  proof (cases "prefix [CR, LF, CR, LF] (c # cs) \<or> prefix [LF, LF] (c # cs)")
    case True
    with Cons.prems show ?thesis by (auto simp: prefix_def split: if_splits)
  next
    case False
    with Cons.prems obtain b' d' where bd: "find_double_newline cs = Some (b', d')" "b = Suc b'" "d = Suc d'"
      by (auto split: if_splits)
    have "\<not> prefix [LF, LF] (c # cs @ r)"
    proof
      assume "prefix [LF, LF] (c # cs @ r)"
      moreover have "cs \<noteq> []" using bd(1) by auto
      ultimately show False using False by (cases cs) auto
    qed
    moreover have "\<not> prefix [CR, LF, CR, LF] (c # cs @ r)"
    proof
      assume p: "prefix [CR, LF, CR, LF] (c # cs @ r)"
      with False have "length cs < 3"
        by (cases cs; cases "tl cs"; cases "tl (tl cs)") (auto simp: neq_Nil_conv)
      with bd(1) p show False
        by (cases cs; cases "tl cs"; cases "tl (tl cs)") (auto split: if_splits)
    qed
    ultimately show ?thesis using bd Cons.IH [OF bd(1)] False by simp
  qed
qed

lemma sse_drain_append:
  "sse_drain (a @ b) = (let (e1, s1) = sse_drain a; (e2, s2) = sse_drain (s1 @ b) in (e1 @ e2, s2))"
proof (induction a rule: sse_drain.induct)
  case (1 a)
  show ?case
  proof (cases "find_double_newline a")
    case None
    then have "sse_drain a = ([], a)" by (subst sse_drain.simps) simp
    then show ?thesis by simp
  next
    case (Some bd)
    obtain k d where bd: "bd = (k, d)" by fastforce
    note f = Some [unfolded bd]
    have le: "k < d" "d \<le> length a" using find_double_newline_bound [OF f] by auto
    have "sse_drain (a @ b) =
        (let (evs, rest) = sse_drain (drop d a @ b)
         in (case parse_event_block (take k a) of None \<Rightarrow> evs | Some e \<Rightarrow> e # evs, rest))"
      using find_double_newline_append [OF f, of b] le by (subst sse_drain.simps) simp
    moreover have "sse_drain a =
        (let (evs, rest) = sse_drain (drop d a)
         in (case parse_event_block (take k a) of None \<Rightarrow> evs | Some e \<Rightarrow> e # evs, rest))"
      using f by (subst sse_drain.simps) simp
    ultimately show ?thesis
      using 1 [OF Some bd [symmetric]] by (simp add: split_def Let_def split: option.splits)
  qed
qed

interpretation sse: chunk_stream sse_push "\<lambda>_ _. True"
proof unfold_locales
  fix s a b :: bytes
  show "sse_push s (a @ b) = (let (o1, s1) = sse_push s a; (o2, s2) = sse_push s1 b in (o1 @ o2, s2))"
    using sse_drain_append [of "s @ a" b] by (simp add: sse_push_def)
qed simp

text \<open>
  C28. The events parsed from a stream, and the bytes held back for the next event, do not depend on
  how the stream is cut into pieces.
\<close>

theorem sse_chunking:
  assumes "concat cs = concat ds" and "cs \<noteq> []" and "ds \<noteq> []"
  shows "feed sse_push buf cs = feed sse_push buf ds"
  using sse.feed_chunking [OF assms(2,3,1)] by simp

theorem sse_chunking_witness:
  "feed sse_push [] [''data: a'' @ [CR], [LF, CR], LF # ''da''] = feed sse_push [] [''data: a'' @ [CR, LF, CR, LF] @ ''da'']"
  by (rule sse_chunking) simp_all

section \<open>Printing and parsing\<close>

text \<open>A line of text: valid, without line breaks, not blank at its ends.\<close>

definition plain_line :: "bytes \<Rightarrow> bool" where
  "plain_line l \<longleftrightarrow> utf8_valid l \<and> LF \<notin> set l \<and> CR \<notin> set l \<and> trim ('' '' @ l) = l"

lemma str_lines_plain:
  assumes "LF \<notin> set l" and "CR \<notin> set l"
  shows "str_lines (l @ LF # r) = l # str_lines r"
proof -
  have "\<not> (l \<noteq> [] \<and> last l = CR)" using assms(2) last_in_set by fastforce
  with str_lines_line [OF assms(1), of r] show ?thesis by simp
qed

lemma find_double_newline_skip:
  "LF \<notin> set l \<Longrightarrow> CR \<notin> set l \<Longrightarrow>
     find_double_newline (l @ r) = map_option (\<lambda>(b, d). (length l + b, length l + d)) (find_double_newline r)"
proof (induction l)
  case Nil
  then show ?case by (cases "find_double_newline r") auto
next
  case (Cons c cs)
  then show ?case by (cases "find_double_newline r") auto
qed

lemma find_double_newline_event:
  assumes "LF \<notin> set l" and "CR \<notin> set l"
  shows "find_double_newline (l @ LF # LF # r) = Some (length l, length l + 2)"
  using find_double_newline_skip [OF assms] by simp

text \<open>The lines of a printed event.\<close>

definition event_lines :: "bytes option \<Rightarrow> bytes \<Rightarrow> bytes" where
  "event_lines et dat = (case et of Some t \<Rightarrow> ''event: '' @ t @ [LF] | None \<Rightarrow> []) @ ''data: '' @ dat"

lemma reconstruct_lines: "reconstruct_sse_event_bytes et dat = event_lines et dat @ [LF, LF]"
  by (simp add: reconstruct_sse_event_bytes_def event_lines_def split: option.splits)

lemma event_lines_boundary:
  assumes "\<forall>t. et = Some t \<longrightarrow> plain_line t" and "plain_line dat"
  shows "find_double_newline (event_lines et dat @ LF # LF # r) = Some (length (event_lines et dat), length (event_lines et dat) + 2)"
proof (cases et)
  case None
  then show ?thesis
    using assms(2) find_double_newline_event [of "''data: '' @ dat" r] by (auto simp: event_lines_def plain_line_def)
next
  case (Some t)
  with assms have t: "LF \<notin> set (''event: '' @ t)" "CR \<notin> set (''event: '' @ t)"
    and d: "LF \<notin> set (''data: '' @ dat)" "CR \<notin> set (''data: '' @ dat)" by (auto simp: plain_line_def)
  have "find_double_newline (LF # (''data: '' @ dat) @ LF # LF # r)
      = Some (Suc (length (''data: '' @ dat)), Suc (length (''data: '' @ dat) + 2))"
    using find_double_newline_event [OF d, of r] by simp
  then show ?thesis
    using Some find_double_newline_skip [OF t, of "LF # (''data: '' @ dat) @ LF # LF # r"]
    by (simp add: event_lines_def)
qed

lemma parse_event_lines:
  assumes "\<forall>t. et = Some t \<longrightarrow> plain_line t" and "plain_line dat"
  shows "parse_event_block (event_lines et dat) = Some \<lparr>event_type = et, event_data = dat\<rparr>"
proof -
  have lit: "utf8_valid ''data: ''" "utf8_valid ''event: ''" "utf8_valid [LF]"
    by (simp_all add: ascii_literal byte_def)
  have d: "utf8_valid (''data: '' @ dat)" "LF \<notin> set (''data: '' @ dat)" "''data: '' @ dat \<noteq> []"
    using assms(2) by (auto simp: plain_line_def utf8_valid_ascii_Cons byte_def)
  have dl: "str_lines (''data: '' @ dat) = [''data: '' @ dat]" by (rule str_lines_last [OF d(2,3)])
  have ds: "scan_lines [''data: '' @ dat] e [] = (e, [dat])" for e
    using assms(2) by (simp add: strip_prefix_def plain_line_def)
  show ?thesis
  proof (cases et)
    case None
    then show ?thesis using d dl ds by (simp add: parse_event_block_def event_lines_def)
  next
    case (Some t)
    with assms(1) have t: "utf8_valid t" "LF \<notin> set (''event: '' @ t)" "CR \<notin> set t" "trim ('' '' @ t) = t"
      by (auto simp: plain_line_def)
    have "utf8_valid (''event: '' @ t @ [LF] @ ''data: '' @ dat)"
      using t(1) d(1) by (simp add: utf8_valid_ascii_Cons utf8_valid_append_iff byte_def)
    moreover have "str_lines ((''event: '' @ t) @ LF # (''data: '' @ dat)) = (''event: '' @ t) # [''data: '' @ dat]"
      using str_lines_plain [OF t(2)] t(3) dl by simp
    ultimately show ?thesis
      using Some t(4) ds by (simp add: parse_event_block_def event_lines_def strip_prefix_def)
  qed
qed

lemma sse_push_event:
  assumes "\<forall>t. et = Some t \<longrightarrow> plain_line t" and "plain_line dat"
  shows "sse_push [] (reconstruct_sse_event_bytes et dat @ rest) =
     (\<lparr>event_type = et, event_data = dat\<rparr> # fst (sse_push [] rest), snd (sse_push [] rest))"
proof -
  let ?b = "event_lines et dat"
  have "sse_drain (?b @ LF # LF # rest) =
     (let (evs, s) = sse_drain rest
      in (case parse_event_block ?b of None \<Rightarrow> evs | Some e \<Rightarrow> e # evs, s))"
    using event_lines_boundary [OF assms, of rest] by (subst sse_drain.simps) simp
  then show ?thesis
    by (simp add: sse_push_def reconstruct_lines parse_event_lines [OF assms] split_def Let_def)
qed

text \<open>
  An event that the proxy forwards is read back as the same event: printing it and parsing the
  bytes, followed by any further stream, gives the event and then the events of the rest. The
  data must be one line, which is what the JSON serialiser produces.
\<close>

theorem sse_event_roundtrip:
  assumes "\<forall>t. et = Some t \<longrightarrow> plain_line t" and "plain_line dat"
  shows "sse_push [] (reconstruct_sse_event_bytes et dat @ rest) =
     (\<lparr>event_type = et, event_data = dat\<rparr> # fst (sse_push [] rest), snd (sse_push [] rest))"
  by (rule sse_push_event [OF assms])

theorem sse_event_roundtrip_witness:
  "fst (sse_push [] (reconstruct_sse_event_bytes (Some ''message_stop'') ''{}'')) =
     [\<lparr>event_type = Some ''message_stop'', event_data = ''{}''\<rparr>]"
proof -
  have "plain_line ''message_stop''" "plain_line ''{}''"
    by (simp_all add: plain_line_def ascii_literal byte_def trim_ascii blank_byte)
  from sse_event_roundtrip [of "Some ''message_stop''" "''{}''" "[]"] this
  show ?thesis by (simp add: sse_push_def sse_drain.simps)
qed

text \<open>
  An event whose data spans several lines does not survive: the parser joins the data lines with
  a line feed and the printer writes the joined text after one \<open>data:\<close> prefix, so the client sees
  only the first line.
\<close>

theorem sse_multiline_data_truncated:
  assumes "plain_line l" and "plain_line m" and "\<not> prefix ''event:'' m" and "\<not> prefix ''data:'' m" and "m \<noteq> []"
  shows "fst (sse_push [] (reconstruct_sse_event_bytes None (join [LF] [l, m]))) =
     [\<lparr>event_type = None, event_data = l\<rparr>]"
proof -
  let ?b = "(''data: '' @ l) @ LF # m"
  have nl: "LF \<notin> set (''data: '' @ l)" "CR \<notin> set (''data: '' @ l)" "CR \<notin> set l" "LF \<notin> set m" "CR \<notin> set m"
    using assms(1,2) by (auto simp: plain_line_def)
  have lm: "\<exists>c cs. m = c # cs \<and> c \<noteq> LF \<and> c \<noteq> CR" using assms(5) nl by (cases m) auto
  have "find_double_newline (LF # m @ [LF, LF]) = Some (Suc (length m), Suc (length m + 2))"
    using lm find_double_newline_event [OF nl(4,5), of "[]"] by auto
  then have f: "find_double_newline (?b @ [LF, LF]) = Some (length ?b, length ?b + 2)"
    using find_double_newline_skip [OF nl(1,2), of "LF # m @ [LF, LF]"] by simp
  have "utf8_valid ?b"
    using assms(1,2)
    by (simp add: plain_line_def utf8_valid_ascii_Cons utf8_valid_append_iff byte_def)
  moreover have "str_lines ?b = [''data: '' @ l, m]"
    using str_lines_plain [OF nl(1,2), of m] str_lines_last [OF nl(4) assms(5)] by simp
  ultimately have "parse_event_block ?b = Some \<lparr>event_type = None, event_data = l\<rparr>"
    using assms(1,3,4) by (simp add: parse_event_block_def strip_prefix_def plain_line_def)
  moreover have "sse_drain (?b @ [LF, LF]) =
     (let (evs, s) = sse_drain []
      in (case parse_event_block ?b of None \<Rightarrow> evs | Some e \<Rightarrow> e # evs, s))"
    using f by (subst sse_drain.simps) simp
  moreover have "sse_drain [] = ([], [])" by (subst sse_drain.simps) simp
  ultimately show ?thesis
    by (simp add: sse_push_def reconstruct_sse_event_bytes_def)
qed

theorem sse_multiline_data_truncated_witness:
  "fst (sse_push [] (reconstruct_sse_event_bytes None ([CHR ''a'', LF, CHR ''b'']))) =
     [\<lparr>event_type = None, event_data = ''a''\<rparr>]"
proof -
  have "plain_line ''a''" "plain_line ''b''"
    by (simp_all add: plain_line_def ascii_literal byte_def trim_ascii blank_byte)
  from sse_multiline_data_truncated [OF this] show ?thesis by simp
qed

end
