(* ===== verification/Parsers.thy ===== *)
theory Parsers
  imports Json_Value Sse "HOL-Library.Countable"
begin

text \<open>
  The provider parsers of \<open>src/src/parser/\<close>: which provider a host belongs to, the request parsers,
  the text deltas of a streaming response and its token counts. The last part holds the JSON side
  of \<open>src/src/proxy/intercept/pii_sse.rs\<close>: where a delta's text is found and how it is exchanged.
\<close>

section \<open>Providers\<close>

datatype provider = Anthropic | OpenAI | Google | Unknown

definition from_host :: "bytes \<Rightarrow> provider" where
  "from_host host =
     (if sublist ''anthropic.com'' host then Anthropic
      else if sublist ''openai.com'' host then OpenAI
      else if sublist ''googleapis.com'' host then Google
      else Unknown)"

fun provider_as_str :: "provider \<Rightarrow> bytes" where
  "provider_as_str Anthropic = ''anthropic''"
| "provider_as_str OpenAI = ''openai''"
| "provider_as_str Google = ''google''"
| "provider_as_str Unknown = ''unknown''"

record message =
  role :: bytes
  msg_content :: bytes

record parsed_request =
  model :: bytes
  messages :: "message list"

definition unwrap_or :: "'a option \<Rightarrow> 'a \<Rightarrow> 'a" where
  "unwrap_or m d = (case m of Some x \<Rightarrow> x | None \<Rightarrow> d)"

section \<open>Anthropic\<close>

definition text_part :: "json \<Rightarrow> bytes option" where
  "text_part p = (if get_str p ''type'' = Some ''text'' then get_str p ''text'' else None)"

definition nonempty :: "bytes option \<Rightarrow> bytes option" where
  "nonempty m = (case m of Some s \<Rightarrow> if s = [] then None else Some s | None \<Rightarrow> None)"

definition tool_result_text :: "json \<Rightarrow> bytes option" where
  "tool_result_text b =
     (case jget b ''content'' of
        Some (JStr s) \<Rightarrow> Some s
      | Some (JArr blocks) \<Rightarrow> Some (concat (List.map_filter text_part blocks))
      | _ \<Rightarrow> None)"

definition extract_block :: "json_printer \<Rightarrow> json \<Rightarrow> bytes option" where
  "extract_block print b =
     (let ty = get_str b ''type'' in
      if ty = Some ''text'' then nonempty (get_str b ''text'')
      else if ty = Some ''thinking'' then
        map_option (\<lambda>s. ''[thinking] '' @ s) (nonempty (get_str b ''thinking''))
      else if ty = Some ''tool_use'' then
        (let name = unwrap_or (get_str b ''name'') ''unknown'';
             input = unwrap_or (map_option (\<lambda>i. unwrap_or (print i) []) (jget b ''input'')) []
         in Some (''['' @ name @ ''] '' @ input))
      else if ty = Some ''tool_result'' then
        map_option (\<lambda>t. ''[result] '' @ t) (nonempty (tool_result_text b))
      else None)"

definition anthropic_extract_content :: "json_printer \<Rightarrow> json option \<Rightarrow> bytes" where
  "anthropic_extract_content print val =
     (case val of
        Some (JStr s) \<Rightarrow> s
      | Some (JArr blocks) \<Rightarrow> concat (List.map_filter (extract_block print) blocks)
      | _ \<Rightarrow> [])"

definition anthropic_parse_request :: "json_parser \<Rightarrow> json_printer \<Rightarrow> bytes \<Rightarrow> parsed_request option" where
  "anthropic_parse_request parse print body =
     obind (parse body) (\<lambda>v.
     obind (jget v ''model'') (\<lambda>mv.
     obind (as_str mv) (\<lambda>m.
       let sys = (case get_str v ''system'' of
                    Some s \<Rightarrow> [\<lparr>role = ''system'', msg_content = s\<rparr>] | None \<Rightarrow> []);
           msgs = (case get_array v ''messages'' of
                     Some ms \<Rightarrow> map (\<lambda>x. \<lparr>role = unwrap_or (get_str x ''role'') ''user'',
                                          msg_content = anthropic_extract_content print (jget x ''content'')\<rparr>) ms
                   | None \<Rightarrow> [])
       in Some \<lparr>model = m, messages = sys @ msgs\<rparr>)))"

definition anthropic_extract_sse_delta :: "json_parser \<Rightarrow> sse_event \<Rightarrow> bytes option" where
  "anthropic_extract_sse_delta parse e =
     (if event_type e = Some ''content_block_start'' then
        obind (parse (event_data e)) (\<lambda>v.
        obind (jget v ''content_block'') (\<lambda>cb.
        obind (get_str cb ''type'') (\<lambda>block_type.
          if block_type = ''tool_use'' then
            obind (jget cb ''name'') (\<lambda>n.
              Some ([LF] @ ''['' @ unwrap_or (as_str n) ''unknown'' @ ''] ''))
          else None)))
      else if event_type e = Some ''content_block_delta'' then
        obind (parse (event_data e)) (\<lambda>v.
        obind (jget v ''delta'') (\<lambda>delta.
        obind (get_str delta ''type'') (\<lambda>ty.
          if ty = ''text_delta'' then get_str delta ''text''
          else if ty = ''input_json_delta'' then get_str delta ''partial_json''
          else if ty = ''thinking_delta'' then
            map_option (\<lambda>s. ''[thinking] '' @ s) (nonempty (get_str delta ''thinking''))
          else None)))
      else None)"

definition usage_tokens :: "json option \<Rightarrow> bytes \<Rightarrow> int option" where
  "usage_tokens usage k = obind usage (\<lambda>u. obind (jget u k) as_i64)"

definition anthropic_extract_tokens :: "json_parser \<Rightarrow> bytes \<Rightarrow> int option \<times> int option" where
  "anthropic_extract_tokens parse body =
     (case parse body of None \<Rightarrow> (None, None)
      | Some v \<Rightarrow> (usage_tokens (jget v ''usage'') ''input_tokens'', usage_tokens (jget v ''usage'') ''output_tokens''))"

definition extract_response_content :: "json_parser \<Rightarrow> bytes \<Rightarrow> bytes option" where
  "extract_response_content parse body =
     obind (parse body) (\<lambda>v.
     obind (get_array v ''content'') (\<lambda>content. Some (concat (List.map_filter text_part content))))"

definition extract_message_start_tokens :: "json_parser \<Rightarrow> sse_event \<Rightarrow> int option \<times> int option" where
  "extract_message_start_tokens parse e =
     (if event_type e = Some ''message_start'' then
        (case parse (event_data e) of None \<Rightarrow> (None, None)
         | Some v \<Rightarrow>
             (let usage = obind (jget v ''message'') (\<lambda>m. jget m ''usage'')
              in (usage_tokens usage ''input_tokens'', usage_tokens usage ''output_tokens'')))
      else if event_type e = Some ''message_delta'' then
        (case parse (event_data e) of None \<Rightarrow> (None, None)
         | Some v \<Rightarrow> (None, usage_tokens (jget v ''usage'') ''output_tokens''))
      else (None, None))"

section \<open>OpenAI\<close>

definition openai_extract_content :: "json option \<Rightarrow> bytes" where
  "openai_extract_content val =
     (case val of
        Some (JStr s) \<Rightarrow> s
      | Some (JArr parts) \<Rightarrow> concat (List.map_filter text_part parts)
      | _ \<Rightarrow> [])"

definition openai_parse_request :: "json_parser \<Rightarrow> bytes \<Rightarrow> parsed_request option" where
  "openai_parse_request parse body =
     obind (parse body) (\<lambda>v.
     obind (get_str v ''model'') (\<lambda>m.
     obind (get_array v ''messages'') (\<lambda>ms.
       Some \<lparr>model = m,
             messages = map (\<lambda>x. \<lparr>role = unwrap_or (get_str x ''role'') ''user'',
                                  msg_content = openai_extract_content (jget x ''content'')\<rparr>) ms\<rparr>)))"

definition data_is_done :: "bytes \<Rightarrow> bool" where
  "data_is_done dat \<longleftrightarrow> trim dat = ''[DONE]''"

definition openai_extract_sse_delta :: "json_parser \<Rightarrow> sse_event \<Rightarrow> bytes option" where
  "openai_extract_sse_delta parse e =
     (if data_is_done (event_data e) then None
      else
        obind (parse (event_data e)) (\<lambda>v.
        obind (get_array v ''choices'') (\<lambda>cs.
        obind (first cs) (\<lambda>c.
        obind (jget c ''delta'') (\<lambda>d. get_str d ''content'')))))"

section \<open>Google\<close>

definition google_parse_request :: "json_parser \<Rightarrow> bytes \<Rightarrow> parsed_request option" where
  "google_parse_request parse body =
     obind (parse body) (\<lambda>v.
     let m = unwrap_or (get_str v ''model'') ''gemini'' in
     obind (get_array v ''contents'') (\<lambda>ms.
       Some \<lparr>model = m,
             messages = map (\<lambda>x. \<lparr>role = unwrap_or (get_str x ''role'') ''user'',
                msg_content = (case get_array x ''parts'' of
                   Some parts \<Rightarrow> concat (List.map_filter (\<lambda>p. get_str p ''text'') parts)
                 | None \<Rightarrow> [])\<rparr>) ms\<rparr>))"

definition google_extract_sse_delta :: "json_parser \<Rightarrow> sse_event \<Rightarrow> bytes option" where
  "google_extract_sse_delta parse e =
     obind (parse (event_data e)) (\<lambda>v.
     obind (get_array v ''candidates'') (\<lambda>cs.
     obind (first cs) (\<lambda>c.
     obind (jget c ''content'') (\<lambda>ct.
     obind (get_array ct ''parts'') (\<lambda>ps.
     obind (first ps) (\<lambda>p. get_str p ''text''))))))"

definition google_extract_tokens :: "json_parser \<Rightarrow> bytes \<Rightarrow> int option \<times> int option" where
  "google_extract_tokens parse body =
     (case parse body of None \<Rightarrow> (None, None)
      | Some v \<Rightarrow> (usage_tokens (jget v ''usageMetadata'') ''promptTokenCount'',
                   usage_tokens (jget v ''usageMetadata'') ''candidatesTokenCount''))"

section \<open>Dispatch\<close>

fun parse_request :: "json_parser \<Rightarrow> json_printer \<Rightarrow> provider \<Rightarrow> bytes \<Rightarrow> parsed_request option" where
  "parse_request parse print Anthropic body = anthropic_parse_request parse print body"
| "parse_request parse print OpenAI body = openai_parse_request parse body"
| "parse_request parse print Google body = google_parse_request parse body"
| "parse_request parse print Unknown body = openai_parse_request parse body"

fun extract_sse_delta :: "json_parser \<Rightarrow> provider \<Rightarrow> sse_event \<Rightarrow> bytes option" where
  "extract_sse_delta parse Anthropic e = anthropic_extract_sse_delta parse e"
| "extract_sse_delta parse OpenAI e = openai_extract_sse_delta parse e"
| "extract_sse_delta parse Google e = google_extract_sse_delta parse e"
| "extract_sse_delta parse Unknown e = openai_extract_sse_delta parse e"

section \<open>Deltas of a streaming response\<close>

fun text_delta_pointer :: "provider \<Rightarrow> pointer_step list option" where
  "text_delta_pointer Anthropic = Some [Key ''delta'', Key ''text'']"
| "text_delta_pointer OpenAI = Some [Key ''choices'', Idx 0, Key ''delta'', Key ''content'']"
| "text_delta_pointer Google =
     Some [Key ''candidates'', Idx 0, Key ''content'', Key ''parts'', Idx 0, Key ''text'']"
| "text_delta_pointer Unknown = None"

definition extract_text_delta :: "json_parser \<Rightarrow> provider \<Rightarrow> bytes \<Rightarrow> bytes option" where
  "extract_text_delta parse p dat =
     obind (parse dat) (\<lambda>v.
       if p = Anthropic
          \<and> (as_str (jindex v ''type'') \<noteq> Some ''content_block_delta''
             \<or> as_str (jindex (jindex v ''delta'') ''type'') \<noteq> Some ''text_delta'')
       then None
       else obind (text_delta_pointer p) (\<lambda>ptr. obind (pointer_get v ptr) as_str))"

definition replace_text_delta :: "json_parser \<Rightarrow> json_printer \<Rightarrow> provider \<Rightarrow> bytes \<Rightarrow> bytes \<Rightarrow> bytes" where
  "replace_text_delta parse print p dat new_text =
     (case parse dat of None \<Rightarrow> dat
      | Some v \<Rightarrow>
          (let w = (case text_delta_pointer p of
                      Some ptr \<Rightarrow> (if pointer_get v ptr \<noteq> None then pointer_set ptr (JStr new_text) v else v)
                    | None \<Rightarrow> v)
           in unwrap_or (print w) dat))"

fun trailing_text_json :: "provider \<Rightarrow> bytes \<Rightarrow> json option" where
  "trailing_text_json Anthropic t =
     Some (json_obj [(''type'', JStr ''content_block_delta''), (''index'', JNum (PosInt 0)),
       (''delta'', json_obj [(''type'', JStr ''text_delta''), (''text'', JStr t)])])"
| "trailing_text_json OpenAI t =
     Some (json_obj [(''id'', JStr ''trailing''), (''object'', JStr ''chat.completion.chunk''),
       (''choices'', JArr [json_obj [(''delta'', json_obj [(''content'', JStr t)]),
          (''index'', JNum (PosInt 0)), (''finish_reason'', JNull)]])])"
| "trailing_text_json p t = None"

definition make_trailing_text_event :: "json_printer \<Rightarrow> provider \<Rightarrow> bytes \<Rightarrow> bytes option" where
  "make_trailing_text_event print p t =
     (if t = [] then None
      else map_option (\<lambda>j. reconstruct_sse_event_bytes (Some ''content_block_delta'') (unwrap_or (print j) []))
             (trailing_text_json p t))"

section \<open>Properties\<close>

lemma pointer_set_type:
  assumes "p = Anthropic" and "text_delta_pointer p = Some ptr" and "pointer_get v ptr \<noteq> None"
  shows "as_str (jindex (pointer_set ptr x v) ''type'') = as_str (jindex v ''type'')"
    and "as_str (jindex (jindex (pointer_set ptr x v) ''delta'') ''type'') = as_str (jindex (jindex v ''delta'') ''type'')"
proof -
  have ptr: "ptr = [Key ''delta'', Key ''text'']" using assms(1,2) by simp
  obtain d where d: "jget v ''delta'' = Some d" "jget d ''text'' \<noteq> None"
    using assms(3) unfolding ptr by (cases "jget v ''delta''") (auto simp: obind_def split: option.splits)
  obtain m where m: "v = JObj m" using d(1) by (cases v) auto
  obtain n where n: "d = JObj n" using d(2) by (cases d) auto
  show "as_str (jindex (pointer_set ptr x v) ''type'') = as_str (jindex v ''type'')"
    by (simp add: ptr m jindex_def map_of_map_entry)
  show "as_str (jindex (jindex (pointer_set ptr x v) ''delta'') ''type'') = as_str (jindex (jindex v ''delta'') ''type'')"
    using d(1) by (simp add: ptr m n jindex_def map_of_map_entry)
qed

text \<open>
  Exchanging the text of a delta and reading it back gives the new text, provided that the JSON
  writer's output is read back as the value written.
\<close>

lemma replace_text_delta_read_back:
  assumes "parse dat = Some v" and "extract_text_delta parse p dat = Some t"
    and "text_delta_pointer p = Some ptr"
    and "print (pointer_set ptr (JStr new_text) v) = Some dat'"
    and "parse dat' = Some (pointer_set ptr (JStr new_text) v)"
  shows "extract_text_delta parse p (replace_text_delta parse print p dat new_text) = Some new_text"
proof -
  from assms(1-3) have ptr: "pointer_get v ptr \<noteq> None"
    and guard: "\<not> (p = Anthropic \<and> (as_str (jindex v ''type'') \<noteq> Some ''content_block_delta''
             \<or> as_str (jindex (jindex v ''delta'') ''type'') \<noteq> Some ''text_delta''))"
    by (auto simp: extract_text_delta_def obind_def split: option.splits if_splits)
  let ?w = "pointer_set ptr (JStr new_text) v"
  have "replace_text_delta parse print p dat new_text = dat'"
    using assms(1,3,4) ptr by (simp add: replace_text_delta_def unwrap_or_def)
  moreover have "pointer_get ?w ptr = Some (JStr new_text)" using ptr by (rule pointer_get_set)
  ultimately show ?thesis
    using assms(3,5) guard pointer_set_type [OF _ assms(3) ptr] by (auto simp: extract_text_delta_def)
qed

definition sample_delta :: "bytes \<Rightarrow> json" where
  "sample_delta t = JObj [(''delta'', JObj [(''text'', JStr t), (''type'', JStr ''text_delta'')]),
     (''type'', JStr ''content_block_delta'')]"

section \<open>The JSON library\<close>

text \<open>
  What the code relies on in the JSON library: a value is written on one line, without blanks at
  its ends, and is read back as it was.
\<close>

definition json_codec :: "json_parser \<Rightarrow> json_printer \<Rightarrow> bool" where
  "json_codec parse print \<longleftrightarrow> (\<forall>v. \<exists>s. print v = Some s \<and> parse s = Some v \<and> plain_line s)"

text \<open>
  A pair of functions that behaves so: a value is written as a number that enumerates the values,
  with short numbers for the values of a given list.
\<close>

instance json_number :: countable
  by countable_datatype

instance json :: countable
  by countable_datatype

lemma show_nat_inj: "show_nat a = show_nat b \<longleftrightarrow> a = b"
proof
  assume eq: "show_nat a = show_nat b"
  have p: "parse_uint 10 (max a b) (show_nat a) = Some a" "parse_uint 10 (max a b) (show_nat b) = Some b"
    by (rule parse_show_nat; simp)+
  from p(1) have "parse_uint 10 (max a b) (show_nat b) = Some a" unfolding eq .
  with p(2) have "Some a = Some b" by (rule trans [OF sym, rotated])
  then show "a = b" by (rule option.inject [THEN iffD1])
qed simp

definition list_index :: "'a list \<Rightarrow> 'a \<Rightarrow> nat" where
  "list_index xs x = length (takeWhile (\<lambda>y. y \<noteq> x) xs)"

lemma nth_list_index: "x \<in> set xs \<Longrightarrow> list_index xs x < length xs \<and> xs ! list_index xs x = x"
  by (induction xs) (auto simp: list_index_def)

definition number_of :: "json list \<Rightarrow> json \<Rightarrow> nat" where
  "number_of vs v = (if v \<in> set vs then list_index vs v else length vs + to_nat v)"

lemma number_of_inj: "number_of vs a = number_of vs b \<longleftrightarrow> a = b"
proof
  assume eq: "number_of vs a = number_of vs b"
  note i = nth_list_index [of a vs] nth_list_index [of b vs]
  consider "a \<in> set vs" "b \<in> set vs" | "a \<in> set vs" "b \<notin> set vs" | "a \<notin> set vs" "b \<in> set vs"
    | "a \<notin> set vs" "b \<notin> set vs" by blast
  then show "a = b"
  proof cases
    case 1
    with eq have "list_index vs a = list_index vs b" by (simp only: number_of_def if_True)
    with i 1 show ?thesis by metis
  next
    case 4
    with eq show ?thesis by (simp add: number_of_def)
  qed (use eq i in \<open>simp_all add: number_of_def\<close>)
qed simp

definition number_print :: "json list \<Rightarrow> json_printer" where
  "number_print vs v = Some (show_nat (number_of vs v))"

definition number_parse :: "json list \<Rightarrow> json_parser" where
  "number_parse vs s =
     (if s \<in> range (\<lambda>v. show_nat (number_of vs v)) then Some (inv (\<lambda>v. show_nat (number_of vs v)) s) else None)"

lemma number_parse_print: "number_parse vs (show_nat (number_of vs v)) = Some v"
proof -
  have "inj (\<lambda>v. show_nat (number_of vs v))" by (auto simp: inj_def show_nat_inj number_of_inj)
  from inv_f_f [OF this, of v] show ?thesis by (simp add: number_parse_def)
qed

lemma plain_show_nat: "plain_line (show_nat n)"
proof -
  have "ascii ('' '' @ show_nat n)" by (simp add: byte_def)
  then have "trim ('' '' @ show_nat n) = show_nat n"
    using trim_blank_Cons [of "CHR '' ''" "show_nat n"] by (simp add: blank_byte byte_def)
  then show ?thesis by (simp add: plain_line_def ascii_utf8 show_nat_no_char byte_def)
qed

lemma number_codec: "json_codec (number_parse vs) (number_print vs)"
  unfolding json_codec_def
proof
  fix v
  show "\<exists>s. number_print vs v = Some s \<and> number_parse vs s = Some v \<and> plain_line s"
    by (intro exI [of _ "show_nat (number_of vs v)"]) (simp add: number_print_def number_parse_print plain_show_nat)
qed

text \<open>
  The text held back at the end of a response is lost for Google: there is no trailing event for
  that provider (nor for an unknown one), so what the buffer still holds never reaches the client.
\<close>

theorem trailing_text_dropped:
  "make_trailing_text_event print Google t = None \<and> make_trailing_text_event print Unknown t = None
   \<and> (t \<noteq> [] \<longrightarrow> make_trailing_text_event print Anthropic t \<noteq> None \<and> make_trailing_text_event print OpenAI t \<noteq> None)"
  by (simp add: make_trailing_text_event_def)

theorem trailing_text_dropped_witness:
  "make_trailing_text_event (\<lambda>_. Some ''{}'') Google ''Smith'' = None"
  using trailing_text_dropped [of "\<lambda>_. Some ''{}''" "''Smith''"] by simp

end
