(* ===== verification/Pipeline.thy ===== *)
theory Pipeline
  imports Tiers Buffer Parsers
begin

text \<open>
  The request pipeline of \<open>src/src/pii/mod.rs\<close>: collecting the texts of a request, the first stage
  (replacements of the language model), the second stage (regex and entity spans turned into XML
  tokens), writing the result back into the JSON body, the system instruction, and the rebuilding
  of the request.

  \<open>pii_env\<close> gathers the parameters: the regex engine, the entity model, the sidecar's replies, the
  random numbers, the date arithmetic, the automaton builder, the hash and the locale. The vault
  is read without its lock while a request is scanned and written under the lock afterwards, so
  the two vaults are two arguments: other requests may have changed it in between.
\<close>

section \<open>Data\<close>

datatype pii_mode = Off | DetectOnly | Replace

record pii_detection =
  pd_entity_type :: bytes
  pd_original :: bytes
  pd_synthetic :: bytes
  pd_tier :: nat
  pd_confidence :: f32
  pd_message_id :: "bytes option"

record message_text_entry =
  msg_idx :: nat
  part_idx :: "nat option"
  entry_text :: bytes

record slm_sidecar =
  ask_replace :: "bytes \<Rightarrow> bytes \<Rightarrow> nat \<Rightarrow> replace_replacement list http_reply"
  ask_confirm :: "bytes \<Rightarrow> pii_span list \<Rightarrow> bytes list http_reply"
  parse_indices :: "bytes \<Rightarrow> nat list option"

record 'r pii_env =
  env_re :: re_engine
  env_ner :: ner
  env_slm :: "slm_sidecar option"
  slm_confidence_threshold :: f32
  env_rng :: "'r rng_ops"
  env_shift :: date_shift
  env_build :: ac_builder
  env_sha256 :: hash
  env_locale :: locale_pack

section \<open>Texts of a request\<close>

definition messages_field :: "provider \<Rightarrow> bytes" where
  "messages_field p = (if p = Google then ''contents'' else ''messages'')"

definition part_entry :: "nat \<Rightarrow> nat \<times> json \<Rightarrow> message_text_entry option" where
  "part_entry mi ip =
     (if get_str (snd ip) ''type'' = Some ''text'' then
        map_option (\<lambda>s. \<lparr>msg_idx = mi, part_idx = Some (fst ip), entry_text = s\<rparr>) (get_str (snd ip) ''text'')
      else None)"

definition message_entries :: "nat \<times> json \<Rightarrow> message_text_entry list" where
  "message_entries im =
     (case jget (snd im) ''content'' of
        None \<Rightarrow> []
      | Some content \<Rightarrow>
          (case as_str content of
             Some s \<Rightarrow> [\<lparr>msg_idx = fst im, part_idx = None, entry_text = s\<rparr>]
           | None \<Rightarrow>
               (case as_array content of
                  Some parts \<Rightarrow> List.map_filter (part_entry (fst im)) (List.enumerate 0 parts)
                | None \<Rightarrow> [])))"

definition collect_message_texts :: "json \<Rightarrow> bytes \<Rightarrow> message_text_entry list" where
  "collect_message_texts v field =
     (case get_array v field of None \<Rightarrow> []
      | Some msgs \<Rightarrow> concat (map message_entries (List.enumerate 0 msgs)))"

section \<open>Stage 1\<close>

type_synonym stage1_span = "nat \<times> nat \<times> bytes \<times> bytes \<times> bytes"

text \<open>\<open>sorted.iter().position(|x| x.start == r.start).unwrap_or(0)\<close>.\<close>

fun position :: "('a \<Rightarrow> bool) \<Rightarrow> 'a list \<Rightarrow> nat option" where
  "position P [] = None"
| "position P (x # xs) = (if P x then Some 0 else map_option Suc (position P xs))"

fun stage1_loop ::
    "hash \<Rightarrow> bytes \<Rightarrow> nat \<Rightarrow> replace_replacement list \<Rightarrow> replace_replacement list \<Rightarrow> bytes \<Rightarrow> stage1_span list
       \<Rightarrow> (bytes \<times> stage1_span list) outcome" where
  "stage1_loop sha256 conv_id base_index srt [] result_text spans = Done (result_text, spans)"
| "stage1_loop sha256 conv_id base_index srt (r # rs) result_text spans =
     (if rr_end r < rr_start r \<or> length result_text < rr_end r
      then stage1_loop sha256 conv_id base_index srt rs result_text spans
      else
        and_then (str_slice result_text (rr_start r) (rr_end r)) (\<lambda>original_text.
          let idx = (case position (\<lambda>x. rr_start x = rr_start r) srt of Some i \<Rightarrow> i | None \<Rightarrow> 0);
              token_id = generate_token_id sha256 conv_id (base_index + idx);
              xml = xml_token token_id (rr_display_value r)
          in stage1_loop sha256 conv_id base_index srt rs
               (take (rr_start r) result_text @ xml @ drop (rr_end r) result_text)
               (spans @ [(rr_start r, rr_start r + length xml, rr_display_value r, rr_pii_type r, original_text)])))"

definition stage1 ::
    "hash \<Rightarrow> bytes \<Rightarrow> nat \<Rightarrow> replace_replacement list \<Rightarrow> bytes \<Rightarrow> (bytes \<times> stage1_span list) outcome" where
  "stage1 sha256 conv_id base_index replacements txt =
     (let srt = sort_key rr_start replacements
      in stage1_loop sha256 conv_id base_index srt (rev srt) txt [])"

record entry_result =
  replaced_text :: bytes
  stage1_spans :: "stage1_span list"
  stage2_spans :: "pii_span list"

definition scan_entry :: "'r pii_env \<Rightarrow> bytes \<Rightarrow> pii_vault \<Rightarrow> bytes \<Rightarrow> entry_result option outcome" where
  "scan_entry env conv_id v_scan txt =
     and_then
       (case env_slm env of None \<Rightarrow> Done (txt, [])
        | Some slm \<Rightarrow>
            (let base_index = mapping_count v_scan in
             case slm_replace (ask_replace slm txt conv_id base_index) of
               Some replacements \<Rightarrow>
                 if replacements \<noteq> [] then stage1 (env_sha256 env) conv_id base_index replacements txt
                 else Done (txt, [])
             | None \<Rightarrow> Done (txt, [])))
       (\<lambda>(working_text, spans1).
         let zones = map (\<lambda>(s, e, _). (s, e)) spans1;
             all_spans = detect_spans (env_re env) (env_ner env)
               (case env_slm env of Some slm \<Rightarrow> parse_indices slm | None \<Rightarrow> (\<lambda>_. None))
               (map_option ask_confirm (env_slm env)) (slm_confidence_threshold env) (env_locale env) working_text;
             spans2 = detect_spans_with_exclusions all_spans zones
         in if spans1 \<noteq> [] \<or> spans2 \<noteq> []
            then Done (Some \<lparr>replaced_text = working_text, stage1_spans = spans1, stage2_spans = spans2\<rparr>)
            else Done None)"

section \<open>Stage 2\<close>

definition env_get_or_create ::
    "'r pii_env \<Rightarrow> bytes \<Rightarrow> pii_type \<Rightarrow> nat \<Rightarrow> f32 \<Rightarrow> pii_vault \<Rightarrow> (bytes \<times> pii_vault) outcome" where
  "env_get_or_create env original ty tier conf v =
     get_or_create (env_rng env) (env_shift env) (env_build env) original ty tier conf v"

definition detection_of :: "pii_span \<Rightarrow> bytes \<Rightarrow> bytes \<Rightarrow> pii_detection" where
  "detection_of s original synthetic =
     \<lparr>pd_entity_type = label (entity_type s), pd_original = original, pd_synthetic = synthetic,
      pd_tier = sp_tier s, pd_confidence = confidence s, pd_message_id = None\<rparr>"

fun xml_loop ::
    "'r pii_env \<Rightarrow> bytes \<Rightarrow> bytes \<Rightarrow> nat \<Rightarrow> nat \<Rightarrow> nat \<Rightarrow> pii_span list \<Rightarrow> pii_vault
       \<Rightarrow> (bytes \<times> pii_detection list \<times> pii_vault) outcome" where
  "xml_loop env txt conv_id base_index i from [] v = and_then (str_from txt from) (\<lambda>r. Done (r, [], v))"
| "xml_loop env txt conv_id base_index i from (s # ss) v =
     (if sp_start s < from \<or> length txt < sp_end s
      then xml_loop env txt conv_id base_index (Suc i) from ss v
      else
        and_then (str_slice txt from (sp_start s)) (\<lambda>gap.
        and_then (str_slice txt (sp_start s) (sp_end s)) (\<lambda>original.
          if is_synthetic v original then
            and_then (xml_loop env txt conv_id base_index (Suc i) (sp_end s) ss v) (\<lambda>(r, ds, v').
              Done (gap @ original @ r, ds, v'))
          else
            and_then (env_get_or_create env original (entity_type s) (sp_tier s) (confidence s) v) (\<lambda>(display_value, v1).
              let token_id = generate_token_id (env_sha256 env) conv_id (base_index + i);
                  xml = xml_token token_id display_value;
                  v2 = add_mapping_with_token_id (env_build env) original display_value token_id (entity_type s)
                         (sp_tier s) (confidence s) v1
              in and_then (xml_loop env txt conv_id base_index (Suc i) (sp_end s) ss v2) (\<lambda>(r, ds, v3).
                   Done (gap @ xml @ r, detection_of s original display_value # ds, v3))))))"

definition replace_with_spans_xml ::
    "'r pii_env \<Rightarrow> bytes \<Rightarrow> pii_span list \<Rightarrow> pii_vault \<Rightarrow> bytes \<Rightarrow> nat
       \<Rightarrow> (bytes \<times> pii_detection list \<times> pii_vault) outcome" where
  "replace_with_spans_xml env txt spans v conv_id base_index = xml_loop env txt conv_id base_index 0 0 spans v"

fun spans_loop ::
    "'r pii_env \<Rightarrow> bytes \<Rightarrow> nat \<Rightarrow> pii_span list \<Rightarrow> pii_vault \<Rightarrow> (bytes \<times> pii_detection list \<times> pii_vault) outcome" where
  "spans_loop env txt from [] v = and_then (str_from txt from) (\<lambda>r. Done (r, [], v))"
| "spans_loop env txt from (s # ss) v =
     (if from \<le> sp_start s \<and> sp_end s \<le> length txt then
        and_then (str_slice txt from (sp_start s)) (\<lambda>gap.
        and_then (str_slice txt (sp_start s) (sp_end s)) (\<lambda>original.
          if is_synthetic v original then
            and_then (spans_loop env txt (sp_end s) ss v) (\<lambda>(r, ds, v'). Done (gap @ original @ r, ds, v'))
          else
            and_then (env_get_or_create env original (entity_type s) (sp_tier s) (confidence s) v) (\<lambda>(synthetic, v1).
            and_then (spans_loop env txt (sp_end s) ss v1) (\<lambda>(r, ds, v2).
              Done (gap @ synthetic @ r, detection_of s original synthetic # ds, v2)))))
      else spans_loop env txt from ss v)"

definition replace_with_spans ::
    "'r pii_env \<Rightarrow> bytes \<Rightarrow> pii_span list \<Rightarrow> pii_vault \<Rightarrow> (bytes \<times> pii_detection list \<times> pii_vault) outcome" where
  "replace_with_spans env txt spans v = spans_loop env txt 0 spans v"

section \<open>Writing back\<close>

definition insert_text :: "bytes \<Rightarrow> json \<Rightarrow> json" where
  "insert_text t p = (case p of JObj m \<Rightarrow> JObj (obj_insert ''text'' (JStr t) m) | _ \<Rightarrow> p)"

definition has_slot :: "json \<Rightarrow> bytes \<Rightarrow> message_text_entry \<Rightarrow> bool" where
  "has_slot v field e =
     (case pointer_get v [Key field, Idx (msg_idx e), Key ''content''] of
        None \<Rightarrow> False
      | Some content \<Rightarrow>
          (case part_idx e of None \<Rightarrow> True
           | Some pidx \<Rightarrow> (case pointer_get content [Idx pidx] of Some (JObj m) \<Rightarrow> True | _ \<Rightarrow> False)))"

definition set_text :: "bytes \<Rightarrow> message_text_entry \<Rightarrow> bytes \<Rightarrow> json \<Rightarrow> json" where
  "set_text field e t v =
     step_map (Key field) (step_map (Idx (msg_idx e)) (step_map (Key ''content'')
       (case part_idx e of None \<Rightarrow> (\<lambda>_. JStr t) | Some pidx \<Rightarrow> step_map (Idx pidx) (insert_text t)))) v"

fun insert_stage1 ::
    "'r pii_env \<Rightarrow> bytes \<Rightarrow> nat \<Rightarrow> nat \<Rightarrow> stage1_span list \<Rightarrow> pii_vault \<Rightarrow> pii_detection list \<times> pii_vault" where
  "insert_stage1 env conv_id base_index j [] v = ([], v)"
| "insert_stage1 env conv_id base_index j ((s, e, display_val, pii_type_str, original_text) # ss) v =
     (let token_id = generate_token_id (env_sha256 env) conv_id (base_index + j);
          v1 = add_mapping_with_token_id (env_build env) original_text display_val token_id
                 (Custom pii_type_str) 3 1 v;
          d = \<lparr>pd_entity_type = pii_type_str, pd_original = original_text, pd_synthetic = display_val,
               pd_tier = 3, pd_confidence = 1, pd_message_id = None\<rparr>;
          (ds, v2) = insert_stage1 env conv_id base_index (Suc j) ss v1
      in (d # ds, v2))"

fun apply_entries ::
    "'r pii_env \<Rightarrow> bytes \<Rightarrow> bytes \<Rightarrow> nat \<Rightarrow> (message_text_entry \<times> entry_result option) list \<Rightarrow> json
       \<Rightarrow> pii_detection list \<Rightarrow> bool \<Rightarrow> pii_vault \<Rightarrow> (json \<times> pii_detection list \<times> bool \<times> pii_vault) outcome" where
  "apply_entries env field conv_id base_index [] value ds replaced v = Done (value, ds, replaced, v)"
| "apply_entries env field conv_id base_index ((entry, None) # es) value ds replaced v =
     apply_entries env field conv_id base_index es value ds replaced v"
| "apply_entries env field conv_id base_index ((entry, Some res) # es) value ds replaced v =
     (let (ds1, v1) = insert_stage1 env conv_id base_index 0 (stage1_spans res) v;
          stage2_base = base_index + length (stage1_spans res)
      in and_then (replace_with_spans_xml env (replaced_text res) (stage2_spans res) v1 conv_id stage2_base)
           (\<lambda>(final_text, ds2, v2).
             let ds' = ds @ ds1 @ ds2 in
             if final_text = entry_text entry \<and> stage1_spans res = []
             then apply_entries env field conv_id base_index es value ds' replaced v2
             else if \<not> has_slot value field entry
             then apply_entries env field conv_id base_index es value ds' replaced v2
             else apply_entries env field conv_id base_index es (set_text field entry final_text value) ds' True v2))"

fun scan_entries ::
    "'r pii_env \<Rightarrow> bytes \<Rightarrow> pii_vault \<Rightarrow> message_text_entry list
       \<Rightarrow> (message_text_entry \<times> entry_result option) list outcome" where
  "scan_entries env conv_id v_scan [] = Done []"
| "scan_entries env conv_id v_scan (e # es) =
     and_then (scan_entry env conv_id v_scan (entry_text e)) (\<lambda>r.
     and_then (scan_entries env conv_id v_scan es) (\<lambda>rs. Done ((e, r) # rs)))"

definition process_request_body_async ::
    "'r pii_env \<Rightarrow> json_parser \<Rightarrow> json_printer \<Rightarrow> provider \<Rightarrow> pii_vault \<Rightarrow> pii_vault \<Rightarrow> bytes
       \<Rightarrow> ((bytes \<times> pii_detection list) option \<times> pii_vault) outcome" where
  "process_request_body_async env parse print p v_scan v body =
     (if \<not> utf8_valid body then Done (None, v)
      else (case parse body of None \<Rightarrow> Done (None, v)
        | Some value \<Rightarrow>
            (let field = messages_field p; entries = collect_message_texts value field in
             if entries = [] then Done (None, v)
             else
               (let conv_id = conversation_id v_scan in
                and_then (scan_entries env conv_id v_scan entries) (\<lambda>results.
                  if list_all (\<lambda>(_, r). r = None) results then Done (None, v)
                  else
                    (let base_index = mapping_count v in
                     if get_array value field = None then Done (None, v)
                     else
                       and_then (apply_entries env field conv_id base_index results value [] False v)
                         (\<lambda>(value', ds, any_replaced, v').
                           if \<not> any_replaced then Done (None, v')
                           else (case print value' of
                                   Some bs \<Rightarrow> Done (Some (bs, ds), v')
                                 | None \<Rightarrow> Done (None, v')))))))))"

section \<open>The synchronous variant: regex tier only\<close>

fun map_state :: "('a \<Rightarrow> 's \<Rightarrow> ('b \<times> 's) outcome) \<Rightarrow> 'a list \<Rightarrow> 's \<Rightarrow> ('b list \<times> 's) outcome" where
  "map_state f [] st = Done ([], st)"
| "map_state f (x # xs) st =
     and_then (f x st) (\<lambda>(y, st1). and_then (map_state f xs st1) (\<lambda>(ys, st2). Done (y # ys, st2)))"

definition tier1_replace ::
    "'r pii_env \<Rightarrow> bytes \<Rightarrow> pii_vault \<Rightarrow> ((bytes \<times> pii_span list) \<times> pii_vault) outcome" where
  "tier1_replace env txt v =
     replace_in_text (env_re env) (\<lambda>original ty w. env_get_or_create env original ty 1 1 w) txt (env_locale env) v"

definition process_part :: "'r pii_env \<Rightarrow> json \<Rightarrow> pii_vault \<times> bool \<Rightarrow> (json \<times> pii_vault \<times> bool) outcome" where
  "process_part env part st =
     (let (v, replaced_any) = st in
      if get_str part ''type'' \<noteq> Some ''text'' then Done (part, st)
      else (case get_str part ''text'' of None \<Rightarrow> Done (part, st)
        | Some text_val \<Rightarrow>
            and_then (tier1_replace env text_val v) (\<lambda>((replaced, spans), v').
              if spans = [] then Done (part, v', replaced_any)
              else Done (insert_text replaced part, v', True))))"

definition process_content :: "'r pii_env \<Rightarrow> json \<Rightarrow> pii_vault \<times> bool \<Rightarrow> (json \<times> pii_vault \<times> bool) outcome" where
  "process_content env content st =
     (let (v, replaced_any) = st in
      case as_str content of
        Some text_str \<Rightarrow>
          and_then (tier1_replace env text_str v) (\<lambda>((replaced, spans), v').
            if spans = [] then Done (content, v', replaced_any) else Done (JStr replaced, v', True))
      | None \<Rightarrow>
          (case as_array content of
             Some parts \<Rightarrow> and_then (map_state (process_part env) parts st) (\<lambda>(ps, st'). Done (JArr ps, st'))
           | None \<Rightarrow> Done (content, st)))"

definition process_message :: "'r pii_env \<Rightarrow> json \<Rightarrow> pii_vault \<times> bool \<Rightarrow> (json \<times> pii_vault \<times> bool) outcome" where
  "process_message env msg st =
     (case jget msg ''content'' of None \<Rightarrow> Done (msg, st)
      | Some content \<Rightarrow>
          and_then (process_content env content st) (\<lambda>(c', st').
            Done (step_map (Key ''content'') (\<lambda>_. c') msg, st')))"

definition process_request_body ::
    "'r pii_env \<Rightarrow> json_parser \<Rightarrow> json_printer \<Rightarrow> provider \<Rightarrow> pii_vault \<Rightarrow> bytes \<Rightarrow> (bytes option \<times> pii_vault) outcome" where
  "process_request_body env parse print p v body =
     (if \<not> utf8_valid body then Done (None, v)
      else (case parse body of None \<Rightarrow> Done (None, v)
        | Some value \<Rightarrow>
            (case get_array value (messages_field p) of None \<Rightarrow> Done (None, v)
             | Some msgs \<Rightarrow>
                 and_then (map_state (process_message env) msgs (v, False)) (\<lambda>(msgs', v', any_replaced).
                   if \<not> any_replaced then Done (None, v')
                   else Done (print (step_map (Key (messages_field p)) (\<lambda>_. JArr msgs') value), v')))))"

section \<open>The system instruction\<close>

definition SYSTEM_REMINDER :: bytes where
  "SYSTEM_REMINDER =
     ''The user'' @ [SQUOTE] @ ''s message may contain privacy tokens of the form <pii id='' @ [QUOTE] @ ''TOKEN_ID''
     @ [QUOTE] @ ''>DISPLAY_VALUE</pii> (e.g. <pii id='' @ [QUOTE] @ ''a3f9b2c1'' @ [QUOTE]
     @ ''>alice.brown@example.com</pii>). These tokens represent redacted personally identifiable information. ''
     @ ''You MUST treat <pii> elements as atomic, opaque units: do not interpret, expand, modify, or split them. ''
     @ ''When echoing or referencing content that contains <pii> elements, reproduce the entire element exactly as ''
     @ ''written, including the id attribute and closing tag.''"

definition reminder_element :: bytes where
  "reminder_element = ''<system-reminder>'' @ [LF] @ SYSTEM_REMINDER @ [LF] @ ''</system-reminder>''"

definition reminder_block :: bytes where
  "reminder_block = [LF, LF] @ reminder_element"

definition inject_openai :: "json \<Rightarrow> json list \<Rightarrow> (json \<times> bool) outcome" where
  "inject_openai value msgs =
     (case position (\<lambda>m. get_str m ''role'' = Some ''system'') msgs of
        Some idx \<Rightarrow>
          (case get_str (msgs ! idx) ''content'' of
             Some content \<Rightarrow>
               and_then (json_assign (msgs ! idx) ''content'' (JStr (content @ reminder_block))) (\<lambda>m.
                 Done (step_map (Key ''messages'') (\<lambda>_. JArr (msgs[idx := m])) value, True))
           | None \<Rightarrow> Done (value, False))
      | None \<Rightarrow>
          Done (step_map (Key ''messages'')
                  (\<lambda>_. JArr (json_obj [(''role'', JStr ''system''), (''content'', JStr reminder_element)] # msgs)) value, True))"

definition inject_system_instruction :: "json \<Rightarrow> provider \<Rightarrow> (json \<times> bool) outcome" where
  "inject_system_instruction value p =
     (case p of
        Anthropic \<Rightarrow>
          (case jget value ''system'' of
             None \<Rightarrow> and_then (json_assign value ''system'' (JStr reminder_element)) (\<lambda>w. Done (w, True))
           | Some JNull \<Rightarrow> and_then (json_assign value ''system'' (JStr reminder_element)) (\<lambda>w. Done (w, True))
           | Some (JStr existing) \<Rightarrow>
               and_then (json_assign value ''system'' (JStr (existing @ reminder_block))) (\<lambda>w. Done (w, True))
           | Some _ \<Rightarrow> Done (value, False))
      | OpenAI \<Rightarrow>
          (case get_array value ''messages'' of
             None \<Rightarrow> Done (value, False)
           | Some msgs \<Rightarrow> inject_openai value msgs)
      | Google \<Rightarrow> Done (value, False)
      | Unknown \<Rightarrow> Done (value, False))"

section \<open>Rebuilding the request\<close>

definition content_length_piece :: "bytes \<Rightarrow> bytes \<Rightarrow> bytes" where
  "content_length_piece new_value line =
     (if prefix ''content-length:'' (to_ascii_lowercase line) then
        (case find_sub '':'' line of
           Some colon_pos \<Rightarrow>
             take (Suc colon_pos) line @ '' '' @ new_value
             @ (if suffix crlf line then crlf else if suffix [LF] line then [LF] else [])
         | None \<Rightarrow> line)
      else line)"

definition replace_content_length :: "bytes \<Rightarrow> bytes \<Rightarrow> bytes" where
  "replace_content_length headers new_value = concat (map (content_length_piece new_value) (split_incl headers))"

definition rebuild_request :: "bytes \<Rightarrow> nat \<Rightarrow> bytes \<Rightarrow> bytes outcome" where
  "rebuild_request original_request header_end new_body =
     and_then (slice original_request 0 header_end) (\<lambda>header_bytes.
       Done (replace_content_length (from_utf8_lossy header_bytes) (show_nat (length new_body)) @ new_body))"

section \<open>What stage 2 produces\<close>

definition token_of :: "'r pii_env \<Rightarrow> bytes \<Rightarrow> nat \<Rightarrow> bytes" where
  "token_of env conv_id n = generate_token_id (env_sha256 env) conv_id n"

definition full_lookup :: "pii_vault \<Rightarrow> bytes \<Rightarrow> bytes \<Rightarrow> bytes option" where
  "full_lookup v tid dv = hm_get (full_token_to_original v) (xml_token tid dv)"

lemma xml_token_inj:
  assumes "length a = length b" and "xml_token a x = xml_token b y"
  shows "a = b \<and> x = y"
proof -
  have "a @ [QUOTE] @ ''>'' @ x @ ''</pii>'' = b @ [QUOTE] @ ''>'' @ y @ ''</pii>''"
    using assms(2) by (simp add: xml_token_def)
  with assms(1) show ?thesis by simp
qed

lemma full_lookup_add:
  assumes "length tid = length tid'"
  shows "full_lookup (add_mapping_with_token_id build og dv tid ty t c v) tid' dv' =
     (if tid' = tid \<and> dv' = dv then Some og else full_lookup v tid' dv')"
  using xml_token_inj [OF assms, of dv dv']
  by (auto simp: full_lookup_def add_mapping_with_token_id_def Let_def insert_mapping_raw_with_token_id_def hm_simps)

lemma get_or_create_full_token:
  "get_or_create R shift build og ty t c v = Done (syn, v') \<Longrightarrow> full_token_to_original v' = full_token_to_original v"
  by (auto simp: get_or_create_def Let_def add_mapping_def insert_mapping_raw_def
      insert_mapping_raw_with_token_id_def out_simps split: option.splits)

lemma length_token_of: "length (token_of env conv_id n) = 8"
  by (simp add: token_of_def length_generate_token_id)

text \<open>Registering later spans leaves the tokens of other indices alone.\<close>

lemma xml_loop_keeps:
  assumes "xml_loop env txt conv_id base i from ss v = Done (r, ds, v')"
    and "length tid = 8" and "\<forall>j. i \<le> j \<and> j < i + length ss \<longrightarrow> token_of env conv_id (base + j) \<noteq> tid"
  shows "full_lookup v' tid dv = full_lookup v tid dv"
  using assms(1,3)
proof (induction ss arbitrary: i "from" v r ds)
  case Nil
  then show ?case by (auto simp: out_simps)
next
  case (Cons s ss)
  have later: "\<forall>j. Suc i \<le> j \<and> j < Suc i + length ss \<longrightarrow> token_of env conv_id (base + j) \<noteq> tid"
    and here: "token_of env conv_id (base + i) \<noteq> tid" using Cons.prems(2) by auto
  show ?case
  proof (cases "sp_start s < from \<or> length txt < sp_end s")
    case True
    with Cons.prems(1) Cons.IH [OF _ later] show ?thesis by simp
  next
    case False
    with Cons.prems(1) obtain gap og where
      g: "str_slice txt from (sp_start s) = Done gap" "str_slice txt (sp_start s) (sp_end s) = Done og"
      by (auto simp: out_simps)
    show ?thesis
    proof (cases "is_synthetic v og")
      case True
      with False g Cons.prems(1) Cons.IH [OF _ later] show ?thesis by (auto simp: out_simps)
    next
      case ns: False
      with False g Cons.prems(1) obtain dv1 v1 r1 ds1 where
        v1: "env_get_or_create env og (entity_type s) (sp_tier s) (confidence s) v = Done (dv1, v1)" and
        r1: "xml_loop env txt conv_id base (Suc i) (sp_end s) ss
          (add_mapping_with_token_id (env_build env) og dv1 (token_of env conv_id (base + i)) (entity_type s)
             (sp_tier s) (confidence s) v1) = Done (r1, ds1, v')"
        by (auto simp: out_simps Let_def token_of_def)
      have "full_lookup v' tid dv = full_lookup v1 tid dv"
        using Cons.IH [OF r1 later] here by (simp add: full_lookup_add length_token_of assms(2))
      moreover have "full_lookup v1 tid dv = full_lookup v tid dv"
        using get_or_create_full_token [OF v1 [unfolded env_get_or_create_def]] by (simp add: full_lookup_def)
      ultimately show ?thesis by simp
    qed
  qed
qed

lemma get_or_create_keys:
  "get_or_create R shift build og ty t c v = Done (syn, v') \<Longrightarrow> set (synthetic_keys v) \<subseteq> set (synthetic_keys v')"
  by (auto simp: get_or_create_def Let_def add_mapping_def insert_mapping_raw_def rebuild_automaton_def
      insert_mapping_raw_with_token_id_def out_simps split: option.splits if_splits)

lemma add_token_keys:
  "set (synthetic_keys v) \<subseteq> set (synthetic_keys (add_mapping_with_token_id build og dv tid ty t c v))"
  by (auto simp: add_mapping_with_token_id_def Let_def rebuild_automaton_def
      insert_mapping_raw_with_token_id_def split: option.splits)

lemma xml_loop_keys:
  "xml_loop env txt conv_id base i from ss v = Done (r, ds, v') \<Longrightarrow> set (synthetic_keys v) \<subseteq> set (synthetic_keys v')"
proof (induction ss arbitrary: i "from" v r ds)
  case Nil
  then show ?case by (auto simp: out_simps)
next
  case (Cons s ss)
  show ?case
  proof (cases "sp_start s < from \<or> length txt < sp_end s")
    case True
    with Cons show ?thesis by simp
  next
    case False
    with Cons.prems obtain gap og where
      g: "str_slice txt from (sp_start s) = Done gap" "str_slice txt (sp_start s) (sp_end s) = Done og"
      by (auto simp: out_simps)
    show ?thesis
    proof (cases "is_synthetic v og")
      case True
      with False g Cons.prems obtain r1 where "xml_loop env txt conv_id base (Suc i) (sp_end s) ss v = Done (r1, ds, v')"
        by (auto simp: out_simps)
      then show ?thesis by (rule Cons.IH)
    next
      case ns: False
      with False g Cons.prems obtain dv v1 r1 ds1 where
        v1: "env_get_or_create env og (entity_type s) (sp_tier s) (confidence s) v = Done (dv, v1)" and
        r1: "xml_loop env txt conv_id base (Suc i) (sp_end s) ss
          (add_mapping_with_token_id (env_build env) og dv (generate_token_id (env_sha256 env) conv_id (base + i))
             (entity_type s) (sp_tier s) (confidence s) v1) = Done (r1, ds1, v')"
        by (auto simp: out_simps Let_def)
      from Cons.IH [OF r1] get_or_create_keys [OF v1 [unfolded env_get_or_create_def]] add_token_keys
      show ?thesis by blast
    qed
  qed
qed

text \<open>The output of stage 2: the gaps of the text with one registered token per span.\<close>

lemma xml_loop_tokens:
  assumes "xml_loop env txt conv_id base i from ss v = Done (r, ds, v')" and "spans_fit txt from ss"
    and "\<forall>s\<in>set ss. \<not> is_synthetic v' (span_text txt s)"
    and "inj_on (\<lambda>j. token_of env conv_id (base + j)) {i..<i + length ss}"
  shows "\<exists>toks. r = token_text (gaps_of txt from ss) toks
     \<and> map (\<lambda>(tid, dv, og). tid) toks = map (\<lambda>j. token_of env conv_id (base + j)) [i..<i + length ss]
     \<and> map (\<lambda>(tid, dv, og). og) toks = map (span_text txt) ss
     \<and> map (\<lambda>(tid, dv, og). dv) toks = map pd_synthetic ds
     \<and> map pd_original ds = map (span_text txt) ss
     \<and> (\<forall>(tid, dv, og)\<in>set toks. full_lookup v' tid dv = Some og)"
  using assms
proof (induction ss arbitrary: i "from" v r ds)
  case Nil
  then show ?case
    by (intro exI [of _ "[]"]) (auto simp: out_simps token_text_def spans_fit_def)
next
  case (Cons s ss)
  from Cons.prems(2) have f: "is_char_boundary txt from" "from \<le> sp_start s" "sp_start s \<le> sp_end s"
    "is_char_boundary txt (sp_start s)" "spans_fit txt (sp_end s) ss" "is_char_boundary txt (sp_end s)"
    by (auto simp: spans_fit_def span_iv_def)
  let ?og = "span_text txt s" and ?tid = "token_of env conv_id (base + i)"
  have g: "str_slice txt from (sp_start s) = Done (take (sp_start s - from) (drop from txt))"
    "str_slice txt (sp_start s) (sp_end s) = Done ?og"
    using f by (simp_all add: str_slice_ok span_text_def)
  have skip: "\<not> (sp_start s < from \<or> length txt < sp_end s)" using f boundary_le [OF f(6)] by simp
  have ns: "\<not> is_synthetic v ?og"
    using Cons.prems(1,3) xml_loop_keys by (fastforce simp: is_synthetic_def list_ex_iff)
  with skip g Cons.prems(1) obtain dv v1 r1 ds1 where
    v1: "env_get_or_create env ?og (entity_type s) (sp_tier s) (confidence s) v = Done (dv, v1)" and
    r1: "xml_loop env txt conv_id base (Suc i) (sp_end s) ss
      (add_mapping_with_token_id (env_build env) ?og dv ?tid (entity_type s) (sp_tier s) (confidence s) v1)
        = Done (r1, ds1, v')" and
    r: "r = take (sp_start s - from) (drop from txt) @ xml_token ?tid dv @ r1" and
    ds: "ds = detection_of s ?og dv # ds1"
    by (auto simp: out_simps Let_def token_of_def)
  have inj: "inj_on (\<lambda>j. token_of env conv_id (base + j)) {Suc i..<Suc i + length ss}"
    by (rule inj_on_subset [OF Cons.prems(4)]) auto
  have later: "\<forall>s\<in>set ss. \<not> is_synthetic v' (span_text txt s)" using Cons.prems(3) by simp
  from Cons.IH [OF r1 f(5) later inj] obtain toks where toks:
    "r1 = token_text (gaps_of txt (sp_end s) ss) toks"
    "map (\<lambda>(tid, dv, og). tid) toks = map (\<lambda>j. token_of env conv_id (base + j)) [Suc i..<Suc i + length ss]"
    "map (\<lambda>(tid, dv, og). og) toks = map (span_text txt) ss"
    "map (\<lambda>(tid, dv, og). dv) toks = map pd_synthetic ds1" "map pd_original ds1 = map (span_text txt) ss"
    "\<forall>(tid, dv, og)\<in>set toks. full_lookup v' tid dv = Some og" by blast
  have "token_of env conv_id (base + j) \<noteq> ?tid" if "Suc i \<le> j" "j < Suc i + length ss" for j
    using inj_onD [OF Cons.prems(4), of j i] that by auto
  then have "full_lookup v' ?tid dv = Some ?og"
    using xml_loop_keeps [OF r1, of ?tid dv] by (simp add: length_token_of full_lookup_add)
  then show ?case
    using toks r ds
    by (intro exI [of _ "(?tid, dv, ?og) # toks"])
       (simp add: token_text_def detection_of_def upt_conv_Cons split_def del: upt_Suc)
qed

definition display_ok :: "bytes \<Rightarrow> bool" where
  "display_ok dv \<longleftrightarrow> utf8_valid dv \<and> CHR ''<'' \<notin> set dv"

lemma utf8_interleave:
  "\<forall>g\<in>set gs. utf8_valid g \<Longrightarrow> \<forall>x\<in>set xs. utf8_valid x \<Longrightarrow> utf8_valid (interleave gs xs)"
  by (induction gs xs rule: interleave.induct) (auto intro!: utf8_valid_append utf8_valid_concat)

lemma gaps_utf8: "utf8_valid txt \<Longrightarrow> spans_fit txt from ss \<Longrightarrow> \<forall>g\<in>set (gaps_of txt from ss). utf8_valid g"
proof (induction ss arbitrary: "from")
  case Nil
  then show ?case using utf8_valid_split by (auto simp: spans_fit_def)
next
  case (Cons s ss)
  then have b: "is_char_boundary txt from" "is_char_boundary txt (sp_start s)" "from \<le> sp_start s"
    "spans_fit txt (sp_end s) ss" by (auto simp: spans_fit_Cons)
  have d: "utf8_valid (drop from txt)" using utf8_valid_split [OF Cons.prems(1) b(1)] by simp
  have "is_char_boundary (drop from txt) (sp_start s - from)"
    using boundary_append_iff [OF d, of "take from txt" "sp_start s - from"] b boundary_le [OF b(1)] by simp
  with utf8_valid_split [OF d] Cons.IH [OF Cons.prems(1) b(4)] show ?case by simp
qed

lemma BASE62_plain: "c \<in> set BASE62 \<Longrightarrow> byte c < 128 \<and> c \<noteq> QUOTE \<and> c \<noteq> CHR ''>'' \<and> c \<noteq> CHR ''<''"
proof -
  have "list_all (\<lambda>c. byte c < 128 \<and> c \<noteq> QUOTE \<and> c \<noteq> CHR ''>'' \<and> c \<noteq> CHR ''<'') BASE62" by code_simp
  then show "c \<in> set BASE62 \<Longrightarrow> ?thesis" by (simp add: list_all_iff)
qed

lemma token_id_parts:
  "CHR ''<'' \<notin> set dv \<Longrightarrow> token_parts (token_of env conv_id n) dv"
  "utf8_valid (token_of env conv_id n)"
  using token_id_chars [of _ "env_sha256 env" conv_id n] BASE62_plain
  by (fastforce simp: token_parts_def token_of_def, auto simp: token_of_def ascii_iff intro!: ascii_utf8)


lemma xml_token_utf8: "utf8_valid tid \<Longrightarrow> utf8_valid dv \<Longrightarrow> utf8_valid (xml_token tid dv)"
  by (simp add: xml_token_def utf8_valid_append utf8_valid_ascii_Cons ascii_literal byte_def)

text \<open>
  C1. What stage 2 writes into a request is undone by the cascade that reads the response: for spans
  that fit the text, whose values are no synthetic values themselves, whose tokens are pairwise different and whose display
  values contain no \<open><\<close>, in a text that mentions no synthetic value and no token outside them, the
  cascade turns the output back into the text; the detections name the values in order.
\<close>

theorem pipeline_roundtrip:
  assumes "replace_with_spans_xml env txt spans v conv_id base = Done (out, ds, v')"
    and "spans_fit txt 0 spans" and "utf8_valid txt"
    and "\<forall>s\<in>set spans. \<not> is_synthetic v' (span_text txt s)"
    and "inj_on (\<lambda>j. token_of env conv_id (base + j)) {..<length spans}"
    and "vault_fit (env_build env) v'" and "list_all (untouched v') (gaps_of txt 0 spans)"
    and "\<forall>d\<in>set ds. display_ok (pd_synthetic d)"
  shows "apply_xml_token_cascade v' out = Done txt \<and> map pd_original ds = map (span_text txt) spans"
proof -
  have inj: "inj_on (\<lambda>j. token_of env conv_id (base + j)) {0..<0 + length spans}"
    using assms(5) by (simp add: lessThan_atLeast0)
  from xml_loop_tokens [OF assms(1) [unfolded replace_with_spans_xml_def] assms(2,4) inj]
  obtain toks where t: "out = token_text (gaps_of txt 0 spans) toks"
    "map (\<lambda>(tid, dv, og). tid) toks = map (\<lambda>j. token_of env conv_id (base + j)) [0..<0 + length spans]"
    "map (\<lambda>(tid, dv, og). og) toks = map (span_text txt) spans"
    "map (\<lambda>(tid, dv, og). dv) toks = map pd_synthetic ds"
    "map pd_original ds = map (span_text txt) spans"
    "\<forall>(tid, dv, og)\<in>set toks. full_lookup v' tid dv = Some og" by blast
  have len: "length toks = length spans" using t(3) by (metis length_map)
  have tid: "\<exists>n. tid = token_of env conv_id n" and dv: "display_ok dv" if "(tid, dv, og) \<in> set toks" for tid dv og
  proof -
    have "tid \<in> set (map (\<lambda>(tid, dv, og). tid) toks)" using that by force
    then show "\<exists>n. tid = token_of env conv_id n" unfolding t(2) by auto
    have "dv \<in> set (map (\<lambda>(tid, dv, og). dv) toks)" using that by force
    then show "display_ok dv" unfolding t(4) using assms(8) by auto
  qed
  have known: "tokens_known v' toks"
    using t(6) tid dv
    by (fastforce simp: tokens_known_def full_lookup_def display_ok_def intro!: token_id_parts(1))
  have "utf8_valid (xml_token tid dv)" if "(tid, dv, og) \<in> set toks" for tid dv og
    using tid [OF that] dv [OF that] by (auto simp: xml_token_utf8 display_ok_def token_id_parts(2))
  then have "utf8_valid out"
    unfolding t(1) token_text_def using gaps_utf8 [OF assms(3,2)] by (intro utf8_interleave) auto
  with cascade_ref [OF vault_fit_level5 [OF assms(6)]] restored_token_text [OF known assms(7)] len t(1,3)
  have "apply_xml_token_cascade v' out = Done (interleave (gaps_of txt 0 spans) (map (span_text txt) spans))"
    by (simp add: restored_def)
  with interleave_gaps_text [OF assms(2)] t(5) show ?thesis by simp
qed


definition sample_env :: "nat pii_env" where
  "sample_env = \<lparr>env_re = (\<lambda>_ _. []), env_ner = None, env_slm = None, slm_confidence_threshold = 1,
     env_rng = lcg_rng, env_shift = (\<lambda>_ _. None), env_build = naive_build, env_sha256 = zero_hash,
     env_locale = EnUs\<rparr>"

lemma sample_env_build [simp]: "env_build sample_env = naive_build"
  by (simp add: sample_env_def)

definition key_span :: pii_span where
  "key_span = \<lparr>sp_start = 4, sp_end = 7, entity_type = SshPrivateKey, confidence = 1, sp_tier = 1\<rparr>"

definition key_vault :: pii_vault where
  "key_vault = add_mapping_with_token_id naive_build ''XYZ'' ''[REDACTED_PRIVATE_KEY]''
     (token_of sample_env ''c'' 0) SshPrivateKey 1 1
     (add_mapping naive_build ''XYZ'' ''[REDACTED_PRIVATE_KEY]'' SshPrivateKey 1 1 (vault_new zero_hash ''c''))"

lemma key_vault_keys: "synthetic_keys key_vault = [''[REDACTED_PRIVATE_KEY]'']"
  by (simp add: key_vault_def add_mapping_with_token_id_def add_mapping_def Let_def vault_new_def empty_vault_def
      insert_mapping_raw_def insert_mapping_raw_with_token_id_def rebuild_automaton_def naive_build_def hm_simps)

lemma key_vault_fit: "vault_fit naive_build key_vault"
proof -
  have "vault_ok naive_build key_vault"
    unfolding key_vault_def by (intro vault_ok_add_mapping_with_token_id vault_ok_add_mapping vault_ok_new)
  then show ?thesis
    by (simp add: vault_fit_def naive.leftmost_longest_axioms naive_build_def keys_ok_def key_vault_keys
        ascii_literal byte_def)
qed

lemma key_replaced:
  "replace_with_spans_xml sample_env ''key XYZ.'' [key_span] (vault_new zero_hash ''c'') ''c'' 0 =
     Done (''key '' @ xml_token (token_of sample_env ''c'' 0) ''[REDACTED_PRIVATE_KEY]'' @ ''.'',
       [detection_of key_span ''XYZ'' ''[REDACTED_PRIVATE_KEY]''], key_vault)"
proof -
  have "\<not> is_synthetic (vault_new zero_hash ''c'') ''XYZ''"
    "get_synthetic (vault_new zero_hash ''c'') ''XYZ'' = None"
    by (simp_all add: is_synthetic_def get_synthetic_def vault_new_def empty_vault_def hm_simps)
  then show ?thesis
    by (simp add: replace_with_spans_xml_def key_span_def str_slice_def str_from_def is_char_boundary_def is_cont_def
        byte_def env_get_or_create_def get_or_create_def sample_env_def key_vault_def token_of_def
        gret_def Let_def)
qed

lemma key_span_fits: "spans_fit ''key XYZ.'' 0 [key_span]"
  by (simp add: spans_fit_Cons, simp add: spans_fit_def key_span_def is_char_boundary_def is_cont_def byte_def)

theorem pipeline_roundtrip_witness:
  "\<exists>out ds v'. replace_with_spans_xml sample_env ''key XYZ.'' [key_span] (vault_new zero_hash ''c'') ''c'' 0
       = Done (out, ds, v')
     \<and> apply_xml_token_cascade v' out = Done ''key XYZ.'' \<and> map pd_original ds = [''XYZ'']"
proof -
  note key_span_fits
  moreover have "span_text ''key XYZ.'' key_span = ''XYZ''" by (simp add: span_text_def key_span_def)
  moreover have "list_all (untouched key_vault) (gaps_of ''key XYZ.'' 0 [key_span])"
    unfolding untouched_def key_vault_keys XML_TOKEN_OPEN_def key_span_def by code_simp
  ultimately show ?thesis
    using pipeline_roundtrip [OF key_replaced] key_vault_fit
    by (simp add: key_replaced is_synthetic_def key_vault_keys ascii_literal byte_def inj_on_def
        display_ok_def detection_of_def)
qed


section \<open>Stage 2 returns\<close>

lemma get_or_create_fit:
  assumes "rng R" and "vault_ok build v" and "generable shift ty og"
  shows "\<exists>syn v'. get_or_create R shift build og ty t c v = Done (syn, v') \<and> vault_ok build v'
     \<and> get_synthetic v' og = Some syn
     \<and> (\<forall>k x. get_synthetic v k = Some x \<longrightarrow> get_synthetic v' k = Some x)"
proof -
  from rng.get_or_create_cases [OF assms(1,3)] obtain syn
    where g: "get_or_create R shift build og ty t c v = Done (syn, add_mapping build og syn ty t c v)"
      and syn: "get_synthetic v og = Some syn \<or> get_synthetic v og = None \<and> text_ok syn" by metis
  have l: "get_synthetic (add_mapping build og syn ty t c v) k =
      (case get_synthetic v k of Some s \<Rightarrow> Some s | None \<Rightarrow> if k = og then Some syn else None)" for k
    by (auto simp: get_synthetic_def add_mapping_def insert_mapping_raw_def
        insert_mapping_raw_with_token_id_def hm_simps hm_contains_def split: option.splits)
  from g syn vault_ok_add_mapping [OF assms(2)] show ?thesis
    by (intro exI [of _ syn] exI [of _ "add_mapping build og syn ty t c v"]) (auto simp: l)
qed

lemma add_token_get_synthetic:
  "get_synthetic v k = Some x \<Longrightarrow> get_synthetic (add_mapping_with_token_id build og dv tid ty t c v) k = Some x"
  by (auto simp: get_synthetic_def add_mapping_with_token_id_def Let_def insert_mapping_raw_with_token_id_def
      hm_simps hm_contains_def)

lemma xml_loop_total:
  assumes "rng (env_rng env)" and "vault_ok (env_build env) v" and "spans_fit txt from ss"
    and "\<forall>s\<in>set ss. generable (env_shift env) (entity_type s) (span_text txt s)"
  shows "\<exists>r ds v'. xml_loop env txt conv_id base i from ss v = Done (r, ds, v') \<and> vault_ok (env_build env) v'
     \<and> (\<forall>k x. get_synthetic v k = Some x \<longrightarrow> get_synthetic v' k = Some x)
     \<and> (\<forall>s\<in>set ss. is_synthetic v' (span_text txt s) \<or> get_synthetic v' (span_text txt s) \<noteq> None)"
  using assms(2-)
proof (induction ss arbitrary: i "from" v)
  case Nil
  then show ?case by (auto simp: spans_fit_def str_from_def str_slice_ok boundary_le)
next
  case (Cons s ss)
  from Cons.prems(2) have f: "is_char_boundary txt from" "from \<le> sp_start s" "sp_start s \<le> sp_end s"
    "is_char_boundary txt (sp_start s)" "spans_fit txt (sp_end s) ss" "is_char_boundary txt (sp_end s)"
    by (auto simp: spans_fit_def span_iv_def)
  let ?og = "span_text txt s" and ?tid = "generate_token_id (env_sha256 env) conv_id (base + i)"
  have g: "str_slice txt from (sp_start s) = Done (take (sp_start s - from) (drop from txt))"
    "str_slice txt (sp_start s) (sp_end s) = Done ?og"
    using f by (simp_all add: str_slice_ok span_text_def)
  have skip: "\<not> (sp_start s < from \<or> length txt < sp_end s)" using f boundary_le [OF f(6)] by simp
  have gen: "generable (env_shift env) (entity_type s) ?og"
    "\<forall>s\<in>set ss. generable (env_shift env) (entity_type s) (span_text txt s)" using Cons.prems(3) by auto
  show ?case
  proof (cases "is_synthetic v ?og")
    case True
    from Cons.IH [OF Cons.prems(1) f(5) gen(2), of "Suc i"] obtain r ds v' where
      l: "xml_loop env txt conv_id base (Suc i) (sp_end s) ss v = Done (r, ds, v')" "vault_ok (env_build env) v'"
        "\<forall>k x. get_synthetic v k = Some x \<longrightarrow> get_synthetic v' k = Some x"
        "\<forall>s\<in>set ss. is_synthetic v' (span_text txt s) \<or> get_synthetic v' (span_text txt s) \<noteq> None" by blast
    have "is_synthetic v' ?og" using True xml_loop_keys [OF l(1)] by (auto simp: is_synthetic_def list_ex_iff)
    with True l skip g show ?thesis by simp
  next
    case False
    from get_or_create_fit [OF assms(1) Cons.prems(1) gen(1), of "sp_tier s" "confidence s"]
    obtain syn v1 where
      c: "env_get_or_create env ?og (entity_type s) (sp_tier s) (confidence s) v = Done (syn, v1)"
        "vault_ok (env_build env) v1" "get_synthetic v1 ?og = Some syn"
        "\<forall>k x. get_synthetic v k = Some x \<longrightarrow> get_synthetic v1 k = Some x"
      unfolding env_get_or_create_def by blast
    let ?v2 = "add_mapping_with_token_id (env_build env) ?og syn ?tid (entity_type s) (sp_tier s) (confidence s) v1"
    from Cons.IH [OF vault_ok_add_mapping_with_token_id [OF c(2)] f(5) gen(2), of "Suc i"] obtain r ds v' where
      l: "xml_loop env txt conv_id base (Suc i) (sp_end s) ss ?v2 = Done (r, ds, v')" "vault_ok (env_build env) v'"
        "\<forall>k x. get_synthetic ?v2 k = Some x \<longrightarrow> get_synthetic v' k = Some x"
        "\<forall>s\<in>set ss. is_synthetic v' (span_text txt s) \<or> get_synthetic v' (span_text txt s) \<noteq> None" by blast
    have "\<forall>k x. get_synthetic v1 k = Some x \<longrightarrow> get_synthetic v' k = Some x"
      using l(3) add_token_get_synthetic by blast
    with False l c skip g show ?thesis by (simp add: Let_def)
  qed
qed

text \<open>
  C17. Stage 2 returns: for spans that fit the text and values the generators can serve, in the vault's
  lock it neither panics nor breaks the vault's invariant, it forgets no mapping, and afterwards
  every value of a span is either a known synthetic value or has a synthetic value of its own.
\<close>

theorem stage2_total:
  assumes "rng (env_rng env)" and "vault_ok (env_build env) v" and "spans_fit txt 0 spans"
    and "\<forall>s\<in>set spans. generable (env_shift env) (entity_type s) (span_text txt s)"
  shows "\<exists>out ds v'. replace_with_spans_xml env txt spans v conv_id base = Done (out, ds, v')
     \<and> vault_ok (env_build env) v'
     \<and> (\<forall>k x. get_synthetic v k = Some x \<longrightarrow> get_synthetic v' k = Some x)
     \<and> (\<forall>s\<in>set spans. is_synthetic v' (span_text txt s) \<or> get_synthetic v' (span_text txt s) \<noteq> None)"
  unfolding replace_with_spans_xml_def by (rule xml_loop_total [OF assms])

theorem stage2_total_witness:
  "\<exists>out ds v'. replace_with_spans_xml sample_env ''key XYZ.'' [key_span] (vault_new zero_hash ''c'') ''c'' 0
     = Done (out, ds, v') \<and> vault_ok naive_build v'"
proof -
  have "generable (env_shift sample_env) (entity_type key_span) (span_text ''key XYZ.'' key_span)"
    by (simp add: generable_def key_span_def span_text_def ascii_literal byte_def)
  moreover have "rng (env_rng sample_env)" using lcg.rng_axioms by (simp add: sample_env_def)
  ultimately show ?thesis
    using stage2_total [of sample_env "vault_new zero_hash ''c''", OF _ _ key_span_fits, of "''c''" 0]
    by (auto simp: vault_ok_new)
qed

end
