(* ===== verification/Framing.thy ===== *)
theory Framing
  imports Rust_Str
begin

text \<open>
  HTTP/1.1 framing of \<open>src/src/proxy/intercept/framing.rs\<close>: header search, content length, chunked
  transfer coding (whole-body decoder, incremental decoder, encoder), and the rewriting of a
  request to a known content length.

  Slices out of range are \<open>Panic\<close>; additions on \<open>usize\<close> wrap at 64 bits as in a release build. A
  writer is the bytes written to it so far.
\<close>

section \<open>Headers\<close>

record http_framing_state =
  header_done :: bool
  content_length :: "nat option"
  is_chunked :: bool
  body_start :: nat
  forwarded :: nat
  body_received :: nat

definition framing_default :: http_framing_state where
  "framing_default = \<lparr>header_done = False, content_length = None, is_chunked = False, body_start = 0,
     forwarded = 0, body_received = 0\<rparr>"

definition find_header_end :: "bytes \<Rightarrow> nat option" where
  "find_header_end dat = map_option (\<lambda>i. i + 4) (find_sub [CR, LF, CR, LF] dat)"

fun content_length_line :: "bytes list \<Rightarrow> nat option" where
  "content_length_line [] = None"
| "content_length_line (line # ls) =
     (case strip_prefix ''content-length:'' (to_lowercase line) of
        Some rest \<Rightarrow> parse_uint 10 usize_max (trim rest)
      | None \<Rightarrow> content_length_line ls)"

definition parse_content_length :: "bytes \<Rightarrow> nat option" where
  "parse_content_length headers =
     (if utf8_valid headers then content_length_line (str_lines headers) else None)"

definition is_chunked_encoding :: "bytes \<Rightarrow> bool" where
  "is_chunked_encoding headers =
     list_ex (\<lambda>line. let lo = to_lowercase line in
         prefix ''transfer-encoding:'' lo \<and> sublist ''chunked'' lo)
       (str_lines (if utf8_valid headers then headers else []))"

section \<open>Chunked bodies\<close>

text \<open>The size line up to its extension, and the size it states.\<close>

definition chunk_size :: "bytes \<Rightarrow> nat option" where
  "chunk_size line = parse_uint 16 usize_max (trim (hd (split_on (CHR '';'') line)))"

function decode_chunked_loop :: "bytes \<Rightarrow> nat \<Rightarrow> bytes \<Rightarrow> bytes option outcome" where
  "decode_chunked_loop dat pos out =
     (case slice_from dat pos of Panic \<Rightarrow> Panic
      | Done rest \<Rightarrow>
         (case find_sub crlf rest of None \<Rightarrow> Done None
          | Some k \<Rightarrow>
             if \<not> utf8_valid (take k rest) then Done None
             else (case chunk_size (take k rest) of None \<Rightarrow> Done None
               | Some sz \<Rightarrow>
                   let pos1 = pos + k + 2; fin = (pos1 + sz) mod 2 ^ 64 in
                   if sz = 0 then Done (Some out)
                   else if length dat < fin then Done None
                   else (case slice dat pos1 fin of Panic \<Rightarrow> Panic
                     | Done chunk \<Rightarrow> decode_chunked_loop dat (pos1 + sz + 2) (out @ chunk)))))"
  by pat_completeness auto
termination
  by (relation "measure (\<lambda>(dat, pos, out). Suc (length dat) - pos)")
     (auto simp: slice_from_def slice_def split: if_splits)

declare decode_chunked_loop.simps [simp del]

definition decode_chunked_body :: "bytes \<Rightarrow> bytes option outcome" where
  "decode_chunked_body dat = decode_chunked_loop dat 0 []"

definition chunk_terminator :: bytes where
  "chunk_terminator = crlf @ ''0'' @ crlf @ crlf"

definition find_chunked_body_end :: "bytes \<Rightarrow> nat option" where
  "find_chunked_body_end body =
     (case find_sub chunk_terminator body of
        Some pos \<Rightarrow> Some (pos + length chunk_terminator)
      | None \<Rightarrow> if prefix (''0'' @ crlf @ crlf) body then Some 5 else None)"

definition write_http_chunk :: "bytes \<Rightarrow> bytes \<Rightarrow> bytes" where
  "write_http_chunk written dat =
     ((written @ (show_hex (length dat) @ crlf)) @ dat) @ crlf"

section \<open>Rewriting a request\<close>

definition drops_header :: "bytes \<Rightarrow> bool" where
  "drops_header line =
     (let lower = to_lowercase line in
      prefix ''transfer-encoding:'' lower \<or> prefix ''content-length:'' lower
      \<or> prefix ''accept-encoding:'' lower)"

function rebuild_lines :: "nat \<Rightarrow> bytes \<Rightarrow> bytes" where
  "rebuild_lines n rest =
     (if rest = [] then []
      else
        let k = (case find_sub crlf rest of Some p \<Rightarrow> p | None \<Rightarrow> length rest);
            line = take k rest in
        if drops_header line then rebuild_lines n (drop (k + 2) rest)
        else if line = [] then ''Content-Length: '' @ show_nat n @ crlf @ ''Accept-Encoding: identity''
               @ crlf @ crlf
        else line @ crlf @ rebuild_lines n (drop (k + 2) rest))"
  by pat_completeness auto
termination
  by (relation "measure (\<lambda>(n, rest). length rest)") auto

declare rebuild_lines.simps [simp del]

definition rebuild_request_with_content_length :: "bytes \<Rightarrow> bytes \<Rightarrow> bytes" where
  "rebuild_request_with_content_length raw_headers body =
     (if utf8_valid raw_headers then rebuild_lines (length body) raw_headers @ body
      else raw_headers @ body)"

section \<open>The incremental decoder\<close>

datatype chunk_decoder_state = ReadingSize | ReadingBody | BodyTrail

record chunked_decoder =
  cd_buf :: bytes
  chunk_remaining :: nat
  cd_state :: chunk_decoder_state

definition decoder_new :: chunked_decoder where
  "decoder_new = \<lparr>cd_buf = [], chunk_remaining = 0, cd_state = ReadingSize\<rparr>"

text \<open>\<open>from_utf8(..).unwrap_or("")\<close>: an undecodable size line reads as an empty one.\<close>

definition size_of_line :: "bytes \<Rightarrow> nat option" where
  "size_of_line line = chunk_size (if utf8_valid line then line else [])"

function decoder_loop :: "chunk_decoder_state \<Rightarrow> nat \<Rightarrow> bytes \<Rightarrow> bytes \<times> chunked_decoder" where
  "decoder_loop st remaining buf =
     (case st of
        ReadingSize \<Rightarrow>
          (case find_sub crlf buf of
             None \<Rightarrow> ([], \<lparr>cd_buf = buf, chunk_remaining = remaining, cd_state = ReadingSize\<rparr>)
           | Some k \<Rightarrow>
               (case size_of_line (take k buf) of
                  None \<Rightarrow> ([], \<lparr>cd_buf = buf, chunk_remaining = remaining, cd_state = ReadingSize\<rparr>)
                | Some n \<Rightarrow>
                    if n = 0 then ([], \<lparr>cd_buf = [], chunk_remaining = remaining, cd_state = ReadingSize\<rparr>)
                    else decoder_loop ReadingBody n (drop (k + 2) buf)))
      | ReadingBody \<Rightarrow>
          (let t = min remaining (length buf); left = remaining - t;
               (out, d) = (if left = 0 then decoder_loop BodyTrail 0 (drop t buf)
                           else ([], \<lparr>cd_buf = drop t buf, chunk_remaining = left, cd_state = ReadingBody\<rparr>))
           in (take t buf @ out, d))
      | BodyTrail \<Rightarrow>
          if length buf < 2 then ([], \<lparr>cd_buf = buf, chunk_remaining = remaining, cd_state = BodyTrail\<rparr>)
          else decoder_loop ReadingSize remaining (drop 2 buf))"
  by pat_completeness auto
termination
  by (relation "measure (\<lambda>(st, remaining, buf). 2 * length buf + (if st = ReadingBody then 1 else 0))")
     (auto dest!: find_sub_bound simp: crlf_def)

declare decoder_loop.simps [simp del]

definition decoder_push :: "chunked_decoder \<Rightarrow> bytes \<Rightarrow> bytes \<times> chunked_decoder" where
  "decoder_push d raw = decoder_loop (cd_state d) (chunk_remaining d) (cd_buf d @ raw)"

section \<open>Feeding the decoder in pieces\<close>

text \<open>
  \<open>chunk_end\<close> follows the decoder and returns, where the terminal chunk's size line is reached, the
  bytes after that line: what the decoder discards.
\<close>

function chunk_end :: "chunk_decoder_state \<Rightarrow> nat \<Rightarrow> bytes \<Rightarrow> bytes option" where
  "chunk_end st remaining buf =
     (case st of
        ReadingSize \<Rightarrow>
          (case find_sub crlf buf of None \<Rightarrow> None
           | Some k \<Rightarrow>
               (case size_of_line (take k buf) of None \<Rightarrow> None
                | Some n \<Rightarrow> if n = 0 then Some (drop (k + 2) buf) else chunk_end ReadingBody n (drop (k + 2) buf)))
      | ReadingBody \<Rightarrow>
          if remaining \<le> length buf then chunk_end BodyTrail 0 (drop remaining buf) else None
      | BodyTrail \<Rightarrow> if length buf < 2 then None else chunk_end ReadingSize remaining (drop 2 buf))"
  by pat_completeness auto
termination
  by (relation "measure (\<lambda>(st, remaining, buf). 2 * length buf + (if st = ReadingBody then 1 else 0))")
     (auto dest!: find_sub_bound simp: crlf_def)

declare chunk_end.simps [simp del]

lemma loop_wait: "find_sub crlf buf = None \<Longrightarrow>
    decoder_loop ReadingSize r buf = ([], \<lparr>cd_buf = buf, chunk_remaining = r, cd_state = ReadingSize\<rparr>)"
  and end_wait: "find_sub crlf buf = None \<Longrightarrow> chunk_end ReadingSize r buf = None"
  by (subst decoder_loop.simps chunk_end.simps, simp)+

lemma loop_bad: "find_sub crlf buf = Some k \<Longrightarrow> size_of_line (take k buf) = None \<Longrightarrow>
    decoder_loop ReadingSize r buf = ([], \<lparr>cd_buf = buf, chunk_remaining = r, cd_state = ReadingSize\<rparr>)"
  and end_bad: "find_sub crlf buf = Some k \<Longrightarrow> size_of_line (take k buf) = None \<Longrightarrow> chunk_end ReadingSize r buf = None"
  by (subst decoder_loop.simps chunk_end.simps, simp)+

lemma loop_last: "find_sub crlf buf = Some k \<Longrightarrow> size_of_line (take k buf) = Some 0 \<Longrightarrow>
    decoder_loop ReadingSize r buf = ([], \<lparr>cd_buf = [], chunk_remaining = r, cd_state = ReadingSize\<rparr>)"
  and end_last: "find_sub crlf buf = Some k \<Longrightarrow> size_of_line (take k buf) = Some 0 \<Longrightarrow>
    chunk_end ReadingSize r buf = Some (drop (k + 2) buf)"
  by (subst decoder_loop.simps chunk_end.simps, simp)+

lemma loop_size: "find_sub crlf buf = Some k \<Longrightarrow> size_of_line (take k buf) = Some n \<Longrightarrow> n \<noteq> 0 \<Longrightarrow>
    decoder_loop ReadingSize r buf = decoder_loop ReadingBody n (drop (k + 2) buf)"
  and end_size: "find_sub crlf buf = Some k \<Longrightarrow> size_of_line (take k buf) = Some n \<Longrightarrow> n \<noteq> 0 \<Longrightarrow>
    chunk_end ReadingSize r buf = chunk_end ReadingBody n (drop (k + 2) buf)"
  by (subst decoder_loop.simps chunk_end.simps, simp)+

lemma loop_partial: "length buf < r \<Longrightarrow> decoder_loop ReadingBody r buf =
    (buf, \<lparr>cd_buf = [], chunk_remaining = r - length buf, cd_state = ReadingBody\<rparr>)"
  and end_partial: "length buf < r \<Longrightarrow> chunk_end ReadingBody r buf = None"
  by (subst decoder_loop.simps chunk_end.simps, simp add: Let_def)+

lemma loop_body: "r \<le> length buf \<Longrightarrow> decoder_loop ReadingBody r buf =
    (let (out, d) = decoder_loop BodyTrail 0 (drop r buf) in (take r buf @ out, d))"
  and end_body: "r \<le> length buf \<Longrightarrow> chunk_end ReadingBody r buf = chunk_end BodyTrail 0 (drop r buf)"
  by (subst decoder_loop.simps chunk_end.simps, simp add: Let_def)+

lemma loop_trail_wait: "length buf < 2 \<Longrightarrow> decoder_loop BodyTrail r buf =
    ([], \<lparr>cd_buf = buf, chunk_remaining = r, cd_state = BodyTrail\<rparr>)"
  and end_trail_wait: "length buf < 2 \<Longrightarrow> chunk_end BodyTrail r buf = None"
  by (subst decoder_loop.simps chunk_end.simps, simp)+

lemma loop_trail: "2 \<le> length buf \<Longrightarrow> decoder_loop BodyTrail r buf = decoder_loop ReadingSize r (drop 2 buf)"
  and end_trail: "2 \<le> length buf \<Longrightarrow> chunk_end BodyTrail r buf = chunk_end ReadingSize r (drop 2 buf)"
  by (subst decoder_loop.simps chunk_end.simps, simp)+

text \<open>The cases of one pass of the loop, as an induction rule.\<close>

lemma loop_induct [case_names wait bad fin sized partial body trail_wait trail]:
  assumes "\<And>r buf. find_sub crlf buf = None \<Longrightarrow> P ReadingSize r buf"
    and "\<And>r buf k. find_sub crlf buf = Some k \<Longrightarrow> size_of_line (take k buf) = None \<Longrightarrow> P ReadingSize r buf"
    and "\<And>r buf k. find_sub crlf buf = Some k \<Longrightarrow> size_of_line (take k buf) = Some 0 \<Longrightarrow> P ReadingSize r buf"
    and "\<And>r buf k n. find_sub crlf buf = Some k \<Longrightarrow> size_of_line (take k buf) = Some n \<Longrightarrow> n \<noteq> 0 \<Longrightarrow>
          P ReadingBody n (drop (k + 2) buf) \<Longrightarrow> P ReadingSize r buf"
    and "\<And>r buf. length buf < r \<Longrightarrow> P ReadingBody r buf"
    and "\<And>r buf. r \<le> length buf \<Longrightarrow> P BodyTrail 0 (drop r buf) \<Longrightarrow> P ReadingBody r buf"
    and "\<And>r buf. length buf < 2 \<Longrightarrow> P BodyTrail r buf"
    and "\<And>r buf. 2 \<le> length buf \<Longrightarrow> P ReadingSize r (drop 2 buf) \<Longrightarrow> P BodyTrail r buf"
  shows "P st r buf"
proof (induction st r buf rule: decoder_loop.induct)
  case (1 st r buf)
  show ?case
  proof (cases st)
    case ReadingSize
    show ?thesis
    proof (cases "find_sub crlf buf")
      case None
      with ReadingSize assms(1) show ?thesis by simp
    next
      case (Some k)
      show ?thesis
      proof (cases "size_of_line (take k buf)")
        case None
        with ReadingSize Some assms(2) show ?thesis by simp
      next
        case sz: (Some n)
        show ?thesis
          using ReadingSize Some sz assms(3,4) 1(1) [OF ReadingSize Some sz] by (cases "n = 0") auto
      qed
    qed
  next
    case ReadingBody
    show ?thesis
      using ReadingBody assms(5,6) 1(2) [OF ReadingBody refl refl]
      by (cases "r \<le> length buf") (auto simp: min_def)
  next
    case BodyTrail
    show ?thesis using BodyTrail assms(7,8) 1(3) [OF BodyTrail] by (cases "length buf < 2") auto
  qed
qed

lemma decoder_push_loop [simp]:
  "decoder_push \<lparr>cd_buf = b, chunk_remaining = r, cd_state = st\<rparr> raw = decoder_loop st r (b @ raw)"
  by (simp add: decoder_push_def)

lemma loop_append:
  "chunk_end st r buf = None \<Longrightarrow>
     decoder_loop st r (buf @ ext) =
       (let (o1, d1) = decoder_loop st r buf; (o2, d2) = decoder_push d1 ext in (o1 @ o2, d2))"
proof (induction st r buf rule: loop_induct)
  case (wait r buf)
  then show ?case by (simp add: loop_wait)
next
  case (bad r buf k)
  then show ?case by (simp add: loop_bad)
next
  case (fin r buf k)
  then show ?case by (simp add: end_last)
next
  case (sized r buf k n)
  have k: "find_sub crlf (buf @ ext) = Some k" "k \<le> length buf" "k + 2 \<le> length buf"
    using sized(1) find_sub_append_Some find_sub_bound [OF sized(1)] by (auto simp: crlf_def)
  then show ?case
    using sized by (simp add: loop_size [OF sized(1-3)] end_size loop_size [OF k(1)])
next
  case (partial r buf)
  show ?case
  proof (cases "r \<le> length buf + length ext")
    case True
    with partial show ?thesis by (simp add: loop_partial loop_body split_def Let_def)
  next
    case False
    with partial show ?thesis by (simp add: loop_partial)
  qed
next
  case (body r buf)
  then show ?case by (simp add: loop_body end_body split_def Let_def)
next
  case (trail_wait r buf)
  then show ?case by (simp add: loop_trail_wait)
next
  case (trail r buf)
  then show ?case by (simp add: loop_trail end_trail)
qed

lemma end_append:
  "chunk_end st r buf = None \<Longrightarrow>
     chunk_end st r (buf @ ext) =
       (let d = snd (decoder_loop st r buf) in chunk_end (cd_state d) (chunk_remaining d) (cd_buf d @ ext))"
proof (induction st r buf rule: loop_induct)
  case (wait r buf)
  then show ?case by (simp add: loop_wait)
next
  case (bad r buf k)
  then show ?case by (simp add: loop_bad)
next
  case (fin r buf k)
  then show ?case by (simp add: end_last)
next
  case (sized r buf k n)
  have k: "find_sub crlf (buf @ ext) = Some k" "k \<le> length buf" "k + 2 \<le> length buf"
    using sized(1) find_sub_append_Some find_sub_bound [OF sized(1)] by (auto simp: crlf_def)
  then show ?case
    using sized by (simp add: loop_size [OF sized(1-3)] end_size [OF k(1)] end_size)
next
  case (partial r buf)
  show ?case
  proof (cases "r \<le> length buf + length ext")
    case True
    with partial show ?thesis by (simp add: loop_partial end_body)
  next
    case False
    with partial show ?thesis by (simp add: loop_partial end_partial)
  qed
next
  case (body r buf)
  then show ?case by (simp add: loop_body end_body split_def Let_def)
next
  case (trail_wait r buf)
  then show ?case by (simp add: loop_trail_wait)
next
  case (trail r buf)
  then show ?case by (simp add: loop_trail end_trail)
qed

text \<open>Past the terminal chunk the decoder has dropped its buffer, and more bytes change nothing.\<close>

lemma end_Some:
  "chunk_end st r buf = Some t \<Longrightarrow>
     cd_buf (snd (decoder_loop st r buf)) = [] \<and> cd_state (snd (decoder_loop st r buf)) = ReadingSize
     \<and> chunk_end st r (buf @ ext) = Some (t @ ext)
     \<and> decoder_loop st r (buf @ ext) = decoder_loop st r buf"
proof (induction st r buf rule: loop_induct)
  case (fin r buf k)
  have k: "find_sub crlf (buf @ ext) = Some k" "k \<le> length buf" "k + 2 \<le> length buf"
    using fin(1) find_sub_append_Some find_sub_bound [OF fin(1)] by (auto simp: crlf_def)
  with fin show ?case by (simp add: loop_last end_last loop_last [OF k(1)] end_last [OF k(1)])
next
  case (sized r buf k n)
  have k: "find_sub crlf (buf @ ext) = Some k" "k \<le> length buf" "k + 2 \<le> length buf"
    using sized(1) find_sub_append_Some find_sub_bound [OF sized(1)] by (auto simp: crlf_def)
  with sized show ?case
    by (simp add: loop_size [OF sized(1-3)] loop_size [OF k(1)] end_size [OF k(1)] end_size)
next
  case (body r buf)
  then show ?case by (simp add: loop_body end_body split_def Let_def)
next
  case (trail r buf)
  then show ?case by (simp add: loop_trail end_trail)
qed (simp_all add: end_wait end_bad end_partial end_trail_wait)


section \<open>Properties of the incremental decoder\<close>

definition decoder_live :: "chunked_decoder \<Rightarrow> bytes \<Rightarrow> bool" where
  "decoder_live d bs \<longleftrightarrow> chunk_end (cd_state d) (chunk_remaining d) (cd_buf d @ bs) = None"

lemma decoder_live_prefix: "decoder_live d (a @ b) \<Longrightarrow> decoder_live d a"
  using end_Some [of "cd_state d" "chunk_remaining d" "cd_buf d @ a" _ b]
  by (cases "chunk_end (cd_state d) (chunk_remaining d) (cd_buf d @ a)") (auto simp: decoder_live_def)

interpretation decoder: chunk_stream decoder_push decoder_live
proof unfold_locales
  fix d :: chunked_decoder and a b :: bytes
  assume l: "decoder_live d (a @ b)"
  then have a: "chunk_end (cd_state d) (chunk_remaining d) (cd_buf d @ a) = None"
    using decoder_live_prefix by (simp add: decoder_live_def)
  show "decoder_push d (a @ b) =
      (let (o1, s1) = decoder_push d a; (o2, s2) = decoder_push s1 b in (o1 @ o2, s2))"
    using loop_append [OF a, of b] by (simp add: decoder_push_def)
  show "decoder_live (snd (decoder_push d a)) b"
    using l end_append [OF a, of b] by (simp add: decoder_live_def decoder_push_def Let_def)
qed

lemma size_of_empty_line: "size_of_line [] = None"
  by (simp add: size_of_line_def chunk_size_def trim_def parse_uint_def)

lemma crlf_suffix_idle:
  assumes "t @ b = crlf" and "cd_buf d = []" and "cd_state d = ReadingSize"
  shows "decoder_live d b \<and> fst (decoder_push d b) = []"
proof -
  from assms(1) have "b \<in> {[], [LF], [CR, LF]}"
    by (auto simp: crlf_def append_eq_Cons_conv)
  then show ?thesis
  proof (elim insertE emptyE)
    assume "b = [CR, LF]"
    moreover have "find_sub crlf [CR, LF] = Some 0" by (simp add: crlf_def)
    ultimately show ?thesis
      using assms(2,3) loop_bad [of "[CR, LF]" 0] end_bad [of "[CR, LF]" 0]
      by (simp add: decoder_live_def decoder_push_def size_of_empty_line)
  qed (use assms(2,3) in \<open>simp_all add: decoder_live_def decoder_push_def loop_wait end_wait crlf_def\<close>)
qed

lemma feed_idle:
  assumes "t @ concat cs = crlf" and "cd_buf d = []" and "cd_state d = ReadingSize"
  shows "fst (feed decoder_push d cs) = []"
  using crlf_suffix_idle [OF assms] decoder.feed_concat [of cs d] by (cases "cs = []") auto

text \<open>A body that ends with the terminal chunk decodes the same however it is cut.\<close>

lemma feed_to_end:
  assumes "chunk_end (cd_state d) (chunk_remaining d) (cd_buf d @ concat cs) = Some crlf"
    and "decoder_live d []"
  shows "fst (feed decoder_push d cs) = fst (decoder_push d (concat cs))"
  using assms
proof (induction cs arbitrary: d)
  case Nil
  then show ?case by (simp add: decoder_live_def)
next
  case (Cons c cs)
  let ?d1 = "snd (decoder_push d c)"
  show ?case
  proof (cases "chunk_end (cd_state d) (chunk_remaining d) (cd_buf d @ c)")
    case (Some t)
    note e = end_Some [OF Some, of "concat cs"]
    from e Cons.prems(1) have "t @ concat cs = crlf" by simp
    then have "fst (feed decoder_push ?d1 cs) = []"
      using e by (intro feed_idle) (simp_all add: decoder_push_def)
    moreover have "decoder_push d (c @ concat cs) = decoder_push d c"
      using e by (simp add: decoder_push_def)
    ultimately show ?thesis by (simp add: split_def Let_def)
  next
    case None
    have "chunk_end (cd_state ?d1) (chunk_remaining ?d1) (cd_buf ?d1 @ concat cs) = Some crlf"
      using end_append [OF None, of "concat cs"] Cons.prems(1) by (simp add: decoder_push_def Let_def)
    moreover have "decoder_live ?d1 []"
      using end_append [OF None, of "[]"] None by (simp add: decoder_live_def decoder_push_def Let_def)
    ultimately have "fst (feed decoder_push ?d1 cs) = fst (decoder_push ?d1 (concat cs))"
      by (rule Cons.IH)
    moreover have "decoder_push d (c @ concat cs) =
        (let (o1, d1) = decoder_push d c; (o2, d2) = decoder_push d1 (concat cs) in (o1 @ o2, d2))"
      using loop_append [OF None, of "concat cs"] by (simp add: decoder_push_def)
    ultimately show ?thesis by (simp add: split_def Let_def)
  qed
qed

section \<open>Encoded bodies\<close>

definition chunk_of :: "bytes \<Rightarrow> bytes" where
  "chunk_of p = write_http_chunk [] p"

definition chunked_body :: "bytes list \<Rightarrow> bytes" where
  "chunked_body ps = foldl write_http_chunk [] ps @ ''0'' @ crlf @ crlf"

lemma chunk_of_eq: "chunk_of p = show_hex (length p) @ crlf @ p @ crlf"
  by (simp add: chunk_of_def write_http_chunk_def)

lemma foldl_write: "foldl write_http_chunk w ps = w @ concat (map chunk_of ps)"
  by (induction ps arbitrary: w) (simp_all add: write_http_chunk_def chunk_of_eq)

lemma chunked_body_eq: "chunked_body ps = concat (map chunk_of ps) @ ''0'' @ crlf @ crlf"
  by (simp add: chunked_body_def foldl_write)

lemma find_crlf_gap: "CR \<notin> set l \<Longrightarrow> find_sub crlf (l @ crlf @ r) = Some (length l)"
  by (rule find_sub_after_gap)
     (auto simp: crlf_def head_unique_def dest: set_mono_sublist)

lemma semicolon_show_hex: "CHR '';'' \<notin> set (show_hex n)"
proof
  assume "CHR '';'' \<in> set (show_hex n)"
  then obtain d where "d < 16" "CHR '';'' = digit_char d"
    using show_radix_digits [of 16 digit_char n] by (auto simp: show_hex_def)
  then have "byte (CHR '';'') = (if d < 10 then 48 + d else 55 + d)"
    by (auto simp: digit_char_def byte_char_of)
  with \<open>d < 16\<close> show False by (simp add: byte_def split: if_splits)
qed

lemma chunk_size_show: "n \<le> usize_max \<Longrightarrow> chunk_size (show_hex n) = Some n"
  by (simp add: chunk_size_def split_on_none semicolon_show_hex parse_show_hex)

lemma size_of_show: "n \<le> usize_max \<Longrightarrow> size_of_line (show_hex n) = Some n"
  by (simp add: size_of_line_def chunk_size_show ascii_utf8)

lemma show_hex_0: "show_hex 0 = ''0''"
  by code_simp

lemma CR_show_hex: "CR \<notin> set (show_hex n)"
  by (simp add: show_hex_no_char byte_def)

lemma loop_chunk:
  assumes "p \<noteq> []" and "length p \<le> usize_max"
  shows "decoder_loop ReadingSize r (chunk_of p @ rest) =
      (let (out, d) = decoder_loop ReadingSize 0 rest in (p @ out, d))"
    and "chunk_end ReadingSize r (chunk_of p @ rest) = chunk_end ReadingSize 0 rest"
proof -
  let ?n = "length p" and ?buf = "chunk_of p @ rest"
  have f: "find_sub crlf ?buf = Some (length (show_hex ?n))"
    using find_crlf_gap [OF CR_show_hex] by (simp add: chunk_of_eq)
  have sz: "size_of_line (take (length (show_hex ?n)) ?buf) = Some ?n"
    using size_of_show [OF assms(2)] by (simp add: chunk_of_eq)
  have dr: "drop (length (show_hex ?n) + 2) ?buf = p @ crlf @ rest"
    by (simp add: chunk_of_eq crlf_def)
  have tr: "drop 2 (crlf @ rest) = rest" "2 \<le> length (crlf @ rest)" by (simp_all add: crlf_def)
  have n: "length p \<noteq> 0" using assms(1) by simp
  have "decoder_loop ReadingSize r ?buf = decoder_loop ReadingBody ?n (p @ crlf @ rest)"
    using loop_size [OF f sz n] by (simp only: dr)
  also have "\<dots> = (let (out, d) = decoder_loop BodyTrail 0 (crlf @ rest) in (p @ out, d))"
    using loop_body [of ?n "p @ crlf @ rest"] by simp
  finally show "decoder_loop ReadingSize r ?buf = (let (out, d) = decoder_loop ReadingSize 0 rest in (p @ out, d))"
    by (simp only: loop_trail [OF tr(2)] tr(1))
  have "chunk_end ReadingSize r ?buf = chunk_end ReadingBody ?n (p @ crlf @ rest)"
    using end_size [OF f sz n] by (simp only: dr)
  also have "\<dots> = chunk_end BodyTrail 0 (crlf @ rest)"
    using end_body [of ?n "p @ crlf @ rest"] by simp
  finally show "chunk_end ReadingSize r ?buf = chunk_end ReadingSize 0 rest"
    by (simp only: end_trail [OF tr(2)] tr(1))
qed

lemma loop_terminator:
  "decoder_loop ReadingSize r (''0'' @ crlf @ crlf) = ([], \<lparr>cd_buf = [], chunk_remaining = r, cd_state = ReadingSize\<rparr>)"
  "chunk_end ReadingSize r (''0'' @ crlf @ crlf) = Some crlf"
proof -
  have f: "find_sub crlf (''0'' @ crlf @ crlf) = Some 1" using find_crlf_gap [of "''0''" crlf] by simp
  have sz: "size_of_line (take 1 (''0'' @ crlf @ crlf)) = Some 0"
    using size_of_show [of 0] by (simp add: show_hex_0 usize_max_def)
  show "decoder_loop ReadingSize r (''0'' @ crlf @ crlf) = ([], \<lparr>cd_buf = [], chunk_remaining = r, cd_state = ReadingSize\<rparr>)"
    by (rule loop_last [OF f sz])
  show "chunk_end ReadingSize r (''0'' @ crlf @ crlf) = Some crlf"
    using end_last [OF f sz] by (simp add: crlf_def)
qed

lemma loop_chunked_body:
  assumes "\<forall>p\<in>set ps. p \<noteq> [] \<and> length p \<le> usize_max"
  shows "fst (decoder_loop ReadingSize r (chunked_body ps)) = concat ps
     \<and> chunk_end ReadingSize r (chunked_body ps) = Some crlf"
  using assms
proof (induction ps arbitrary: r)
  case Nil
  show ?case by (simp add: chunked_body_eq loop_terminator [simplified])
next
  case (Cons p ps)
  have "chunked_body (p # ps) = chunk_of p @ chunked_body ps" by (simp add: chunked_body_eq)
  with Cons show ?case by (simp add: loop_chunk split_def Let_def)
qed

text \<open>
  C27. What the proxy writes chunk by chunk, followed by the terminal chunk, the incremental decoder
  turns back into the payload, whatever the pieces in which the bytes arrive, also when a piece
  ends inside a size line, inside a line break or inside the terminator.
\<close>

theorem chunked_roundtrip_any_split:
  assumes "\<forall>p\<in>set ps. p \<noteq> [] \<and> length p \<le> usize_max" and "concat cs = chunked_body ps"
  shows "fst (feed decoder_push decoder_new cs) = concat ps"
proof -
  note b = loop_chunked_body [OF assms(1), of 0]
  have "decoder_live decoder_new []"
    by (simp add: decoder_live_def decoder_new_def end_wait crlf_def)
  then have "fst (feed decoder_push decoder_new cs) = fst (decoder_push decoder_new (concat cs))"
    using b assms(2) by (intro feed_to_end) (simp_all add: decoder_new_def)
  with b assms(2) show ?thesis by (simp add: decoder_push_def decoder_new_def)
qed

theorem chunked_roundtrip_any_split_witness:
  "fst (feed decoder_push decoder_new
      [''5'' @ [CR], LF # ''he'', ''llo'' @ [CR], LF # ''0'' @ [CR, LF], [CR, LF]]) = ''hello''"
proof -
  have "chunked_body [''hello''] = ''5'' @ crlf @ ''hello'' @ crlf @ ''0'' @ crlf @ crlf"
    by code_simp
  then show ?thesis
    using chunked_roundtrip_any_split [of "[''hello'']"
        "[''5'' @ [CR], LF # ''he'', ''llo'' @ [CR], LF # ''0'' @ [CR, LF], [CR, LF]]"]
    by (simp add: crlf_def usize_max_def)
qed

text \<open>
  A size line that is no hexadecimal number stops the decoder for good: the bytes stay in its
  buffer, and nothing that arrives later is ever emitted (the comment at that branch says that the
  data is passed through).
\<close>

theorem decoder_stuck_on_bad_size:
  assumes "cd_state d = ReadingSize" and "find_sub crlf (cd_buf d) = Some k"
    and "size_of_line (take k (cd_buf d)) = None"
  shows "fst (feed decoder_push d cs) = [] \<and> cd_buf (snd (feed decoder_push d cs)) = cd_buf d @ concat cs"
  using assms
proof (induction cs arbitrary: d)
  case Nil
  then show ?case by simp
next
  case (Cons c cs)
  have f: "find_sub crlf (cd_buf d @ c) = Some k" "take k (cd_buf d @ c) = take k (cd_buf d)"
    using Cons.prems(2) find_sub_append_Some find_sub_bound [OF Cons.prems(2)] by auto
  have "decoder_push d c = ([], \<lparr>cd_buf = cd_buf d @ c, chunk_remaining = chunk_remaining d, cd_state = ReadingSize\<rparr>)"
    unfolding decoder_push_def Cons.prems(1)
    by (rule loop_bad [OF f(1)]) (simp only: f Cons.prems(3))
  moreover note Cons.IH [of "\<lparr>cd_buf = cd_buf d @ c, chunk_remaining = chunk_remaining d, cd_state = ReadingSize\<rparr>"]
  moreover have "size_of_line (take k (cd_buf d @ c)) = None" by (simp only: f Cons.prems(3))
  ultimately show ?case using f(1) by (simp add: split_def Let_def)
qed

theorem decoder_stuck_on_bad_size_witness:
  "fst (feed decoder_push (snd (decoder_push decoder_new (''zz'' @ crlf))) [chunked_body [''hello'']]) = []"
proof -
  have f: "find_sub crlf (''zz'' @ crlf) = Some 2" by (simp add: crlf_def)
  have sz: "size_of_line (take 2 (''zz'' @ crlf)) = None"
    by (simp add: size_of_line_def chunk_size_def trim_ascii_id blank_byte parse_uint_def push_digit_def
        digit_val_def byte_def ascii_literal)
  have d: "snd (decoder_push decoder_new (''zz'' @ crlf))
      = \<lparr>cd_buf = ''zz'' @ crlf, chunk_remaining = 0, cd_state = ReadingSize\<rparr>"
    using loop_bad [OF f sz] by (simp add: decoder_push_def decoder_new_def)
  show ?thesis unfolding d
    by (rule decoder_stuck_on_bad_size [THEN conjunct1, of _ 2]; simp only: chunked_decoder.simps f sz)
qed


section \<open>The whole-body decoder\<close>

lemma decode_step:
  assumes "p \<noteq> []" and "length (pre @ show_hex (length p) @ crlf @ p @ rest) \<le> usize_max"
  shows "decode_chunked_loop (pre @ show_hex (length p) @ crlf @ p @ rest) (length pre) out =
     decode_chunked_loop (pre @ show_hex (length p) @ crlf @ p @ rest)
       (length pre + length (show_hex (length p)) + 2 + length p + 2) (out @ p)"
proof -
  let ?h = "show_hex (length p)" and ?dat = "pre @ show_hex (length p) @ crlf @ p @ rest"
  have f: "find_sub crlf (?h @ crlf @ p @ rest) = Some (length ?h)"
    by (rule find_crlf_gap [OF CR_show_hex])
  have l: "length p \<le> usize_max" "length (crlf :: bytes) = 2" using assms(2) by (auto simp: crlf_def)
  have u: "utf8_valid ?h" by (rule ascii_utf8) simp
  have b: "length pre + length ?h + 2 + length p < 2 ^ 64"
    using assms(2) l(2) by (simp add: usize_max_def)
  then have w: "(length pre + length ?h + 2 + length p) mod 2 ^ 64 = length pre + length ?h + 2 + length p"
    by (rule mod_less)
  have s: "slice ?dat (length pre + length ?h + 2) (length pre + length ?h + 2 + length p) = Done p"
    using l(2) by (simp add: slice_def)
  show ?thesis
    using assms(1) l f u s w
    by (subst decode_chunked_loop.simps)
       (simp add: slice_from_ok chunk_size_show Let_def)
qed

lemma decode_last:
  "decode_chunked_loop (pre @ ''0'' @ crlf @ crlf) (length pre) out = Done (Some out)"
proof -
  have f: "find_sub crlf (''0'' @ crlf @ crlf) = Some 1" using find_crlf_gap [of "''0''" crlf] by simp
  have "chunk_size ''0'' = Some 0" using chunk_size_show [of 0] by (simp add: show_hex_0 usize_max_def)
  moreover have "utf8_valid ''0''" by (simp add: ascii_literal byte_def)
  ultimately show ?thesis
    using f by (subst decode_chunked_loop.simps) (simp add: slice_from_ok)
qed

lemma decode_chunks:
  assumes "\<forall>p\<in>set ps. p \<noteq> []" and "length (pre @ chunked_body ps) \<le> usize_max"
  shows "decode_chunked_loop (pre @ chunked_body ps) (length pre) out = Done (Some (out @ concat ps))"
  using assms
proof (induction ps arbitrary: pre out)
  case Nil
  then show ?case using decode_last by (simp add: chunked_body_eq)
next
  case (Cons p ps)
  have e: "pre @ chunked_body (p # ps) = pre @ show_hex (length p) @ crlf @ p @ (crlf @ chunked_body ps)"
    by (simp add: chunked_body_eq chunk_of_eq)
  have e2: "pre @ chunked_body (p # ps) = (pre @ chunk_of p) @ chunked_body ps"
    by (simp add: chunked_body_eq)
  have l: "length pre + length (show_hex (length p)) + 2 + length p + 2 = length (pre @ chunk_of p)"
    by (simp add: chunk_of_eq crlf_def)
  have "decode_chunked_loop (pre @ chunked_body (p # ps)) (length pre) out
      = decode_chunked_loop (pre @ chunked_body (p # ps)) (length (pre @ chunk_of p)) (out @ p)"
    using decode_step [of p pre "crlf @ chunked_body ps" out] Cons.prems
    unfolding e l by auto
  also have "\<dots> = Done (Some ((out @ p) @ concat ps))"
    unfolding e2 using Cons.prems e2 by (intro Cons.IH) auto
  finally show ?case by simp
qed

text \<open>
  Decoding a complete chunked body returns the payload, for every sequence of non-empty chunks.
\<close>

theorem decode_chunked_body_roundtrip:
  assumes "\<forall>p\<in>set ps. p \<noteq> []" and "length (chunked_body ps) \<le> usize_max"
  shows "decode_chunked_body (chunked_body ps) = Done (Some (concat ps))"
  using decode_chunks [of ps "[]" "[]"] assms by (simp add: decode_chunked_body_def)

theorem decode_chunked_body_roundtrip_witness:
  "decode_chunked_body (chunked_body [''hello '', ''world'']) = Done (Some ''hello world'')"
proof -
  have "length (chunked_body [''hello '', ''world'']) = 26" by code_simp
  then show ?thesis
    using decode_chunked_body_roundtrip [of "[''hello '', ''world'']"] by (simp add: usize_max_def)
qed

text \<open>
  The end of a chunked body is searched as a byte pattern, not by following the chunks. When
  the pattern also ends a chunk's own payload, the body is cut there, right before the chunk's
  line break, and the decoder then slices past the end: the connection's task panics on a
  well-formed request.
\<close>

theorem chunked_payload_panics:
  assumes "p \<noteq> []" and "length (chunked_body [p]) \<le> usize_max"
    and "find_chunked_body_end (chunked_body [p]) = Some e"
    and "e = length (show_hex (length p)) + 2 + length p"
  shows "decode_chunked_body (take e (chunked_body [p])) = Panic"
proof -
  let ?h = "show_hex (length p)"
  have t: "take e (chunked_body [p]) = ?h @ crlf @ p"
    unfolding assms(4) by (simp add: chunked_body_eq chunk_of_eq crlf_def)
  have "length (?h @ crlf @ p) \<le> usize_max"
    using assms(2) by (simp add: chunked_body_eq chunk_of_eq crlf_def)
  then have "decode_chunked_loop (?h @ crlf @ p) 0 [] =
      decode_chunked_loop (?h @ crlf @ p) (length ?h + 2 + length p + 2) p"
    using decode_step [of p "[]" "[]" "[]"] assms(1) by simp
  also have "slice_from (?h @ crlf @ p) (length ?h + 2 + length p + 2) = Panic"
    by (simp add: slice_from_Panic_iff crlf_def)
  then have "decode_chunked_loop (?h @ crlf @ p) (length ?h + 2 + length p + 2) p = Panic"
    by (subst decode_chunked_loop.simps) simp
  finally show ?thesis by (simp add: t decode_chunked_body_def)
qed

theorem chunked_payload_panics_witness:
  "decode_chunked_body (take 13 (chunked_body [''abc'' @ chunk_terminator])) = Panic"
proof (rule chunked_payload_panics)
  show "find_chunked_body_end (chunked_body [''abc'' @ chunk_terminator]) = Some 13"
    "13 = length (show_hex (length (''abc'' @ chunk_terminator))) + 2 + length (''abc'' @ chunk_terminator)"
    by code_simp+
  have "length (chunked_body [''abc'' @ chunk_terminator]) = 20" by code_simp
  then show "length (chunked_body [''abc'' @ chunk_terminator]) \<le> usize_max" by (simp add: usize_max_def)
qed simp

section \<open>The rewritten request\<close>

text \<open>A header line: not empty, without a line break inside.\<close>

definition header_line :: "bytes \<Rightarrow> bool" where
  "header_line l \<longleftrightarrow> l \<noteq> [] \<and> CR \<notin> set l \<and> LF \<notin> set l \<and> utf8_valid l"

definition header_block :: "bytes list \<Rightarrow> bytes" where
  "header_block ls = concat (map (\<lambda>l. l @ crlf) ls) @ crlf"

lemma utf8_crlf: "utf8_valid crlf"
  by (simp add: crlf_def ascii_literal byte_def)

lemma header_block_utf8: "list_all header_line ls \<Longrightarrow> utf8_valid (header_block ls)"
  by (induction ls) (auto simp: header_block_def header_line_def utf8_crlf intro!: utf8_valid_append)

lemma header_block_Cons: "header_block (l # ls) = l @ crlf @ header_block ls"
  by (simp add: header_block_def)

lemma drops_header_Nil: "\<not> drops_header []"
  by (simp add: drops_header_def to_lowercase_def)

lemma rebuild_lines_block:
  "list_all header_line ls \<Longrightarrow>
     rebuild_lines n (header_block ls) =
       header_block (filter (\<lambda>l. \<not> drops_header l) ls
         @ [''Content-Length: '' @ show_nat n, ''Accept-Encoding: identity''])"
proof (induction ls)
  case Nil
  show ?case
    by (subst rebuild_lines.simps) (simp add: header_block_def crlf_def drops_header_Nil)
next
  case (Cons l ls)
  then have l: "CR \<notin> set l" "l \<noteq> []" by (auto simp: header_line_def)
  have f: "find_sub crlf (l @ crlf @ header_block ls) = Some (length l)" by (rule find_crlf_gap [OF l(1)])
  have d: "drop (length l + 2) (l @ crlf @ header_block ls) = header_block ls" by (simp add: crlf_def)
  show ?case
    unfolding header_block_Cons
    by (subst rebuild_lines.simps) (use Cons l f d in \<open>simp add: header_block_Cons Let_def\<close>)
qed

lemma find_header_end_block:
  assumes "list_all header_line ls" and "ls \<noteq> []"
  shows "find_header_end (header_block ls @ body) = Some (length (header_block ls))"
proof -
  have aux: "find_sub [CR, LF, CR, LF] (header_block (l # ls) @ body) = Some (length (header_block (l # ls)) - 4)"
    if "list_all header_line (l # ls)" for l ls
    using that
  proof (induction ls arbitrary: l)
    case Nil
    then have "CR \<notin> set l" by (simp add: header_line_def)
    then show ?case by (simp add: header_block_def crlf_def find_sub_skip)
  next
    case (Cons m ms)
    then have l: "CR \<notin> set l" and m: "m \<noteq> []" "CR \<notin> set m" by (auto simp: header_line_def)
    obtain c cs where c: "m = c # cs" "c \<noteq> CR" using m by (cases m) auto
    have len: "4 \<le> length (header_block (m # ms))"
      using m by (simp add: header_block_Cons header_block_def crlf_def)
    have "find_sub [CR, LF, CR, LF] (crlf @ header_block (m # ms) @ body)
        = map_option (\<lambda>i. i + 2) (find_sub [CR, LF, CR, LF] (header_block (m # ms) @ body))"
      using c by (simp add: crlf_def header_block_Cons option.map_comp comp_def)
    also have "find_sub [CR, LF, CR, LF] (header_block (m # ms) @ body) = Some (length (header_block (m # ms)) - 4)"
      using Cons by simp
    finally show ?case
      using len by (simp add: header_block_Cons [of l] find_sub_skip [OF l] crlf_def)
  qed
  obtain l ls' where "ls = l # ls'" using assms(2) by (cases ls) auto
  moreover from this have "4 \<le> length (header_block ls)"
    using assms(1) by (cases l) (auto simp: header_block_def crlf_def header_line_def)
  ultimately show ?thesis using aux assms(1) by (simp add: find_header_end_def)
qed

lemma str_lines_block:
  "list_all header_line ls \<Longrightarrow> str_lines (header_block ls) = ls @ [[]]"
proof (induction ls)
  case Nil
  show ?case using str_lines_crlf [of "[]" "[]"] by (simp add: header_block_def)
next
  case (Cons l ls)
  then show ?case by (simp add: header_block_Cons header_line_def str_lines_crlf)
qed

lemma content_length_skip:
  "list_all (\<lambda>l. \<not> drops_header l) ls \<Longrightarrow> content_length_line (ls @ r) = content_length_line r"
  by (induction ls) (auto simp: drops_header_def strip_prefix_def)

lemma rebuilt_lines_ok:
  "header_line (''Content-Length: '' @ show_nat n)" "header_line ''Accept-Encoding: identity''"
  by (auto simp: header_line_def ascii_literal byte_def show_nat_no_char ascii_utf8)

lemma rebuilt_content_length:
  assumes "n \<le> usize_max"
  shows "content_length_line ((''Content-Length: '' @ show_nat n) # ls) = Some n"
proof -
  have "to_lowercase (''Content-Length: '' @ show_nat n) = ''content-length:'' @ '' '' @ map ascii_lower (show_nat n)"
  proof -
    have "map ascii_lower ''Content-Length: '' = ''content-length: ''" by code_simp
    then show ?thesis by (simp add: to_lowercase_ascii byte_def)
  qed
  moreover have "map ascii_lower (show_nat n) = show_nat n"
    using show_nat_digits by (intro map_idI) (fastforce simp: ascii_lower_def)
  moreover have "trim ('' '' @ show_nat n) = show_nat n"
    using trim_blank_Cons [of "CHR '' ''" "show_nat n"] by (simp add: blank_byte byte_def)
  ultimately show ?thesis
    using parse_show_nat [OF assms] by (simp add: strip_prefix_def)
qed

lemma rebuilt_not_chunked:
  assumes "list_all (\<lambda>l. \<not> drops_header l) ls"
  shows "\<not> list_ex (\<lambda>line. let lo = to_lowercase line in prefix ''transfer-encoding:'' lo \<and> sublist ''chunked'' lo)
     (ls @ [''Content-Length: '' @ show_nat n, ''Accept-Encoding: identity'', []])"
proof -
  have "\<not> prefix ''transfer-encoding:'' (to_lowercase (''Content-Length: '' @ show_nat n))"
    "\<not> prefix ''transfer-encoding:'' (to_lowercase ''Accept-Encoding: identity'')"
    "\<not> prefix ''transfer-encoding:'' (to_lowercase [])"
    by (simp_all add: to_lowercase_ascii byte_def ascii_lower_def)
  with assms show ?thesis by (auto simp: list_ex_iff list_all_iff Let_def drops_header_def)
qed

text \<open>
  A request rewritten for a new body frames itself: its header part ends exactly where the
  body starts, it states the body's length, it is not chunked, and the header lines that do not
  concern framing or compression are kept in order.
\<close>

theorem rebuilt_request_framing:
  assumes "list_all header_line ls" and "length body \<le> usize_max"
  shows "\<exists>kept. kept = filter (\<lambda>l. \<not> drops_header l) ls
     \<and> (let req = rebuild_request_with_content_length (header_block ls) body in
        \<exists>h. find_header_end req = Some h \<and> drop h req = body
          \<and> parse_content_length (take h req) = Some (length body)
          \<and> \<not> is_chunked_encoding (take h req)
          \<and> take (length kept) (str_lines (take h req)) = kept)"
proof -
  let ?kept = "filter (\<lambda>l. \<not> drops_header l) ls"
  let ?ls = "?kept @ [''Content-Length: '' @ show_nat (length body), ''Accept-Encoding: identity'']"
  let ?req = "rebuild_request_with_content_length (header_block ls) body"
  have ok: "list_all header_line ?ls"
    using assms(1) rebuilt_lines_ok by (auto simp: list_all_iff)
  have req: "?req = header_block ?ls @ body"
    using rebuild_lines_block [OF assms(1)] header_block_utf8 [OF assms(1)]
    by (simp add: rebuild_request_with_content_length_def)
  let ?h = "length (header_block ?ls)"
  have "find_header_end ?req = Some ?h"
    unfolding req by (rule find_header_end_block [OF ok]) simp
  moreover have t: "take ?h ?req = header_block ?ls" "drop ?h ?req = body" by (simp_all add: req)
  moreover have sl: "str_lines (header_block ?ls) = ?ls @ [[]]" by (rule str_lines_block [OF ok])
  moreover have k: "list_all (\<lambda>l. \<not> drops_header l) ?kept" by (simp add: list_all_iff)
  have "parse_content_length (header_block ?ls) = Some (length body)"
    unfolding parse_content_length_def sl
    using header_block_utf8 [OF ok] content_length_skip [OF k] rebuilt_content_length [OF assms(2)] by simp
  moreover have "\<not> is_chunked_encoding (header_block ?ls)"
    unfolding is_chunked_encoding_def
    using header_block_utf8 [OF ok] sl rebuilt_not_chunked [OF k] by simp
  ultimately show ?thesis by (simp add: Let_def)
qed

theorem rebuilt_request_framing_witness:
  "\<exists>h. find_header_end (rebuild_request_with_content_length
       (header_block [''POST /v1/messages HTTP/1.1'', ''Transfer-Encoding: chunked'']) ''{}'') = Some h
     \<and> parse_content_length (take h (rebuild_request_with_content_length
       (header_block [''POST /v1/messages HTTP/1.1'', ''Transfer-Encoding: chunked'']) ''{}'')) = Some 2"
proof -
  have "list_all header_line [''POST /v1/messages HTTP/1.1'', ''Transfer-Encoding: chunked'']"
    by (simp add: header_line_def ascii_literal byte_def)
  from rebuilt_request_framing [OF this, of "''{}''"] show ?thesis
    by (auto simp: usize_max_def Let_def)
qed

end
