(* ===== verification/Storage.thy ===== *)
theory Storage
  imports Vault "HOL-Library.List_Lexorder" "HOL-Library.Char_ord"
begin

text \<open>
  The conversation store of \<open>src/src/storage/mod.rs\<close>: one file of lines per conversation, the first
  line its metadata, then messages, at most one vault line, and detection lines.

  \<open>store\<close> is the log directory, as the list of its files in the order in which it is read, and the
  cache of paths. The encoding of records as JSON lines is the parameter \<open>codec\<close>, the clock an
  argument. An operation returns an error of type \<open>store_error\<close> where the code does: a file that
  cannot be opened, a line that is no text, or a header that cannot be read. Writing to an open
  file succeeds, and operations do not interleave, except in \<open>save_vault_locked\<close>, which takes the
  contents that the code reads before it has the lock.
\<close>

section \<open>Records\<close>

record conversation =
  cv_id :: bytes
  started_at :: bytes
  cv_provider :: bytes
  cv_model :: "bytes option"
  client_hint :: "bytes option"

record stored_message =
  sm_id :: bytes
  sm_conversation_id :: bytes
  sm_timestamp :: bytes
  sm_direction :: bytes
  sm_role :: "bytes option"
  sm_content :: bytes
  sm_tokens_in :: "int option"
  sm_tokens_out :: "int option"
  sm_content_masked :: "bytes option"
  sm_pii_processed :: "bool option"

record stored_vault_record =
  sv_original :: bytes
  sv_synthetic :: bytes
  sv_pii_type :: bytes
  sv_tier :: "nat option"
  sv_confidence :: "f32 option"
  sv_token_id :: "bytes option"
  sv_display_value :: "bytes option"

record message_detection =
  md_message_id :: bytes
  md_entity_type :: bytes
  md_original_masked :: bytes
  md_synthetic :: bytes
  md_tier :: nat
  md_confidence :: f32

type_synonym persisted_vault = "64 word \<times> stored_vault_record list"

record codec =
  conv_line :: "conversation \<Rightarrow> bytes"
  conv_of :: "bytes \<Rightarrow> conversation option"
  msg_line :: "stored_message \<Rightarrow> bytes"
  msg_of :: "bytes \<Rightarrow> stored_message option"
  vault_line :: "persisted_vault \<Rightarrow> bytes"
  vault_of :: "bytes \<Rightarrow> persisted_vault option"
  det_line :: "message_detection \<Rightarrow> bytes"
  det_of :: "bytes \<Rightarrow> message_detection option"

datatype store_error = Io_Error | Parse_Error

record store =
  files :: "(bytes, bytes) hashmap"
  path_cache :: "(bytes, bytes) hashmap"

definition store_open :: "(bytes, bytes) hashmap \<Rightarrow> store" where
  "store_open dir = \<lparr>files = dir, path_cache = []\<rparr>"

section \<open>Paths\<close>

definition ndjson_name :: "bytes \<Rightarrow> bytes" where
  "ndjson_name cid = ''_'' @ cid @ ''.ndjson''"

definition conv_file_path :: "bytes \<Rightarrow> store \<Rightarrow> bytes option \<times> store" where
  "conv_file_path cid st =
     (case hm_get (path_cache st) cid of
        Some p \<Rightarrow> (Some p, st)
      | None \<Rightarrow>
          (case find (\<lambda>(n, _). suffix (ndjson_name cid) n) (files st) of
             None \<Rightarrow> (None, st)
           | Some (n, _) \<Rightarrow> (Some n, st\<lparr>path_cache := hm_insert cid n (path_cache st)\<rparr>)))"

text \<open>The clock gives the date and the time of day as \<open>%Y-%m-%d\<close> and \<open>%H%M%SZ\<close>.\<close>

record clock =
  today :: bytes
  time_of_day :: bytes

definition new_conv_file_path :: "clock \<Rightarrow> bytes \<Rightarrow> bytes" where
  "new_conv_file_path now cid = today now @ ''T'' @ time_of_day now @ ''_'' @ cid @ ''.ndjson''"

section \<open>Reading lines\<close>

definition read_conv_header :: "codec \<Rightarrow> store \<Rightarrow> bytes \<Rightarrow> store_error + conversation" where
  "read_conv_header C st path =
     (case hm_get (files st) path of
        None \<Rightarrow> Inl Io_Error
      | Some content \<Rightarrow>
          (let line = (case split_incl content of l # _ \<Rightarrow> l | [] \<Rightarrow> []) in
           if \<not> utf8_valid line then Inl Io_Error
           else (case conv_of C (trim line) of Some c \<Rightarrow> Inr c | None \<Rightarrow> Inl Parse_Error)))"

text \<open>The loops over \<open>reader.lines()\<close>: a line that is no text ends the loop with an error.\<close>

fun messages_loop :: "codec \<Rightarrow> nat \<Rightarrow> bytes list \<Rightarrow> store_error + stored_message list" where
  "messages_loop C i [] = Inr []"
| "messages_loop C i (line # ls) =
     (if \<not> utf8_valid line then Inl Io_Error
      else if i = 0 \<or> trim line = [] then messages_loop C (Suc i) ls
      else (case messages_loop C (Suc i) ls of
              Inl e \<Rightarrow> Inl e
            | Inr ms \<Rightarrow> Inr ((case msg_of C line of Some m \<Rightarrow> [m] | None \<Rightarrow> []) @ ms)))"

definition read_messages :: "codec \<Rightarrow> store \<Rightarrow> bytes \<Rightarrow> store_error + stored_message list" where
  "read_messages C st path =
     (case hm_get (files st) path of
        None \<Rightarrow> Inl Io_Error
      | Some content \<Rightarrow> messages_loop C 0 (str_lines content))"

section \<open>Operations\<close>

definition insert_conversation :: "codec \<Rightarrow> clock \<Rightarrow> conversation \<Rightarrow> store \<Rightarrow> store" where
  "insert_conversation C now conv st =
     (let path = new_conv_file_path now (cv_id conv) in
      st\<lparr>files := hm_insert path (conv_line C conv @ [LF]) (files st),
         path_cache := hm_insert (cv_id conv) path (path_cache st)\<rparr>)"

text \<open>Opening for append fails when the file does not exist.\<close>

definition append_to :: "bytes \<Rightarrow> bytes \<Rightarrow> store \<Rightarrow> store_error + store" where
  "append_to path buf st =
     (case hm_get (files st) path of
        None \<Rightarrow> Inl Io_Error
      | Some content \<Rightarrow> Inr (st\<lparr>files := hm_insert path (content @ buf) (files st)\<rparr>))"

definition batch_insert_messages :: "codec \<Rightarrow> stored_message list \<Rightarrow> store \<Rightarrow> store_error + store" where
  "batch_insert_messages C ms st =
     (case ms of [] \<Rightarrow> Inr st
      | m # _ \<Rightarrow>
          (case conv_file_path (sm_conversation_id m) st of
             (None, st1) \<Rightarrow> Inr st1
           | (Some path, st1) \<Rightarrow> append_to path (concat (map (\<lambda>m. msg_line C m @ [LF]) ms)) st1))"

definition insert_message :: "codec \<Rightarrow> stored_message \<Rightarrow> store \<Rightarrow> store_error + store" where
  "insert_message C m st = batch_insert_messages C [m] st"

definition has_extension :: "bytes \<Rightarrow> bool" where
  "has_extension n = (case rsplit_once (CHR ''.'') n of Some (base, e) \<Rightarrow> base \<noteq> [] \<and> e = ''ndjson'' | None \<Rightarrow> False)"

definition list_conversations :: "codec \<Rightarrow> nat \<Rightarrow> store \<Rightarrow> conversation list" where
  "list_conversations C limit st =
     (let entries = rev (sort (filter has_extension (map fst (files st))))
      in List.map_filter (\<lambda>n. case read_conv_header C st n of Inr c \<Rightarrow> Some c | Inl _ \<Rightarrow> None) (take limit entries))"

definition get_messages :: "codec \<Rightarrow> bytes \<Rightarrow> store \<Rightarrow> (store_error + stored_message list) \<times> store" where
  "get_messages C cid st =
     (case conv_file_path cid st of
        (None, st1) \<Rightarrow> (Inr [], st1)
      | (Some path, st1) \<Rightarrow> (read_messages C st1 path, st1))"

definition get_conversation_by_id :: "codec \<Rightarrow> bytes \<Rightarrow> store \<Rightarrow> conversation option \<times> store" where
  "get_conversation_by_id C cid st =
     (case conv_file_path cid st of
        (None, st1) \<Rightarrow> (None, st1)
      | (Some path, st1) \<Rightarrow> (case read_conv_header C st1 path of Inr c \<Rightarrow> Some c | Inl _ \<Rightarrow> None, st1))"

fun find_fingerprint :: "codec \<Rightarrow> bytes \<Rightarrow> bytes \<Rightarrow> bytes \<Rightarrow> store \<Rightarrow> bytes list \<Rightarrow> bytes option" where
  "find_fingerprint C day prov fp st [] = None"
| "find_fingerprint C day prov fp st (n # ns) =
     (if \<not> prefix day n \<or> \<not> suffix ''.ndjson'' n then find_fingerprint C day prov fp st ns
      else (case read_conv_header C st n of
              Inr c \<Rightarrow> if cv_provider c = prov \<and> client_hint c = Some fp then Some (cv_id c)
                       else find_fingerprint C day prov fp st ns
            | Inl _ \<Rightarrow> find_fingerprint C day prov fp st ns))"

definition find_conversation_by_fingerprint ::
    "codec \<Rightarrow> clock \<Rightarrow> bytes \<Rightarrow> bytes \<Rightarrow> store \<Rightarrow> bytes option outcome" where
  "find_conversation_by_fingerprint C now prov fp st =
     and_then (str_slice fp 0 (min (length fp) 8)) (\<lambda>_.
       Done (find_fingerprint C (today now) prov fp st (map fst (files st))))"

definition is_request :: "codec \<Rightarrow> bytes \<Rightarrow> bool" where
  "is_request C line \<longleftrightarrow>
     utf8_valid line \<and> (case msg_of C line of Some m \<Rightarrow> sm_direction m = ''request'' | None \<Rightarrow> False)"

definition count_request_messages :: "codec \<Rightarrow> bytes \<Rightarrow> store \<Rightarrow> nat \<times> store" where
  "count_request_messages C cid st =
     (case conv_file_path cid st of
        (None, st1) \<Rightarrow> (0, st1)
      | (Some path, st1) \<Rightarrow>
          (case hm_get (files st1) path of
             None \<Rightarrow> (0, st1)
           | Some content \<Rightarrow> (length (filter (is_request C) (drop 1 (str_lines content))), st1)))"

definition rotate_old :: "clock \<Rightarrow> store \<Rightarrow> nat \<times> store" where
  "rotate_old now st =
     (let old = (\<lambda>n. suffix ''.ndjson'' n \<and> \<not> prefix (today now) n)
      in (length (filter (\<lambda>(n, _). old n) (files st)), st\<lparr>files := filter (\<lambda>(n, _). \<not> old n) (files st)\<rparr>))"

definition export_all :: "codec \<Rightarrow> store \<Rightarrow> (conversation \<times> stored_message list) list" where
  "export_all C st =
     List.map_filter (\<lambda>n.
       if \<not> has_extension n then None
       else (case read_conv_header C st n of
               Inl _ \<Rightarrow> None
             | Inr c \<Rightarrow> Some (c, case read_messages C st n of Inr ms \<Rightarrow> ms | Inl _ \<Rightarrow> [])))
       (map fst (files st))"

section \<open>Vault lines\<close>

definition type_marker :: "bytes \<Rightarrow> bytes" where
  "type_marker t = [QUOTE] @ ''type'' @ [QUOTE] @ '':'' @ [QUOTE] @ t @ [QUOTE]"

definition some_nonempty :: "bytes \<Rightarrow> bytes option" where
  "some_nonempty s = (if s = [] then None else Some s)"

definition to_stored :: "bytes \<times> bytes \<times> bytes \<times> nat \<times> f32 \<times> bytes \<times> bytes \<Rightarrow> stored_vault_record" where
  "to_stored r =
     (let (orig, synth, ty, tier, conf, tid, dv) = r in
      \<lparr>sv_original = orig, sv_synthetic = synth, sv_pii_type = ty, sv_tier = Some tier, sv_confidence = Some conf,
       sv_token_id = some_nonempty tid, sv_display_value = some_nonempty dv\<rparr>)"

fun replace_first :: "('a \<Rightarrow> bool) \<Rightarrow> 'a \<Rightarrow> 'a list \<Rightarrow> 'a list" where
  "replace_first P y [] = []"
| "replace_first P y (x # xs) = (if P x then y # xs else x # replace_first P y xs)"

fun join_lines :: "bytes list \<Rightarrow> bytes" where
  "join_lines [] = []"
| "join_lines [x] = x"
| "join_lines (x # y # ys) = x @ [LF] @ join_lines (y # ys)"

text \<open>
  The part of \<open>save_vault\<close> under the lock. \<open>pre_content\<close> was read before; the file is read again only
  if a vault line was there already.
\<close>

definition save_vault_locked :: "bytes \<Rightarrow> bytes \<Rightarrow> bytes \<Rightarrow> store \<Rightarrow> store_error + store" where
  "save_vault_locked line path pre_content st =
     (case (if sublist (type_marker ''vault'') pre_content then hm_get (files st) path else Some pre_content) of
        None \<Rightarrow> Inl Io_Error
      | Some content \<Rightarrow>
          if \<not> utf8_valid content then Inl Io_Error
          else
            let ls = str_lines content; is_vault = sublist (type_marker ''vault'') in
            if list_ex is_vault ls
            then Inr (st\<lparr>files := hm_insert path (join_lines (replace_first is_vault (trim_end_matches LF line) ls) @ [LF])
                                   (files st)\<rparr>)
            else append_to path line st)"

definition save_vault ::
    "codec \<Rightarrow> bytes \<Rightarrow> 64 word \<Rightarrow> (bytes \<times> bytes \<times> bytes \<times> nat \<times> f32 \<times> bytes \<times> bytes) list \<Rightarrow> store
       \<Rightarrow> store_error + store" where
  "save_vault C cid seed records st =
     (case conv_file_path cid st of
        (None, st1) \<Rightarrow> Inr st1
      | (Some path, st1) \<Rightarrow>
          (case hm_get (files st1) path of
             None \<Rightarrow> Inl Io_Error
           | Some pre_content \<Rightarrow>
               if \<not> utf8_valid pre_content then Inl Io_Error
               else save_vault_locked (vault_line C (seed, map to_stored records) @ [LF]) path pre_content st1))"

fun vault_loop :: "codec \<Rightarrow> bytes list \<Rightarrow> store_error + persisted_vault option" where
  "vault_loop C [] = Inr None"
| "vault_loop C (line # ls) =
     (if \<not> utf8_valid line then Inl Io_Error
      else if sublist (type_marker ''vault'') line then Inr (vault_of C line)
      else vault_loop C ls)"

definition load_vault :: "codec \<Rightarrow> bytes \<Rightarrow> store \<Rightarrow> (store_error + persisted_vault option) \<times> store" where
  "load_vault C cid st =
     (case conv_file_path cid st of
        (None, st1) \<Rightarrow> (Inr None, st1)
      | (Some path, st1) \<Rightarrow>
          (case hm_get (files st1) path of
             None \<Rightarrow> (Inl Io_Error, st1)
           | Some content \<Rightarrow> (vault_loop C (str_lines content), st1)))"

section \<open>Detection lines\<close>

definition insert_detections :: "codec \<Rightarrow> bytes \<Rightarrow> message_detection list \<Rightarrow> store \<Rightarrow> store_error + store" where
  "insert_detections C cid ds st =
     (if ds = [] then Inr st
      else (case conv_file_path cid st of
              (None, st1) \<Rightarrow> Inr st1
            | (Some path, st1) \<Rightarrow> append_to path (concat (map (\<lambda>d. det_line C d @ [LF]) ds)) st1))"

fun detections_loop :: "codec \<Rightarrow> bytes option \<Rightarrow> bytes list \<Rightarrow> store_error + message_detection list" where
  "detections_loop C mid [] = Inr []"
| "detections_loop C mid (line # ls) =
     (if \<not> utf8_valid line then Inl Io_Error
      else if \<not> sublist (type_marker ''detection'') line then detections_loop C mid ls
      else (case detections_loop C mid ls of
              Inl e \<Rightarrow> Inl e
            | Inr ds \<Rightarrow>
                Inr ((case det_of C line of
                        Some d \<Rightarrow> (case mid of
                                     Some m \<Rightarrow> if md_message_id d \<noteq> m then [] else [d]
                                   | None \<Rightarrow> [d])
                      | None \<Rightarrow> []) @ ds)))"

definition load_detections ::
    "codec \<Rightarrow> bytes \<Rightarrow> bytes option \<Rightarrow> store \<Rightarrow> (store_error + message_detection list) \<times> store" where
  "load_detections C cid mid st =
     (case conv_file_path cid st of
        (None, st1) \<Rightarrow> (Inr [], st1)
      | (Some path, st1) \<Rightarrow>
          (case hm_get (files st1) path of
             None \<Rightarrow> (Inl Io_Error, st1)
           | Some content \<Rightarrow> (detections_loop C mid (str_lines content), st1)))"

section \<open>The file as a log\<close>

text \<open>
  What a conversation file promises, without its text: a conversation and a list of records, to
  which messages and detections are appended, and in which at most one vault is replaced in place.
\<close>

datatype log_record = Msg_Rec stored_message | Vault_Rec persisted_vault | Det_Rec message_detection

fun is_vault_rec :: "log_record \<Rightarrow> bool" where
  "is_vault_rec (Vault_Rec _) = True" | "is_vault_rec _ = False"

fun is_det_rec :: "log_record \<Rightarrow> bool" where
  "is_det_rec (Det_Rec _) = True" | "is_det_rec _ = False"

datatype store_op =
    Insert_Messages "stored_message list"
  | Save_Vault "64 word" "(bytes \<times> bytes \<times> bytes \<times> nat \<times> f32 \<times> bytes \<times> bytes) list"
  | Insert_Detections "message_detection list"

fun op_records :: "store_op \<Rightarrow> log_record list" where
  "op_records (Insert_Messages ms) = map Msg_Rec ms"
| "op_records (Save_Vault seed rs) = [Vault_Rec (seed, map to_stored rs)]"
| "op_records (Insert_Detections ds) = map Det_Rec ds"

fun log_step :: "store_op \<Rightarrow> log_record list \<Rightarrow> log_record list" where
  "log_step (Save_Vault seed rs) xs =
     (let v = Vault_Rec (seed, map to_stored rs) in
      if list_ex is_vault_rec xs then replace_first is_vault_rec v xs else xs @ [v])"
| "log_step op xs = xs @ op_records op"

fun log_messages :: "log_record list \<Rightarrow> stored_message list" where
  "log_messages [] = []"
| "log_messages (Msg_Rec m # xs) = m # log_messages xs"
| "log_messages (_ # xs) = log_messages xs"

fun log_vault :: "log_record list \<Rightarrow> persisted_vault option" where
  "log_vault [] = None"
| "log_vault (Vault_Rec v # xs) = Some v"
| "log_vault (_ # xs) = log_vault xs"

fun log_detections :: "log_record list \<Rightarrow> message_detection list" where
  "log_detections [] = []"
| "log_detections (Det_Rec d # xs) = d # log_detections xs"
| "log_detections (_ # xs) = log_detections xs"

text \<open>The operation of the store that a step of the log stands for.\<close>

fun exec_op :: "codec \<Rightarrow> bytes \<Rightarrow> store_op \<Rightarrow> store \<Rightarrow> store_error + store" where
  "exec_op C cid (Insert_Messages ms) st = batch_insert_messages C ms st"
| "exec_op C cid (Save_Vault seed rs) st = save_vault C cid seed rs st"
| "exec_op C cid (Insert_Detections ds) st = insert_detections C cid ds st"

fun exec_ops :: "codec \<Rightarrow> bytes \<Rightarrow> store_op list \<Rightarrow> store \<Rightarrow> store_error + store" where
  "exec_ops C cid [] st = Inr st"
| "exec_ops C cid (op # ops) st =
     (case exec_op C cid op st of Inl e \<Rightarrow> Inl e | Inr st1 \<Rightarrow> exec_ops C cid ops st1)"

text \<open>The encoding of a record is one line of text that is read back, and carries its marker.\<close>

definition text_line :: "bytes \<Rightarrow> bool" where
  "text_line l \<longleftrightarrow> LF \<notin> set l \<and> CR \<notin> set l \<and> utf8_valid l"

fun rec_line :: "codec \<Rightarrow> log_record \<Rightarrow> bytes" where
  "rec_line C (Msg_Rec m) = msg_line C m"
| "rec_line C (Vault_Rec v) = vault_line C v"
| "rec_line C (Det_Rec d) = det_line C d"

fun decodes :: "codec \<Rightarrow> log_record \<Rightarrow> bool" where
  "decodes C (Msg_Rec m) \<longleftrightarrow> msg_of C (msg_line C m) = Some m"
| "decodes C (Vault_Rec v) \<longleftrightarrow> msg_of C (vault_line C v) = None \<and> vault_of C (vault_line C v) = Some v"
| "decodes C (Det_Rec d) \<longleftrightarrow> msg_of C (det_line C d) = None \<and> det_of C (det_line C d) = Some d"

definition rec_ok :: "codec \<Rightarrow> log_record \<Rightarrow> bool" where
  "rec_ok C x \<longleftrightarrow>
     (let l = rec_line C x in
      text_line l \<and> trim l \<noteq> [] \<and> decodes C x \<and>
      (sublist (type_marker ''vault'') l \<longleftrightarrow> is_vault_rec x) \<and>
      (sublist (type_marker ''detection'') l \<longleftrightarrow> is_det_rec x))"

definition header_ok :: "codec \<Rightarrow> conversation \<Rightarrow> bool" where
  "header_ok C c \<longleftrightarrow>
     (let l = conv_line C c in
      text_line l \<and> conv_of C (trim (l @ [LF])) = Some c \<and>
      \<not> sublist (type_marker ''vault'') l \<and> \<not> sublist (type_marker ''detection'') l)"

definition op_ok :: "codec \<Rightarrow> bytes \<Rightarrow> store_op \<Rightarrow> bool" where
  "op_ok C cid op \<longleftrightarrow>
     list_all (rec_ok C) (op_records op) \<and>
     (case op of Insert_Messages (m # _) \<Rightarrow> sm_conversation_id m = cid | _ \<Rightarrow> True)"

subsection \<open>Lines\<close>

definition unlines :: "bytes list \<Rightarrow> bytes" where
  "unlines ls = concat (map (\<lambda>l. l @ [LF]) ls)"

lemma unlines_simps [simp]: "unlines [] = []" "unlines (l # ls) = l @ LF # unlines ls"
    "unlines (ls @ ls') = unlines ls @ unlines ls'"
  by (simp_all add: unlines_def)

lemma str_lines_unlines: "list_all text_line ls \<Longrightarrow> str_lines (unlines ls) = ls"
  by (induction ls) (auto simp: str_lines_line text_line_def dest: last_in_set)

lemma join_lines_unlines: "ls \<noteq> [] \<Longrightarrow> join_lines ls @ [LF] = unlines ls"
  by (induction ls rule: join_lines.induct) auto

lemma utf8_unlines: "list_all text_line ls \<Longrightarrow> utf8_valid (unlines ls)"
  by (induction ls)
    (auto simp: text_line_def byte_def intro!: utf8_valid_append iffD2 [OF utf8_valid_ascii_Cons])

lemma sublist_no_sep:
  assumes "x \<notin> set n" and "n \<noteq> []"
  shows "sublist n (l @ x # r) \<longleftrightarrow> sublist n l \<or> sublist n r"
  using assms by (auto simp: sublist_append sublist_Cons_right prefix_Cons)

lemma LF_not_in_marker: "t \<in> {''vault'', ''detection''} \<Longrightarrow> LF \<notin> set (type_marker t)"
  by (auto simp: type_marker_def)

lemma marker_unlines:
  assumes "t \<in> {''vault'', ''detection''}"
  shows "sublist (type_marker t) (unlines ls) \<longleftrightarrow> list_ex (sublist (type_marker t)) ls"
proof (induction ls)
  case Nil
  show ?case by (simp add: type_marker_def)
next
  case (Cons l ls)
  then show ?case
    using sublist_no_sep [OF LF_not_in_marker [OF assms]] by (simp add: type_marker_def)
qed

lemma map_replace_first:
  "(\<And>x. x \<in> set xs \<Longrightarrow> P (f x) \<longleftrightarrow> Q x) \<Longrightarrow> map f (replace_first Q y xs) = replace_first P (f y) (map f xs)"
  by (induction xs) auto

lemma set_replace_first: "set (replace_first P y xs) \<subseteq> insert y (set xs)"
  by (induction xs) auto

subsection \<open>Refinement\<close>

definition file_of :: "codec \<Rightarrow> conversation \<Rightarrow> log_record list \<Rightarrow> bytes" where
  "file_of C c xs = unlines (conv_line C c # map (rec_line C) xs)"

definition represents :: "codec \<Rightarrow> bytes \<Rightarrow> conversation \<Rightarrow> store \<Rightarrow> log_record list \<Rightarrow> bool" where
  "represents C cid c st xs \<longleftrightarrow>
     (\<exists>path. hm_get (path_cache st) cid = Some path \<and> hm_get (files st) path = Some (file_of C c xs)) \<and>
     header_ok C c \<and> list_all (rec_ok C) xs"

lemma representsE:
  assumes "represents C cid c st xs"
  obtains path where "conv_file_path cid st = (Some path, st)" "hm_get (files st) path = Some (file_of C c xs)"
  using assms by (auto simp: represents_def conv_file_path_def)

lemma represents_ok: "represents C cid c st xs \<Longrightarrow> header_ok C c \<and> list_all (rec_ok C) xs"
  by (simp add: represents_def)

lemma text_lines_of:
  "header_ok C c \<Longrightarrow> list_all (rec_ok C) xs \<Longrightarrow> list_all text_line (conv_line C c # map (rec_line C) xs)"
  by (auto simp: header_ok_def rec_ok_def list_all_iff Let_def)

lemma lines_file_of:
  "header_ok C c \<Longrightarrow> list_all (rec_ok C) xs \<Longrightarrow>
   str_lines (file_of C c xs) = conv_line C c # map (rec_line C) xs"
  unfolding file_of_def by (rule str_lines_unlines [OF text_lines_of])

lemma represents_write:
  assumes "represents C cid c st xs" and "conv_file_path cid st = (Some path, st)"
    and "list_all (rec_ok C) ys"
  shows "represents C cid c (st\<lparr>files := hm_insert path (file_of C c ys) (files st)\<rparr>) ys"
  using assms by (auto simp: represents_def conv_file_path_def hm.get_put split: option.splits)

lemma represents_append:
  assumes r: "represents C cid c st xs" and p: "conv_file_path cid st = (Some path, st)"
    and ok: "list_all (rec_ok C) ys"
    and buf: "buf = unlines (map (rec_line C) ys)"
  shows "\<exists>st'. append_to path buf st = Inr st' \<and> represents C cid c st' (xs @ ys)"
proof -
  have f: "hm_get (files st) path = Some (file_of C c xs)" using r p by (auto elim!: representsE)
  have "file_of C c (xs @ ys) = file_of C c xs @ buf" by (simp add: file_of_def buf)
  with represents_write [OF r p, of "xs @ ys"] represents_ok [OF r] ok
  show ?thesis by (simp add: append_to_def f)
qed

lemma insert_conversation_represents:
  "header_ok C c \<Longrightarrow> represents C (cv_id c) c (insert_conversation C now c st) []"
  by (auto simp: represents_def insert_conversation_def Let_def hm.get_put file_of_def)

lemma batch_insert_refines:
  assumes "represents C cid c st xs" and "op_ok C cid (Insert_Messages ms)"
  shows "\<exists>st'. batch_insert_messages C ms st = Inr st' \<and> represents C cid c st' (xs @ map Msg_Rec ms)"
proof (cases ms)
  case Nil
  then show ?thesis using assms by (simp add: batch_insert_messages_def)
next
  case (Cons m ms')
  obtain path where p: "conv_file_path cid st = (Some path, st)" using assms(1) by (rule representsE)
  show ?thesis
    using represents_append [OF assms(1) p, of "map Msg_Rec ms"] assms(2) Cons p
    by (simp add: batch_insert_messages_def op_ok_def unlines_def comp_def)
qed

lemma insert_detections_refines:
  assumes "represents C cid c st xs" and "op_ok C cid (Insert_Detections ds)"
  shows "\<exists>st'. insert_detections C cid ds st = Inr st' \<and> represents C cid c st' (xs @ map Det_Rec ds)"
proof -
  obtain path where p: "conv_file_path cid st = (Some path, st)" using assms(1) by (rule representsE)
  show ?thesis
    using represents_append [OF assms(1) p, of "map Det_Rec ds"] assms p
    by (simp add: insert_detections_def op_ok_def unlines_def comp_def)
qed

lemma list_ex_vault:
  "list_all (rec_ok C) xs \<Longrightarrow> list_ex (sublist (type_marker ''vault'')) (map (rec_line C) xs) = list_ex is_vault_rec xs"
  by (induction xs) (auto simp: rec_ok_def Let_def)

lemma trim_end_LF: "LF \<notin> set l \<Longrightarrow> trim_end_matches LF (l @ [LF]) = l"
  by (cases l rule: rev_cases) (auto simp: trim_end_matches_def)

lemma save_vault_refines:
  assumes r: "represents C cid c st xs" and ok: "op_ok C cid (Save_Vault seed rs)"
  shows "\<exists>st'. save_vault C cid seed rs st = Inr st' \<and> represents C cid c st' (log_step (Save_Vault seed rs) xs)"
proof -
  let ?v = "Vault_Rec (seed, map to_stored rs)" and ?vm = "sublist (type_marker ''vault'')"
  let ?ls = "conv_line C c # map (rec_line C) xs"
  obtain path where p: "conv_file_path cid st = (Some path, st)"
    and f: "hm_get (files st) path = Some (file_of C c xs)" using r by (rule representsE)
  have h: "header_ok C c" and xs: "list_all (rec_ok C) xs" using represents_ok [OF r] by auto
  have v: "rec_ok C ?v" using ok by (simp add: op_ok_def)
  then have vl: "LF \<notin> set (vault_line C (seed, map to_stored rs))" by (simp add: rec_ok_def Let_def text_line_def)
  have u: "utf8_valid (file_of C c xs)" unfolding file_of_def by (rule utf8_unlines [OF text_lines_of [OF h xs]])
  have has: "?vm (file_of C c xs) = list_ex is_vault_rec xs" "list_ex ?vm ?ls = list_ex is_vault_rec xs"
    using h list_ex_vault [OF xs] unfolding file_of_def
    by (simp_all add: marker_unlines header_ok_def Let_def del: unlines_simps)
  have step: "save_vault C cid seed rs st =
      (if list_ex is_vault_rec xs
       then Inr (st\<lparr>files := hm_insert path
                  (join_lines (replace_first ?vm (rec_line C ?v) ?ls) @ [LF]) (files st)\<rparr>)
       else append_to path (rec_line C ?v @ [LF]) st)"
    using p f u has by (simp add: save_vault_def save_vault_locked_def lines_file_of [OF h xs] trim_end_LF [OF vl])
  show ?thesis
  proof (cases "list_ex is_vault_rec xs")
    case False
    then show ?thesis using represents_append [OF r p, of "[?v]"] v step by simp
  next
    case True
    let ?ys = "replace_first is_vault_rec ?v xs"
    have ys: "list_all (rec_ok C) ?ys"
      using set_replace_first [of is_vault_rec ?v xs] xs v by (auto simp: list_all_iff)
    have "replace_first ?vm (rec_line C ?v) ?ls = conv_line C c # map (rec_line C) ?ys"
      using h xs map_replace_first [of xs ?vm "rec_line C" is_vault_rec ?v]
      by (auto simp: header_ok_def rec_ok_def list_all_iff Let_def)
    then have "join_lines (replace_first ?vm (rec_line C ?v) ?ls) @ [LF] = file_of C c ?ys"
      by (simp add: join_lines_unlines file_of_def)
    then show ?thesis using represents_write [OF r p ys] step True by simp
  qed
qed

lemma exec_op_refines:
  "represents C cid c st xs \<Longrightarrow> op_ok C cid op \<Longrightarrow>
   \<exists>st'. exec_op C cid op st = Inr st' \<and> represents C cid c st' (log_step op xs)"
  by (cases op) (simp_all add: batch_insert_refines insert_detections_refines save_vault_refines del: log_step.simps(1))

lemma exec_ops_refines:
  "represents C cid c st xs \<Longrightarrow> list_all (op_ok C cid) ops \<Longrightarrow>
   \<exists>st'. exec_ops C cid ops st = Inr st' \<and> represents C cid c st' (fold log_step ops xs)"
proof (induction ops arbitrary: st xs)
  case (Cons op ops)
  then obtain st1 where "exec_op C cid op st = Inr st1" "represents C cid c st1 (log_step op xs)"
    using exec_op_refines by fastforce
  then show ?case using Cons.IH [of st1 "log_step op xs"] Cons.prems(2) by simp
qed simp


subsection \<open>Reading\<close>

lemma messages_loop_log:
  "list_all (rec_ok C) xs \<Longrightarrow> messages_loop C (Suc i) (map (rec_line C) xs) = Inr (log_messages xs)"
proof (induction xs arbitrary: i)
  case (Cons x xs)
  then show ?case by (cases x) (simp_all add: rec_ok_def text_line_def Let_def)
qed simp

lemma vault_loop_log:
  "list_all (rec_ok C) xs \<Longrightarrow> vault_loop C (map (rec_line C) xs) = Inr (log_vault xs)"
proof (induction xs)
  case (Cons x xs)
  then show ?case by (cases x) (simp_all add: rec_ok_def text_line_def Let_def)
qed simp

lemma detections_loop_log:
  "list_all (rec_ok C) xs \<Longrightarrow>
   detections_loop C mid (map (rec_line C) xs) =
     Inr (filter (\<lambda>d. case mid of Some m \<Rightarrow> md_message_id d = m | None \<Rightarrow> True) (log_detections xs))"
proof (induction xs)
  case (Cons x xs)
  then show ?case by (cases x; cases mid) (simp_all add: rec_ok_def text_line_def Let_def)
qed simp

lemma count_log:
  "list_all (rec_ok C) xs \<Longrightarrow>
   length (filter (is_request C) (map (rec_line C) xs)) =
     length (filter (\<lambda>m. sm_direction m = ''request'') (log_messages xs))"
proof (induction xs)
  case (Cons x xs)
  then show ?case by (cases x) (simp_all add: is_request_def rec_ok_def text_line_def Let_def)
qed simp

lemma log_messages_append: "log_messages (xs @ ys) = log_messages xs @ log_messages ys"
  by (induction xs rule: log_messages.induct) simp_all

lemma log_messages_Msg: "log_messages (map Msg_Rec ms) = ms" "log_messages (map Det_Rec ds) = []"
  by (induction ms) (auto, induction ds, auto)

lemma log_messages_replace:
  "log_messages (replace_first is_vault_rec (Vault_Rec v) xs) = log_messages xs"
  by (induction xs rule: log_messages.induct) simp_all

lemma log_vault_save: "log_vault (log_step (Save_Vault seed rs) xs) = Some (seed, map to_stored rs)"
  by (induction xs rule: log_vault.induct) (auto simp: Let_def)

lemma log_vault_append: "list_all (\<lambda>y. \<not> is_vault_rec y) ys \<Longrightarrow> log_vault (xs @ ys) = log_vault xs"
proof (induction xs rule: log_vault.induct)
  case 1
  then show ?case by (induction ys rule: log_vault.induct) simp_all
qed simp_all

text \<open>The messages and the vault that a sequence of operations leaves behind.\<close>

fun sent :: "store_op \<Rightarrow> stored_message list" where
  "sent (Insert_Messages ms) = ms" | "sent _ = []"

fun saved :: "store_op \<Rightarrow> persisted_vault option" where
  "saved (Save_Vault seed rs) = Some (seed, map to_stored rs)" | "saved _ = None"

lemma messages_step: "log_messages (log_step op xs) = log_messages xs @ sent op"
  by (cases op) (simp_all add: log_messages_append log_messages_Msg log_messages_replace Let_def)

lemma vault_step: "log_vault (log_step op xs) = (case saved op of Some v \<Rightarrow> Some v | None \<Rightarrow> log_vault xs)"
  by (cases op) (simp_all add: log_vault_append list_all_iff log_vault_save del: log_step.simps(1))

lemma messages_fold: "log_messages (fold log_step ops xs) = log_messages xs @ concat (map sent ops)"
  by (induction ops arbitrary: xs) (simp_all add: messages_step)

lemma vault_fold:
  "log_vault (fold log_step ops xs) =
     (case List.map_filter saved ops of [] \<Rightarrow> log_vault xs | v # vs \<Rightarrow> Some (last (v # vs)))"
  by (induction ops arbitrary: xs)
    (auto simp: vault_step List.map_filter_simps split: option.splits list.splits)

lemma represents_reads:
  assumes "represents C cid c st xs"
  shows "get_messages C cid st = (Inr (log_messages xs), st)"
    and "load_vault C cid st = (Inr (log_vault xs), st)"
    and "load_detections C cid mid st =
      (Inr (filter (\<lambda>d. case mid of Some m \<Rightarrow> md_message_id d = m | None \<Rightarrow> True) (log_detections xs)), st)"
    and "get_conversation_by_id C cid st = (Some c, st)"
    and "count_request_messages C cid st =
      (length (filter (\<lambda>m. sm_direction m = ''request'') (log_messages xs)), st)"
proof -
  obtain path where p: "conv_file_path cid st = (Some path, st)"
    and f: "hm_get (files st) path = Some (file_of C c xs)" using assms by (rule representsE)
  have h: "header_ok C c" and xs: "list_all (rec_ok C) xs" using represents_ok [OF assms] by auto
  then have t: "utf8_valid (conv_line C c)" "LF \<notin> set (conv_line C c)"
    "\<not> sublist (type_marker ''vault'') (conv_line C c)" "\<not> sublist (type_marker ''detection'') (conv_line C c)"
    by (simp_all add: header_ok_def text_line_def Let_def)
  note [simp] = p f lines_file_of [OF h xs] t
  show "get_messages C cid st = (Inr (log_messages xs), st)"
    using messages_loop_log [OF xs, of 0] by (simp add: get_messages_def read_messages_def)
  show "load_vault C cid st = (Inr (log_vault xs), st)"
    using vault_loop_log [OF xs] by (simp add: load_vault_def)
  show "load_detections C cid mid st =
      (Inr (filter (\<lambda>d. case mid of Some m \<Rightarrow> md_message_id d = m | None \<Rightarrow> True) (log_detections xs)), st)"
    using detections_loop_log [OF xs, of mid] by (simp add: load_detections_def)
  show "count_request_messages C cid st =
      (length (filter (\<lambda>m. sm_direction m = ''request'') (log_messages xs)), st)"
    using count_log [OF xs] by (simp add: count_request_messages_def)
  have "utf8_valid (conv_line C c @ [LF])"
    using t by (simp add: utf8_valid_append utf8_valid_ascii_Cons byte_def)
  then show "get_conversation_by_id C cid st = (Some c, st)"
    using h by (simp add: get_conversation_by_id_def read_conv_header_def file_of_def split_incl_line header_ok_def Let_def)
qed


section \<open>Properties\<close>

text \<open>
  C5. The store refines the log. After a conversation is created, any sequence of message inserts,
  vault saves and detection inserts succeeds, and then: the messages read back are those inserted,
  all of them and in order; the vault read back is the one saved last, wherever its line stands;
  the conversation is still found; and the number of requests is that of the messages sent.
\<close>

theorem store_refines_log:
  assumes "header_ok C c" and "list_all (op_ok C (cv_id c)) ops"
  shows "\<exists>st. exec_ops C (cv_id c) ops (insert_conversation C now c st0) = Inr st \<and>
    get_messages C (cv_id c) st = (Inr (concat (map sent ops)), st) \<and>
    load_vault C (cv_id c) st =
      (Inr (case List.map_filter saved ops of [] \<Rightarrow> None | v # vs \<Rightarrow> Some (last (v # vs))), st) \<and>
    get_conversation_by_id C (cv_id c) st = (Some c, st) \<and>
    count_request_messages C (cv_id c) st =
      (length (filter (\<lambda>m. sm_direction m = ''request'') (concat (map sent ops))), st)"
proof -
  obtain st where "exec_ops C (cv_id c) ops (insert_conversation C now c st0) = Inr st"
    and "represents C (cv_id c) c st (fold log_step ops [])"
    using exec_ops_refines [OF insert_conversation_represents [OF assms(1)] assms(2)] by blast
  then show ?thesis
    using represents_reads [of C "cv_id c" c st] messages_fold [of ops "[]"] vault_fold [of ops "[]"]
    by (simp split: list.split)
qed


text \<open>
  Rotation deletes files whose paths stay cached. A conversation of an earlier day that is in
  the cache is then an error to read and to append to, where a store opened afresh finds none.
\<close>

theorem rotation_leaves_stale_paths:
  assumes "hm_get (path_cache st) (sm_conversation_id m) = Some path"
    and "suffix ''.ndjson'' path" and "\<not> prefix (today now) path"
    and "list_all (\<lambda>(n, _). suffix (ndjson_name (sm_conversation_id m)) n \<longrightarrow> n = path) (files st)"
  shows "fst (get_messages C (sm_conversation_id m) (snd (rotate_old now st))) = Inl Io_Error \<and>
    batch_insert_messages C [m] (snd (rotate_old now st)) = Inl Io_Error \<and>
    fst (get_messages C (sm_conversation_id m) (store_open (files (snd (rotate_old now st))))) = Inr []"
proof -
  let ?st = "snd (rotate_old now st)"
  have gone: "path \<notin> fst ` set (files ?st)" using assms(2,3) by (auto simp: rotate_old_def Let_def)
  then have f: "hm_get (files ?st) path = None" by (auto simp: hm_get_def map_of_eq_None_iff)
  have c: "conv_file_path (sm_conversation_id m) ?st = (Some path, ?st)"
    using assms(1) by (simp add: conv_file_path_def rotate_old_def Let_def)
  have sub: "set (files ?st) \<subseteq> set (files st)" by (auto simp: rotate_old_def Let_def)
  have "find (\<lambda>(n, _). suffix (ndjson_name (sm_conversation_id m)) n) (files ?st) = None"
    unfolding find_None_iff
  proof clarify
    fix n content
    assume "(n, content) \<in> set (files ?st)" and "suffix (ndjson_name (sm_conversation_id m)) n"
    moreover from this sub assms(4) have "n = path" by (fastforce simp: list_all_iff)
    ultimately show False using gone by force
  qed
  then have "conv_file_path (sm_conversation_id m) (store_open (files ?st)) = (None, store_open (files ?st))"
    by (simp add: conv_file_path_def store_open_def hm.get_empty)
  then show ?thesis
    by (simp add: get_messages_def batch_insert_messages_def c f read_messages_def append_to_def)
qed

subsection \<open>Witnesses\<close>

definition sample_conv :: conversation where
  "sample_conv = \<lparr>cv_id = ''a'', started_at = ''t'', cv_provider = ''p'', cv_model = None, client_hint = Some ''f''\<rparr>"

definition sample_msg :: "bytes \<Rightarrow> stored_message" where
  "sample_msg s =
     \<lparr>sm_id = s, sm_conversation_id = ''a'', sm_timestamp = ''t'', sm_direction = ''request'', sm_role = None,
      sm_content = s, sm_tokens_in = None, sm_tokens_out = None, sm_content_masked = None, sm_pii_processed = None\<rparr>"

definition sample_codec :: codec where
  "sample_codec =
     \<lparr>conv_line = (\<lambda>c. ''c''), conv_of = (\<lambda>l. if l = ''c'' then Some sample_conv else None),
      msg_line = (\<lambda>m. ''m'' @ sm_content m),
      msg_of = (\<lambda>l. case l of a # s \<Rightarrow> if a = CHR ''m'' then Some (sample_msg s) else None | [] \<Rightarrow> None),
      vault_line = (\<lambda>v. type_marker ''vault'' @ (if fst v = 1 then ''1'' else ''2'')),
      vault_of = (\<lambda>l. Some (if last l = CHR ''1'' then 1 else 2, [])),
      det_line = (\<lambda>d. type_marker ''detection''),
      det_of = (\<lambda>l. None)\<rparr>"

definition sample_clock :: "bytes \<Rightarrow> clock" where
  "sample_clock d = \<lparr>today = d, time_of_day = ''000000Z''\<rparr>"

definition sample_ops :: "store_op list" where
  "sample_ops = [Insert_Messages [sample_msg ''x''], Save_Vault 1 [], Insert_Messages [sample_msg ''y''], Save_Vault 2 []]"

definition sample_store :: store where
  "sample_store = insert_conversation sample_codec (sample_clock ''1'') sample_conv (store_open [])"

lemma sample_codec_ok:
  "header_ok sample_codec sample_conv" "list_all (op_ok sample_codec (cv_id sample_conv)) sample_ops"
  "rec_ok sample_codec (Vault_Rec (1, []))" "rec_ok sample_codec (Vault_Rec (2, []))"
  by code_simp+

theorem store_refines_log_witness:
  "\<exists>st. exec_ops sample_codec ''a'' sample_ops sample_store = Inr st \<and>
     fst (get_messages sample_codec ''a'' st) = Inr [sample_msg ''x'', sample_msg ''y''] \<and>
     fst (load_vault sample_codec ''a'' st) = Inr (Some (2, []))"
proof -
  have "cv_id sample_conv = ''a''" "concat (map sent sample_ops) = [sample_msg ''x'', sample_msg ''y'']"
    "List.map_filter saved sample_ops = [(1, []), (2, [])]" by (simp_all add: sample_conv_def sample_ops_def List.map_filter_simps)
  then show ?thesis
    using store_refines_log [OF sample_codec_ok(1,2), of "sample_clock ''1''" "store_open []"]
    by (auto simp: sample_store_def)
qed


theorem rotation_leaves_stale_paths_witness:
  "fst (get_messages sample_codec ''a'' (snd (rotate_old (sample_clock ''2'') sample_store))) = Inl Io_Error"
proof -
  have "hm_get (path_cache sample_store) (sm_conversation_id (sample_msg ''x'')) = Some ''1T000000Z_a.ndjson''"
    "suffix ''.ndjson'' ''1T000000Z_a.ndjson''" "\<not> prefix (today (sample_clock ''2'')) ''1T000000Z_a.ndjson''"
    "list_all (\<lambda>(n, _). suffix (ndjson_name (sm_conversation_id (sample_msg ''x''))) n \<longrightarrow> n = ''1T000000Z_a.ndjson'')
       (files sample_store)" by code_simp+
  from rotation_leaves_stale_paths [OF this, of sample_codec]
  show ?thesis by (simp add: sample_msg_def)
qed

end
