(* ===== verification/Response.thy ===== *)
theory Response
  imports Parsers Buffer Framing Storage
begin

text \<open>
  The way of a response back to the client: the SSE events of \<open>src/src/proxy/intercept/pii_sse.rs\<close>,
  the polling of \<open>backoff.rs\<close> and the connection loop of \<open>u2c.rs\<close>.

  The variables that the Rust functions share by mutable reference are the fields of \<open>u2c_state\<close>;
  the bytes written to the client and the events broadcast to the dashboard are logs in that
  state. Writing succeeds: an I/O error ends the connection's task and nothing more is written. A
  buffer refers to its vault by a handle; the model carries the vault along with the buffer, so it
  is constant while a response is streamed. The timestamps of dashboard events are left out, and an
  event that is sent before the conversation is known carries \<open>None\<close> for the identifier that the
  code makes up.
\<close>

section \<open>Dashboard events\<close>

datatype ws_event =
    ConversationStart bytes bytes bytes
  | WsMessage stored_message
  | TextDelta "bytes option" bytes
  | ResponseComplete bytes "int option" "int option"
  | PiiDetected bytes bytes bytes bytes bytes nat f32

section \<open>Polling a shared slot\<close>

definition BACKOFF_ATTEMPTS :: nat where
  "BACKOFF_ATTEMPTS = 5"

text \<open>\<open>slot i\<close> is what the shared variable holds at the \<open>i\<close>-th look.\<close>

fun poll_loop :: "nat \<Rightarrow> nat \<Rightarrow> (nat \<Rightarrow> 'a option) \<Rightarrow> 'a option" where
  "poll_loop 0 i slot = slot i"
| "poll_loop (Suc n) i slot = (if slot i \<noteq> None then slot i else poll_loop n (Suc i) slot)"

definition poll_shared :: "(nat \<Rightarrow> 'a option) \<Rightarrow> 'a option" where
  "poll_shared slot = poll_loop BACKOFF_ATTEMPTS 0 slot"

definition get_vault_with_backoff :: "(nat \<Rightarrow> pii_vault option) \<Rightarrow> pii_vault option" where
  "get_vault_with_backoff slot = poll_shared slot"

definition wait_for_conv_id :: "(nat \<Rightarrow> bytes option) \<Rightarrow> bytes option" where
  "wait_for_conv_id slot = poll_shared slot"

section \<open>State of a response\<close>

definition MAX_SSE_BUFFER :: nat where
  "MAX_SSE_BUFFER = 10 * 1024 * 1024"

record u2c_state =
  raw :: bytes
  resp_header_done :: bool
  is_sse :: bool
  is_chunked_resp :: bool
  sse_parser :: bytes
  accumulated :: bytes
  synthetic_accumulated :: bytes
  accumulation_stopped :: bool
  tokens_in :: "int option"
  tokens_out :: "int option"
  body_buf :: bytes
  resp_content_length :: "nat option"
  resp_body_received :: nat
  rep_buf :: "(pii_vault \<times> replacement_buffer) option"
  chunk_decoder :: "chunked_decoder option"
  upstream_gone :: bool
  written :: bytes
  ws_sent :: "ws_event list"
  stored :: "stored_message list"
  vault_saved :: "(bytes \<times> 64 word \<times> vault_record list) list"

record u2c_env =
  u2c_provider :: provider
  pii_replace :: bool
  vault_slot :: "nat \<Rightarrow> pii_vault option"
  conv_slot :: "nat \<Rightarrow> bytes option"
  json_parse :: json_parser
  json_print :: json_printer
  new_uuid :: bytes
  now_iso8601 :: bytes

text \<open>A look at the shared conversation identifier without waiting.\<close>

definition current_conv_id :: "u2c_env \<Rightarrow> bytes option" where
  "current_conv_id env = conv_slot env 0"

definition send_ws :: "ws_event \<Rightarrow> u2c_state \<Rightarrow> u2c_state" where
  "send_ws e st = st\<lparr>ws_sent := ws_sent st @ [e]\<rparr>"

definition write_all :: "bytes \<Rightarrow> u2c_state \<Rightarrow> u2c_state" where
  "write_all bs st = st\<lparr>written := written st @ bs\<rparr>"

definition emit_event_chunk :: "bytes \<Rightarrow> u2c_state \<Rightarrow> u2c_state" where
  "emit_event_chunk event_bytes st = st\<lparr>written := write_http_chunk (written st) event_bytes\<rparr>"

definition accumulate_capped :: "bytes \<Rightarrow> u2c_state \<Rightarrow> u2c_state" where
  "accumulate_capped t st =
     (if accumulation_stopped st then st
      else (let acc = accumulated st @ t in
            st\<lparr>accumulated := acc,
               accumulation_stopped := MAX_SSE_BUFFER < length acc\<rparr>))"

section \<open>Events of a protected stream\<close>

definition emit_text_delta ::
    "u2c_env \<Rightarrow> pii_vault \<Rightarrow> replacement_buffer \<Rightarrow> bytes \<Rightarrow> sse_event \<Rightarrow> u2c_state \<Rightarrow> (bytes \<times> u2c_state) outcome" where
  "emit_text_delta env v rb txt e st =
     (let st1 = (if accumulation_stopped st then st
                 else st\<lparr>synthetic_accumulated := synthetic_accumulated st @ txt\<rparr>) in
      and_then (process_delta v txt rb) (\<lambda>(flushed, rb').
        let st2 = st1\<lparr>rep_buf := Some (v, rb')\<rparr>;
            st3 = (if flushed = [] then st2
                   else send_ws (TextDelta (current_conv_id env) flushed) (accumulate_capped flushed st2));
            new_data = replace_text_delta (json_parse env) (json_print env) (u2c_provider env) (event_data e) flushed
        in Done (reconstruct_sse_event_bytes (event_type e) new_data, st3)))"

definition forward_non_pii_delta :: "u2c_env \<Rightarrow> sse_event \<Rightarrow> u2c_state \<Rightarrow> bytes \<times> u2c_state" where
  "forward_non_pii_delta env e st =
     (reconstruct_sse_event_bytes (event_type e) (event_data e),
      case extract_sse_delta (json_parse env) (u2c_provider env) e of
        Some delta \<Rightarrow>
          if delta \<noteq> [] \<and> \<not> accumulation_stopped st
          then send_ws (TextDelta (current_conv_id env) delta) (st\<lparr>accumulated := accumulated st @ delta\<rparr>)
          else st
      | None \<Rightarrow> st)"

definition flush_rep_buf_remaining_as_chunk :: "u2c_env \<Rightarrow> u2c_state \<Rightarrow> u2c_state outcome" where
  "flush_rep_buf_remaining_as_chunk env st =
     (case rep_buf st of None \<Rightarrow> Done st
      | Some (v, rb) \<Rightarrow>
          and_then (flush_remaining v rb) (\<lambda>(remaining, rb').
            let st1 = st\<lparr>rep_buf := Some (v, rb')\<rparr> in
            if remaining = [] then Done st1
            else
              let st2 = (if accumulation_stopped st1 then st1
                         else send_ws (TextDelta (current_conv_id env) remaining)
                                (st1\<lparr>accumulated := accumulated st1 @ remaining\<rparr>))
              in Done (case make_trailing_text_event (json_print env) (u2c_provider env) remaining of
                         Some event_bytes \<Rightarrow> st2\<lparr>written := write_http_chunk (written st2) event_bytes\<rparr>
                       | None \<Rightarrow> st2)))"

definition note_tokens :: "u2c_env \<Rightarrow> sse_event \<Rightarrow> u2c_state \<Rightarrow> u2c_state" where
  "note_tokens env e st =
     (let (ti, to) = extract_message_start_tokens (json_parse env) e in
      st\<lparr>tokens_in := (if ti \<noteq> None then ti else tokens_in st),
         tokens_out := (if to \<noteq> None then to else tokens_out st)\<rparr>)"

text \<open>The last part of the loop body: a text delta through the buffer, any other event as it is.\<close>

definition forward_event :: "u2c_env \<Rightarrow> sse_event \<Rightarrow> u2c_state \<Rightarrow> u2c_state outcome" where
  "forward_event env e st =
     and_then
       (case (extract_text_delta (json_parse env) (u2c_provider env) (event_data e), rep_buf st) of
          (Some txt, Some (v, rb)) \<Rightarrow> emit_text_delta env v rb txt e st
        | _ \<Rightarrow> Done (forward_non_pii_delta env e st))
       (\<lambda>(event_bytes, st'). Done (emit_event_chunk event_bytes st'))"

fun pii_events :: "u2c_env \<Rightarrow> sse_event list \<Rightarrow> u2c_state \<Rightarrow> (bool \<times> u2c_state) outcome" where
  "pii_events env [] st = Done (False, st)"
| "pii_events env (e # es) st =
     (if is_done_sentinel e
      then Done (True, emit_event_chunk (reconstruct_sse_event_bytes (event_type e) (event_data e)) st)
      else if u2c_provider env = Anthropic then
        and_then (if event_type e = Some ''content_block_stop'' then flush_rep_buf_remaining_as_chunk env st else Done st)
          (\<lambda>st1.
            if event_type e = Some ''message_stop'' then
              and_then (flush_rep_buf_remaining_as_chunk env st1) (\<lambda>st2.
                Done (True, emit_event_chunk (reconstruct_sse_event_bytes (event_type e) (event_data e)) st2))
            else and_then (forward_event env e (note_tokens env e st1)) (pii_events env es))
      else and_then (forward_event env e st) (pii_events env es))"

definition process_sse_chunk_pii :: "u2c_env \<Rightarrow> bytes \<Rightarrow> u2c_state \<Rightarrow> (bool \<times> u2c_state) outcome" where
  "process_sse_chunk_pii env chunk st =
     (let (evs, buf) = sse_push (sse_parser st) chunk in pii_events env evs (st\<lparr>sse_parser := buf\<rparr>))"

section \<open>Events of an unprotected stream\<close>

fun plain_events :: "u2c_env \<Rightarrow> sse_event list \<Rightarrow> u2c_state \<Rightarrow> bool \<times> u2c_state" where
  "plain_events env [] st = (False, st)"
| "plain_events env (e # es) st =
     (if is_done_sentinel e then (True, st)
      else if u2c_provider env = Anthropic \<and> event_type e = Some ''message_stop'' then (True, st)
      else
        let st1 = (if u2c_provider env = Anthropic then note_tokens env e st else st) in
        case extract_sse_delta (json_parse env) (u2c_provider env) e of
          None \<Rightarrow> plain_events env es st1
        | Some delta \<Rightarrow>
            if delta = [] then plain_events env es st1
            else plain_events env es
                   (send_ws (TextDelta (current_conv_id env) delta) (accumulate_capped delta st1)))"

definition process_response_chunk :: "u2c_env \<Rightarrow> bytes \<Rightarrow> u2c_state \<Rightarrow> bool \<times> u2c_state" where
  "process_response_chunk env chunk st =
     (if \<not> is_sse st then (False, st\<lparr>body_buf := body_buf st @ chunk\<rparr>)
      else (let (evs, buf) = sse_push (sse_parser st) chunk in plain_events env evs (st\<lparr>sse_parser := buf\<rparr>)))"

section \<open>End of a response\<close>

definition finalize_response :: "u2c_env \<Rightarrow> u2c_state \<Rightarrow> u2c_state" where
  "finalize_response env st =
     (case wait_for_conv_id (conv_slot env) of None \<Rightarrow> st
      | Some cid \<Rightarrow>
          let content = accumulated st; st1 = st\<lparr>accumulated := []\<rparr> in
          if content = [] then send_ws (ResponseComplete cid (tokens_in st) (tokens_out st)) st1
          else
            let s = synthetic_accumulated st1;
                msg = \<lparr>sm_id = new_uuid env, sm_conversation_id = cid, sm_timestamp = now_iso8601 env, sm_direction = ''response'', sm_role = Some ''assistant'',
                       sm_content = content, sm_tokens_in = tokens_in st, sm_tokens_out = tokens_out st,
                       sm_content_masked = (if s = [] then None else Some s), sm_pii_processed = None\<rparr>;
                st2 = st1\<lparr>synthetic_accumulated := [], stored := stored st1 @ [msg]\<rparr>;
                st3 = (if \<not> pii_replace env then st2
                       else (case vault_slot env 0 of
                               Some v \<Rightarrow>
                                 if vault_is_empty v then st2
                                 else st2\<lparr>vault_saved := vault_saved st2 @ [(cid, rng_seed v, to_records v)]\<rparr>
                             | None \<Rightarrow> st2))
            in send_ws (ResponseComplete cid (tokens_in st) (tokens_out st)) st3)"

definition flush_rep_buf_and_finalize :: "u2c_env \<Rightarrow> u2c_state \<Rightarrow> u2c_state outcome" where
  "flush_rep_buf_and_finalize env st =
     and_then
       (case rep_buf st of None \<Rightarrow> Done st
        | Some (v, rb) \<Rightarrow>
            and_then (flush_remaining v rb) (\<lambda>(remaining, rb').
              let st1 = st\<lparr>rep_buf := Some (v, rb')\<rparr> in
              if remaining = [] then Done st1
              else
                let st2 = (case make_trailing_text_event (json_print env) (u2c_provider env) remaining of
                             Some event_bytes \<Rightarrow> st1\<lparr>written := write_http_chunk (written st1) event_bytes\<rparr>
                           | None \<Rightarrow> st1)
                in Done (if accumulation_stopped st2 then st2
                         else send_ws (TextDelta (current_conv_id env) remaining)
                                (st2\<lparr>accumulated := accumulated st2 @ remaining\<rparr>))))
       (\<lambda>st'. Done (finalize_response env st'))"

section \<open>The connection loop\<close>

definition body_chunk :: "u2c_env \<Rightarrow> bytes \<Rightarrow> u2c_state \<Rightarrow> (bool \<times> u2c_state) outcome" where
  "body_chunk env chunk st =
     (if pii_replace env \<and> is_sse st then
        (let (decoded, cd) = (case chunk_decoder st of
                                Some d \<Rightarrow> (let (out, d') = decoder_push d chunk in (out, Some d'))
                              | None \<Rightarrow> (chunk, None));
             st1 = st\<lparr>chunk_decoder := cd\<rparr>
         in if decoded = [] then Done (False, st1) else process_sse_chunk_pii env decoded st1)
      else Done (process_response_chunk env chunk (write_all chunk st)))"

definition connection_close :: "bytes \<Rightarrow> bool" where
  "connection_close headers_text =
     list_ex (\<lambda>line. let lo = to_lowercase line in prefix ''connection:'' lo \<and> sublist ''close'' lo)
       (str_lines headers_text)"

definition response_headers :: "u2c_env \<Rightarrow> bytes \<Rightarrow> u2c_state \<Rightarrow> u2c_state" where
  "response_headers env hdr st =
     (let headers_text = from_utf8_lossy hdr;
          sse = sublist ''text/event-stream'' headers_text;
          cl = parse_content_length hdr;
          chunked = (cl = None \<and> is_chunked_encoding hdr);
          st1 = st\<lparr>resp_header_done := True, is_sse := sse, resp_content_length := cl, is_chunked_resp := chunked,
                   upstream_gone := upstream_gone st \<or> connection_close headers_text\<rparr>;
          st2 = (if pii_replace env \<and> sse then
                   st1\<lparr>rep_buf := (case get_vault_with_backoff (vault_slot env) of
                                      Some v \<Rightarrow> Some (v, rb_new) | None \<Rightarrow> rep_buf st1),
                       chunk_decoder := (if chunked then Some decoder_new else chunk_decoder st1)\<rparr>
                 else st1)
      in write_all hdr st2)"

definition u2c_chunk :: "u2c_env \<Rightarrow> bytes \<Rightarrow> u2c_state \<Rightarrow> (bool \<times> u2c_state) outcome" where
  "u2c_chunk env chunk st =
     (if \<not> resp_header_done st then
        (let st1 = st\<lparr>raw := raw st @ chunk\<rparr> in
         case find_header_end (raw st1) of
           None \<Rightarrow> Done (False, st1)
         | Some hdr_end \<Rightarrow>
             (let st2 = response_headers env (take hdr_end (raw st1)) st1 in
              if hdr_end < length (raw st1) then
                (let rest = drop hdr_end (raw st1) in
                 body_chunk env rest
                   (st2\<lparr>resp_body_received := resp_body_received st2 + length rest, raw := []\<rparr>))
              else Done (False, st2\<lparr>raw := []\<rparr>)))
      else body_chunk env chunk (st\<lparr>resp_body_received := resp_body_received st + length chunk\<rparr>))"

definition reset_response :: "u2c_state \<Rightarrow> u2c_state" where
  "reset_response st =
     st\<lparr>resp_header_done := False, is_sse := False, is_chunked_resp := False, sse_parser := [],
        accumulated := [], synthetic_accumulated := [], accumulation_stopped := False, tokens_in := None,
        tokens_out := None, body_buf := [], resp_content_length := None, resp_body_received := 0,
        rep_buf := None, chunk_decoder := None\<rparr>"

text \<open>One turn of the loop for the bytes of one read.\<close>

definition u2c_step :: "u2c_env \<Rightarrow> u2c_state \<Rightarrow> bytes \<Rightarrow> u2c_state outcome" where
  "u2c_step env st chunk =
     and_then (u2c_chunk env chunk st) (\<lambda>(sse_done, st1).
       let chunked_resp_done = (is_chunked_resp st1 \<and> \<not> is_sse st1 \<and> find_chunked_body_end (body_buf st1) \<noteq> None);
           response_complete = (sse_done
             \<or> \<not> is_sse st1 \<and> (case resp_content_length st1 of Some cl \<Rightarrow> cl \<le> resp_body_received st1 | None \<Rightarrow> False)
             \<or> chunked_resp_done)
       in if response_complete \<and> resp_header_done st1 then
            and_then (flush_rep_buf_and_finalize env st1) (\<lambda>st2.
              Done (reset_response
                (if pii_replace env \<and> is_sse st1 then write_all (''0'' @ crlf @ crlf) st2 else st2)))
          else Done st1)"

definition u2c_init :: u2c_state where
  "u2c_init = \<lparr>raw = [], resp_header_done = False, is_sse = False, is_chunked_resp = False, sse_parser = [],
     accumulated = [], synthetic_accumulated = [], accumulation_stopped = False, tokens_in = None,
     tokens_out = None, body_buf = [], resp_content_length = None, resp_body_received = 0, rep_buf = None,
     chunk_decoder = None, upstream_gone = False, written = [], ws_sent = [], stored = [], vault_saved = []\<rparr>"

text \<open>The whole task: the reads, then the end of the connection. What ends it is an empty read, an
  error, the idle timeout, or the client's side closing.\<close>

datatype u2c_end = Upstream_Eof | Upstream_Error | Idle_Timeout | Client_Closed

fun u2c_run :: "u2c_env \<Rightarrow> bytes list \<Rightarrow> u2c_state \<Rightarrow> u2c_state outcome" where
  "u2c_run env [] st = Done st"
| "u2c_run env (c # cs) st = and_then (u2c_step env st c) (u2c_run env cs)"

definition handle_u2c :: "u2c_env \<Rightarrow> bytes list \<Rightarrow> u2c_end \<Rightarrow> u2c_state outcome" where
  "handle_u2c env reads reason =
     and_then (u2c_run env reads u2c_init) (\<lambda>st.
       flush_rep_buf_and_finalize env
         (st\<lparr>upstream_gone := upstream_gone st \<or> reason \<noteq> Client_Closed\<rparr>))"

section \<open>What the client reads\<close>

definition ev_bytes :: "sse_event \<Rightarrow> bytes" where
  "ev_bytes e = reconstruct_sse_event_bytes (event_type e) (event_data e)"

definition ev_plain :: "sse_event \<Rightarrow> bool" where
  "ev_plain e \<longleftrightarrow> (\<forall>t. event_type e = Some t \<longrightarrow> plain_line t) \<and> plain_line (event_data e)"

definition client_events :: "bytes \<Rightarrow> sse_event list" where
  "client_events bs = fst (sse_push [] (fst (decoder_push decoder_new bs)))"

definition client_text :: "json_parser \<Rightarrow> provider \<Rightarrow> bytes \<Rightarrow> bytes" where
  "client_text parse p bs = concat (List.map_filter (\<lambda>e. extract_text_delta parse p (event_data e)) (client_events bs))"

definition event_chunks :: "sse_event list \<Rightarrow> bytes" where
  "event_chunks evs = concat (map (\<lambda>e. chunk_of (ev_bytes e)) evs)"

lemma write_http_chunk_eq: "write_http_chunk w d = w @ chunk_of d"
  by (simp add: write_http_chunk_def chunk_of_def)

lemma event_chunks_simps [simp]:
  "event_chunks [] = []" "event_chunks (e # es) = chunk_of (ev_bytes e) @ event_chunks es"
  "event_chunks (es @ fs) = event_chunks es @ event_chunks fs"
  by (simp_all add: event_chunks_def)

lemma sse_push_events: "\<forall>e\<in>set evs. ev_plain e \<Longrightarrow> sse_push [] (concat (map ev_bytes evs)) = (evs, [])"
proof (induction evs)
  case Nil
  then show ?case by (simp add: sse_push_def sse_drain.simps)
next
  case (Cons e evs)
  then have "sse_push [] (ev_bytes e @ concat (map ev_bytes evs)) =
      (e # fst (sse_push [] (concat (map ev_bytes evs))), snd (sse_push [] (concat (map ev_bytes evs))))"
    using sse_push_event [of "event_type e" "event_data e"] by (simp add: ev_plain_def ev_bytes_def [of e])
  with Cons show ?case by simp
qed

lemma loop_chunks:
  assumes "\<forall>p\<in>set ps. p \<noteq> [] \<and> length p \<le> usize_max"
  shows "fst (decoder_loop ReadingSize 0 (concat (map chunk_of ps))) = concat ps"
  using assms
proof (induction ps)
  case Nil
  then show ?case by (subst decoder_loop.simps) (simp add: crlf_def)
next
  case (Cons p ps)
  then show ?case by (simp add: loop_chunk split_def Let_def)
qed

lemma ev_bytes_not_Nil: "ev_bytes e \<noteq> []"
  by (simp add: ev_bytes_def reconstruct_sse_event_bytes_def)

lemma chunk_of_length: "length p \<le> length (chunk_of p)"
  by (simp add: chunk_of_def write_http_chunk_def)

lemma client_events_chunks:
  assumes "\<forall>e\<in>set evs. ev_plain e" and "length (event_chunks evs) \<le> usize_max"
  shows "client_events (event_chunks evs) = evs"
proof -
  have "length (ev_bytes e) \<le> usize_max" if "e \<in> set evs" for e
  proof -
    have "length (ev_bytes e) \<le> length (chunk_of (ev_bytes e))" by (rule chunk_of_length)
    also have "\<dots> \<le> length (event_chunks evs)"
      using that by (auto simp: event_chunks_def length_concat intro!: member_le_sum_list)
    finally show ?thesis using assms(2) by simp
  qed
  then have "fst (decoder_push decoder_new (event_chunks evs)) = concat (map ev_bytes evs)"
    using loop_chunks [of "map ev_bytes evs"] ev_bytes_not_Nil
    by (simp add: decoder_push_def decoder_new_def event_chunks_def comp_def)
  with sse_push_events [OF assms(1)] show ?thesis by (simp add: client_events_def)
qed


text \<open>The deltas of a stream through the buffer: what each releases, and the buffer at the end.\<close>

fun run_deltas :: "pii_vault \<Rightarrow> bytes list \<Rightarrow> replacement_buffer \<Rightarrow> (bytes list \<times> replacement_buffer) outcome" where
  "run_deltas v [] rb = Done ([], rb)"
| "run_deltas v (d # ds) rb =
     and_then (process_delta v d rb) (\<lambda>(out, rb1).
     and_then (run_deltas v ds rb1) (\<lambda>(outs, rb2). Done (out # outs, rb2)))"

lemma run_stream_deltas:
  "run_stream v ds rb =
     and_then (run_deltas v ds rb) (\<lambda>(outs, rb').
     and_then (flush_remaining v rb') (\<lambda>(rest, rb''). Done (concat outs @ rest)))"
proof (induction ds arbitrary: rb)
  case (Cons d ds)
  then show ?case by (simp add: and_then_assoc split_def)
qed (simp add: split_def)

definition text_event :: "u2c_env \<Rightarrow> sse_event \<Rightarrow> bytes \<Rightarrow> bool" where
  "text_event env e t \<longleftrightarrow>
     extract_text_delta (json_parse env) (u2c_provider env) (event_data e) = Some t
     \<and> \<not> is_done_sentinel e \<and> (\<forall>ty. event_type e = Some ty \<longrightarrow> plain_line ty)
     \<and> event_type e \<notin> {Some ''content_block_stop'', Some ''message_stop''}"

lemma replaced_delta:
  assumes "json_codec parse print" and "extract_text_delta parse p dat = Some t"
  shows "plain_line (replace_text_delta parse print p dat new_text)
     \<and> extract_text_delta parse p (replace_text_delta parse print p dat new_text) = Some new_text"
proof -
  from assms(2) obtain v where v: "parse dat = Some v" by (auto simp: extract_text_delta_def obind_def split: option.splits)
  from assms(2) obtain ptr where ptr: "text_delta_pointer p = Some ptr"
    by (auto simp: extract_text_delta_def obind_def split: option.splits if_splits)
  have g: "pointer_get v ptr \<noteq> None"
    using assms(2) v ptr by (auto simp: extract_text_delta_def obind_def split: option.splits if_splits)
  from assms(1) obtain s where s: "print (pointer_set ptr (JStr new_text) v) = Some s"
    "parse s = Some (pointer_set ptr (JStr new_text) v)" "plain_line s" unfolding json_codec_def by blast
  then have "replace_text_delta parse print p dat new_text = s"
    using v ptr g by (simp add: replace_text_delta_def unwrap_or_def)
  with replace_text_delta_read_back [where print = print, OF v assms(2) ptr s(1,2)] s(3) show ?thesis by simp
qed

lemma note_tokens_fields [simp]:
  "rep_buf (note_tokens env e st) = rep_buf st" "written (note_tokens env e st) = written st"
  by (simp_all add: note_tokens_def Let_def split_def)

lemma send_ws_fields [simp]: "rep_buf (send_ws x st) = rep_buf st" "written (send_ws x st) = written st"
  by (simp_all add: send_ws_def)

lemma accumulate_fields [simp]:
  "rep_buf (accumulate_capped t st) = rep_buf st" "written (accumulate_capped t st) = written st"
  by (simp_all add: accumulate_capped_def Let_def)

lemma emit_event_chunk_fields [simp]:
  "rep_buf (emit_event_chunk b st) = rep_buf st" "written (emit_event_chunk b st) = written st @ chunk_of b"
  by (simp_all add: emit_event_chunk_def write_http_chunk_eq)

lemma emit_text_delta_written:
  assumes "process_delta v t rb = Done (out, rb')"
  shows "\<exists>st2. emit_text_delta env v rb t e st = Done (reconstruct_sse_event_bytes (event_type e)
      (replace_text_delta (json_parse env) (json_print env) (u2c_provider env) (event_data e) out), st2)
    \<and> rep_buf st2 = Some (v, rb') \<and> written st2 = written st"
  using assms by (simp add: emit_text_delta_def Let_def)

lemma forward_text_event:
  assumes "json_codec (json_parse env) (json_print env)" and "text_event env e t" and "rep_buf st = Some (v, rb)"
    and "process_delta v t rb = Done (out, rb')"
  shows "\<exists>st' e'. forward_event env e st = Done st' \<and> rep_buf st' = Some (v, rb')
     \<and> written st' = written st @ chunk_of (ev_bytes e') \<and> ev_plain e'
     \<and> extract_text_delta (json_parse env) (u2c_provider env) (event_data e') = Some out"
proof -
  let ?dat = "replace_text_delta (json_parse env) (json_print env) (u2c_provider env) (event_data e) out"
  let ?e = "\<lparr>event_type = event_type e, event_data = ?dat\<rparr>"
  have x: "extract_text_delta (json_parse env) (u2c_provider env) (event_data e) = Some t"
    using assms(2) by (simp add: text_event_def)
  note r = replaced_delta [OF assms(1) x, of out]
  then have "ev_plain ?e" using assms(2) by (simp add: ev_plain_def text_event_def)
  moreover obtain st2 where "emit_text_delta env v rb t e st = Done (ev_bytes ?e, st2)"
    "rep_buf st2 = Some (v, rb')" "written st2 = written st"
    using emit_text_delta_written [OF assms(4), of env e st] by (auto simp: ev_bytes_def)
  ultimately show ?thesis
    using r x assms(3) by (intro exI [of _ "emit_event_chunk (ev_bytes ?e) st2"] exI [of _ ?e]) (simp add: forward_event_def)
qed


lemma pii_events_text:
  assumes "json_codec (json_parse env) (json_print env)" and "list_all2 (text_event env) es ts"
    and "rep_buf st = Some (v, rb)" and "run_deltas v ts rb = Done (outs, rb')"
  shows "\<exists>st' evs. pii_events env (es @ rest) st = pii_events env rest st' \<and> rep_buf st' = Some (v, rb')
     \<and> written st' = written st @ event_chunks evs \<and> (\<forall>e\<in>set evs. ev_plain e)
     \<and> map (\<lambda>e. extract_text_delta (json_parse env) (u2c_provider env) (event_data e)) evs = map Some outs"
  using assms(2-)
proof (induction es ts arbitrary: st rb outs rule: list_all2_induct)
  case Nil
  then show ?case by (intro exI [of _ st] exI [of _ "[]"]) simp
next
  case (Cons e es t ts)
  from Cons.prems(2) obtain out rb1 outs1 where d: "process_delta v t rb = Done (out, rb1)"
    "run_deltas v ts rb1 = Done (outs1, rb')" "outs = out # outs1" by (auto simp: out_simps)
  let ?st = "if u2c_provider env = Anthropic then note_tokens env e st else st"
  have rb: "rep_buf ?st = Some (v, rb)" "written ?st = written st" using Cons.prems(1) by simp_all
  from forward_text_event [OF assms(1) Cons.hyps(1) rb(1) d(1)] obtain st1 e1 where f:
    "forward_event env e ?st = Done st1" "rep_buf st1 = Some (v, rb1)"
    "written st1 = written st @ chunk_of (ev_bytes e1)" "ev_plain e1"
    "extract_text_delta (json_parse env) (u2c_provider env) (event_data e1) = Some out" unfolding rb(2) by blast
  have step: "pii_events env ((e # es) @ rest) st = pii_events env (es @ rest) st1"
    using Cons.hyps(1) f(1) by (auto simp: text_event_def split: if_splits)
  from Cons.IH [OF f(2) d(2)] obtain st' evs where i: "pii_events env (es @ rest) st1 = pii_events env rest st'"
    "rep_buf st' = Some (v, rb')" "written st' = written st1 @ event_chunks evs" "\<forall>e\<in>set evs. ev_plain e"
    "map (\<lambda>e. extract_text_delta (json_parse env) (u2c_provider env) (event_data e)) evs = map Some outs1" by blast
  show ?case
    using step i f d(3) by (intro exI [of _ st'] exI [of _ "e1 # evs"]) simp
qed

text \<open>The event that closes a content block releases what the buffer still holds, as an event of its own.\<close>

lemma trailing_event:
  assumes "json_codec parse print" and "t \<noteq> []"
  shows "\<exists>e. make_trailing_text_event print Anthropic t = Some (ev_bytes e) \<and> ev_plain e
     \<and> extract_text_delta parse Anthropic (event_data e) = Some t"
proof -
  obtain j where j: "trailing_text_json Anthropic t = Some j" by simp
  from assms(1) obtain s where s: "print j = Some s" "parse s = Some j" "plain_line s"
    unfolding json_codec_def by blast
  have "plain_line ''content_block_delta''"
    by (simp add: plain_line_def ascii_literal byte_def trim_ascii blank_byte)
  moreover have "extract_text_delta parse Anthropic s = Some t"
    using s(2) j by (auto simp: extract_text_delta_def json_obj_def jindex_def)
  ultimately show ?thesis
    using assms(2) j s
    by (intro exI [of _ "\<lparr>event_type = Some ''content_block_delta'', event_data = s\<rparr>"])
       (simp add: make_trailing_text_event_def ev_bytes_def ev_plain_def unwrap_or_def)
qed


lemma map_filter_append: "List.map_filter f (xs @ ys) = List.map_filter f xs @ List.map_filter f ys"
  by (simp add: List.map_filter_def)

definition block_stop :: "u2c_env \<Rightarrow> sse_event \<Rightarrow> bool" where
  "block_stop env e \<longleftrightarrow> event_type e = Some ''content_block_stop'' \<and> \<not> is_done_sentinel e \<and> plain_line (event_data e)
     \<and> extract_text_delta (json_parse env) Anthropic (event_data e) = None"

lemma plain_block_stop: "block_stop env e \<Longrightarrow> ev_plain e"
  by (simp add: block_stop_def ev_plain_def plain_line_def ascii_literal byte_def trim_ascii blank_byte)

lemma flush_as_chunk:
  assumes "json_codec (json_parse env) (json_print env)" and "u2c_provider env = Anthropic"
    and "rep_buf st = Some (v, rb)" and "flush_remaining v rb = Done (rest, rb')"
  shows "\<exists>st' evs. flush_rep_buf_remaining_as_chunk env st = Done st' \<and> rep_buf st' = Some (v, rb')
     \<and> written st' = written st @ event_chunks evs \<and> (\<forall>e\<in>set evs. ev_plain e)
     \<and> concat (List.map_filter (\<lambda>e. extract_text_delta (json_parse env) Anthropic (event_data e)) evs) = rest"
proof (cases "rest = []")
  case True
  with assms(3,4) show ?thesis
    by (intro exI [of _ "st\<lparr>rep_buf := Some (v, rb')\<rparr>"] exI [of _ "[]"])
       (simp add: flush_rep_buf_remaining_as_chunk_def map_filter_simps)
next
  case False
  from trailing_event [OF assms(1) this] obtain e where e:
    "make_trailing_text_event (json_print env) Anthropic rest = Some (ev_bytes e)" "ev_plain e"
    "extract_text_delta (json_parse env) Anthropic (event_data e) = Some rest" by blast
  with False assms(2-4) have "\<exists>st'. flush_rep_buf_remaining_as_chunk env st = Done st' \<and> rep_buf st' = Some (v, rb')
      \<and> written st' = written st @ event_chunks [e]"
    by (simp add: flush_rep_buf_remaining_as_chunk_def Let_def write_http_chunk_eq)
  then show ?thesis using e by (metis (no_types, lifting) append.right_neutral concat.simps empty_iff insert_iff
      list.set list.simps(15) map_filter_simps option.simps(5))
qed

lemma forward_block_stop:
  assumes "block_stop env e" and "u2c_provider env = Anthropic"
  shows "\<exists>st'. forward_event env e st = Done st' \<and> written st' = written st @ event_chunks [e]"
proof -
  have "extract_text_delta (json_parse env) Anthropic (event_data e) = None" using assms(1) by (simp add: block_stop_def)
  then show ?thesis
    using assms(2) by (simp add: forward_event_def forward_non_pii_delta_def ev_bytes_def split: option.splits)
qed



definition stop_json :: json where
  "stop_json = JObj [(''type'', JStr ''content_block_stop'')]"

definition known_json :: "json list" where
  "known_json = [sample_delta ''Al Ray!'', sample_delta ''Jo Doe!'', stop_json]"

definition number_env :: "provider \<Rightarrow> u2c_env" where
  "number_env p = \<lparr>u2c_provider = p, pii_replace = True, vault_slot = (\<lambda>_. Some token_vault),
     conv_slot = (\<lambda>_. None), json_parse = number_parse known_json, json_print = number_print known_json, new_uuid = ''u'', now_iso8601 = ''t''\<rparr>"

definition number_event :: "bytes \<Rightarrow> json \<Rightarrow> sse_event" where
  "number_event ty j = \<lparr>event_type = Some ty, event_data = show_nat (number_of known_json j)\<rparr>"

definition stream_state :: u2c_state where
  "stream_state = u2c_init\<lparr>rep_buf := Some (token_vault, rb_new)\<rparr>"

lemma show_nat_not_done: "show_nat n \<noteq> ''[DONE]''"
proof
  assume "show_nat n = ''[DONE]''"
  then have "CHR ''['' \<in> set (show_nat n)" by simp
  then show False using show_nat_digits [of "CHR ''[''" n] by (simp add: byte_def)
qed

lemma plain_event_types: "plain_line ''content_block_delta''" "plain_line ''content_block_stop''"
  by (simp_all add: plain_line_def ascii_literal byte_def trim_ascii blank_byte)

lemma number_text_event:
  "text_event (number_env Anthropic) (number_event ''content_block_delta'' (sample_delta t)) t"
  by (simp add: text_event_def number_env_def number_event_def is_done_sentinel_def show_nat_not_done
      extract_text_delta_def number_parse_print jindex_def plain_event_types)
     (simp add: sample_delta_def)

lemma number_block_stop: "block_stop (number_env Anthropic) (number_event ''content_block_stop'' stop_json)"
  by (simp add: block_stop_def number_env_def number_event_def is_done_sentinel_def show_nat_not_done plain_show_nat
      extract_text_delta_def number_parse_print jindex_def)
     (simp add: stop_json_def)


lemma sample_run:
  "and_then (process_delta token_vault ''Al Ray!'' rb_new) (\<lambda>(t, rb). Done (t, rb_buffer rb)) = Done (''Jo Doe!'', [])"
  by code_simp

lemma number_run:
  "\<exists>st'. pii_events (number_env Anthropic)
       [number_event ''content_block_delta'' (sample_delta ''Al Ray!''), number_event ''content_block_stop'' stop_json]
       stream_state = Done (False, st')
     \<and> written st' = chunk_of (ev_bytes (number_event ''content_block_delta'' (sample_delta ''Jo Doe!'')))
         @ chunk_of (ev_bytes (number_event ''content_block_stop'' stop_json))"
proof -
  let ?d = "number_event ''content_block_delta'' (sample_delta ''Al Ray!'')"
    and ?s = "number_event ''content_block_stop'' stop_json"
  obtain rb where rb: "process_delta token_vault ''Al Ray!'' rb_new = Done (''Jo Doe!'', rb)" "rb_buffer rb = []"
    using sample_run by (auto simp: out_simps)
  have t: "extract_text_delta (number_parse known_json) Anthropic (event_data ?d) = Some ''Al Ray!''"
    "extract_text_delta (number_parse known_json) Anthropic (event_data ?s) = None"
    using number_text_event number_block_stop by (simp_all add: text_event_def block_stop_def number_env_def)
  have r: "replace_text_delta (number_parse known_json) (number_print known_json) Anthropic (event_data ?d) ''Jo Doe!''
      = show_nat (number_of known_json (sample_delta ''Jo Doe!''))"
    by (simp add: number_event_def replace_text_delta_def number_parse_print number_print_def unwrap_or_def)
       (simp add: sample_delta_def)
  have d: "\<not> is_done_sentinel ?d" "\<not> is_done_sentinel ?s"
    by (simp_all add: is_done_sentinel_def number_event_def show_nat_not_done)
  have y: "event_type ?d = Some ''content_block_delta''" "event_type ?s = Some ''content_block_stop''"
    by (simp_all add: number_event_def)
  have e: "u2c_provider (number_env Anthropic) = Anthropic" "json_parse (number_env Anthropic) = number_parse known_json"
    "json_print (number_env Anthropic) = number_print known_json" by (simp_all add: number_env_def)
  from emit_text_delta_written [OF rb(1), of "number_env Anthropic" ?d "note_tokens (number_env Anthropic) ?d stream_state"]
  obtain st2 where f: "forward_event (number_env Anthropic) ?d (note_tokens (number_env Anthropic) ?d stream_state)
      = Done (emit_event_chunk (ev_bytes (number_event ''content_block_delta'' (sample_delta ''Jo Doe!''))) st2)"
    "rep_buf st2 = Some (token_vault, rb)" "written st2 = []"
    using t(1) r y by (auto simp: forward_event_def e stream_state_def u2c_init_def ev_bytes_def number_event_def)
  let ?st = "(emit_event_chunk (ev_bytes (number_event ''content_block_delta'' (sample_delta ''Jo Doe!''))) st2)
    \<lparr>rep_buf := Some (token_vault, rb)\<rparr>"
  from forward_block_stop [OF number_block_stop e(1), of "note_tokens (number_env Anthropic) ?s ?st"] obtain st'
    where "forward_event (number_env Anthropic) ?s (note_tokens (number_env Anthropic) ?s ?st) = Done st'"
      "written st' = written ?st @ event_chunks [?s]" by auto
  then show ?thesis
    using f rb(2) d y by (auto simp: e flush_rep_buf_remaining_as_chunk_def flush_remaining_def)
qed


section \<open>Forwarding without protection\<close>

definition framed :: "u2c_state \<Rightarrow> u2c_state \<Rightarrow> bool" where
  "framed st st' \<longleftrightarrow> written st' = written st \<and> raw st' = raw st \<and> resp_header_done st' = resp_header_done st
     \<and> rep_buf st' = rep_buf st \<and> is_sse st' = is_sse st \<and> resp_content_length st' = resp_content_length st
     \<and> is_chunked_resp st' = is_chunked_resp st"

lemma framed_refl [simp]: "framed st st"
  by (simp add: framed_def)

lemma framed_trans: "framed a b \<Longrightarrow> framed b c \<Longrightarrow> framed a c"
  by (simp add: framed_def)

lemma framed_updates [simp]:
  "framed st (send_ws x st)" "framed st (accumulate_capped t st)" "framed st (note_tokens env e st)"
  "framed st (st\<lparr>sse_parser := b\<rparr>)" "framed st (st\<lparr>body_buf := b\<rparr>)"
  by (simp_all add: framed_def send_ws_def accumulate_capped_def note_tokens_def Let_def split_def)

lemma plain_events_framed: "framed st (snd (plain_events env es st))"
proof (induction es arbitrary: st)
  case (Cons e es)
  define s1 where "s1 = (if u2c_provider env = Anthropic then note_tokens env e st else st)"
  have 1: "framed st s1" by (simp add: s1_def)
  have 2: "framed st (snd (plain_events env es s1))" using framed_trans [OF 1 Cons] .
  have 3: "framed st (snd (plain_events env es (send_ws (TextDelta c t) (accumulate_capped t s1))))" for c t
    by (meson 1 Cons framed_trans framed_updates(1,2))
  have eq: "plain_events env (e # es) st =
      (if is_done_sentinel e then (True, st)
       else if u2c_provider env = Anthropic \<and> event_type e = Some ''message_stop'' then (True, st)
       else case extract_sse_delta (json_parse env) (u2c_provider env) e of
         None \<Rightarrow> plain_events env es s1
       | Some d \<Rightarrow> if d = [] then plain_events env es s1
           else plain_events env es (send_ws (TextDelta (current_conv_id env) d) (accumulate_capped d s1)))"
    by (simp only: plain_events.simps Let_def s1_def)
  show ?case unfolding eq using 2 3 by (auto split: option.splits)
qed simp

lemma process_response_chunk_framed: "framed st (snd (process_response_chunk env c st))"
proof (cases "is_sse st")
  case True
  obtain evs buf where "sse_push (sse_parser st) c = (evs, buf)" by fastforce
  with True framed_trans [OF framed_updates(4) plain_events_framed] show ?thesis
    by (simp add: process_response_chunk_def)
qed (simp add: process_response_chunk_def)

lemma finalize_framed: "framed st (finalize_response env st)"
  by (auto simp: finalize_response_def framed_def send_ws_def Let_def split: option.splits)

lemma finalize_written: "written (finalize_response env st) = written st"
  using finalize_framed [of st env] by (simp add: framed_def)

text \<open>The bytes received and not yet forwarded are the beginning of a header.\<close>

definition plain_inv :: "u2c_state \<Rightarrow> bool" where
  "plain_inv st \<longleftrightarrow> rep_buf st = None \<and> (resp_header_done st \<longrightarrow> raw st = [])"

lemma body_chunk_plain:
  assumes "\<not> (pii_replace env \<and> is_sse st)"
  shows "\<exists>b st'. body_chunk env c st = Done (b, st') \<and> framed (write_all c st) st'"
  using assms process_response_chunk_framed [of "write_all c st" env c]
  by (cases "process_response_chunk env c (write_all c st)") (auto simp: body_chunk_def)

lemma response_headers_plain:
  "\<not> pii_replace env \<Longrightarrow> rep_buf (response_headers env h st) = rep_buf st \<and> raw (response_headers env h st) = raw st
     \<and> written (response_headers env h st) = written st @ h \<and> resp_header_done (response_headers env h st)"
  by (simp add: response_headers_def Let_def write_all_def)

lemma u2c_chunk_plain:
  assumes "\<not> pii_replace env" and "plain_inv st"
  shows "\<exists>b st'. u2c_chunk env c st = Done (b, st') \<and> plain_inv st' \<and> written st' @ raw st' = written st @ raw st @ c"
proof (cases "resp_header_done st")
  case True
  let ?st = "st\<lparr>resp_body_received := resp_body_received st + length c\<rparr>"
  from body_chunk_plain [of env ?st c] assms obtain b st' where
    "body_chunk env c ?st = Done (b, st')" "framed (write_all c ?st) st'" by auto
  with True assms(2) show ?thesis
    by (auto simp: u2c_chunk_def plain_inv_def framed_def write_all_def)
next
  case False
  let ?r = "raw st @ c"
  show ?thesis
  proof (cases "find_header_end ?r")
    case None
    with False assms(2) show ?thesis by (intro exI [of _ False]) (simp add: u2c_chunk_def plain_inv_def)
  next
    case (Some h)
    let ?st2 = "response_headers env (take h ?r) (st\<lparr>raw := ?r\<rparr>)"
    note rh = response_headers_plain [OF assms(1), of "take h ?r" "st\<lparr>raw := ?r\<rparr>"]
    show ?thesis
    proof (cases "h < length ?r")
      case True
      let ?st3 = "?st2\<lparr>resp_body_received := resp_body_received ?st2 + length (drop h ?r), raw := []\<rparr>"
      from body_chunk_plain [of env ?st3 "drop h ?r"] assms(1) obtain b st' where
        "body_chunk env (drop h ?r) ?st3 = Done (b, st')" "framed (write_all (drop h ?r) ?st3) st'" by auto
      moreover have "take h ?r @ drop h ?r = ?r" by (rule append_take_drop_id)
      ultimately show ?thesis
        using False Some True rh assms(2) by (auto simp: u2c_chunk_def plain_inv_def framed_def write_all_def Let_def)
    next
      case le: False
      then have "take h ?r = ?r" by simp
      with False Some le rh assms(2) show ?thesis by (intro exI [of _ False]) (simp add: u2c_chunk_def plain_inv_def Let_def)
    qed
  qed
qed

lemma u2c_step_plain:
  assumes "\<not> pii_replace env" and "plain_inv st"
  shows "\<exists>st'. u2c_step env st c = Done st' \<and> plain_inv st' \<and> written st' @ raw st' = written st @ raw st @ c"
proof -
  from u2c_chunk_plain [OF assms] obtain b st1 where c:
    "u2c_chunk env c st = Done (b, st1)" "plain_inv st1" "written st1 @ raw st1 = written st @ raw st @ c" by blast
  have f: "flush_rep_buf_and_finalize env st1 = Done (finalize_response env st1)"
    using c(2) by (simp add: flush_rep_buf_and_finalize_def plain_inv_def)
  have "framed st1 (finalize_response env st1)" by (rule finalize_framed)
  with c f assms(1) show ?thesis
    by (auto simp: u2c_step_def Let_def reset_response_def plain_inv_def framed_def)
qed


lemma u2c_run_plain:
  assumes "\<not> pii_replace env" and "plain_inv st"
  shows "\<exists>st'. u2c_run env cs st = Done st' \<and> plain_inv st' \<and> written st' @ raw st' = written st @ raw st @ concat cs"
  using assms(2)
proof (induction cs arbitrary: st)
  case Nil
  then show ?case by simp
next
  case (Cons c cs)
  from u2c_step_plain [OF assms(1) Cons.prems] obtain st1 where
    s: "u2c_step env st c = Done st1" "plain_inv st1" "written st1 @ raw st1 = written st @ raw st @ c" by blast
  from Cons.IH [OF s(2)] s show ?case by (metis (no_types, lifting) and_then.simps(2) append.assoc concat.simps(2) u2c_run.simps(2))
qed

text \<open>
  C29. Without protection the proxy is transparent: whatever the response is and however it is cut
  into reads, the connection's task returns without panicking, and the bytes written to the
  client are exactly the bytes received, except for an unfinished header that is still waiting.
\<close>

theorem u2c_forwards_verbatim:
  assumes "\<not> pii_replace env"
  shows "\<exists>st. handle_u2c env reads reason = Done st \<and> written st @ raw st = concat reads
     \<and> (resp_header_done st \<longrightarrow> written st = concat reads)"
proof -
  have "plain_inv u2c_init" by (simp add: plain_inv_def u2c_init_def)
  from u2c_run_plain [OF assms this, of reads] obtain st where r: "u2c_run env reads u2c_init = Done st"
    "plain_inv st" "written st @ raw st = concat reads" by (auto simp: u2c_init_def)
  let ?st = "st\<lparr>upstream_gone := upstream_gone st \<or> reason \<noteq> Client_Closed\<rparr>"
  have "handle_u2c env reads reason = Done (finalize_response env ?st)"
    using r by (simp add: handle_u2c_def flush_rep_buf_and_finalize_def plain_inv_def)
  moreover have "framed ?st (finalize_response env ?st)" by (rule finalize_framed)
  ultimately show ?thesis using r by (auto simp: framed_def plain_inv_def)
qed

theorem u2c_forwards_verbatim_witness:
  "\<exists>st. handle_u2c ((number_env OpenAI)\<lparr>pii_replace := False\<rparr>) [''HTTP/1.1 200 OK'' @ crlf, crlf @ ''hi''] Upstream_Eof = Done st
     \<and> written st @ raw st = ''HTTP/1.1 200 OK'' @ crlf @ crlf @ ''hi''"
  using u2c_forwards_verbatim [of "(number_env OpenAI)\<lparr>pii_replace := False\<rparr>"
      "[''HTTP/1.1 200 OK'' @ crlf, crlf @ ''hi'']" Upstream_Eof] by auto

section \<open>A terminator that arrives late\<close>

lemma body_verbatim:
  assumes "resp_header_done st" and "\<not> is_sse st" and "resp_content_length st = None" and "\<not> is_chunked_resp st"
  shows "\<exists>st'. u2c_run env cs st = Done st' \<and> written st' = written st @ concat cs"
  using assms
proof (induction cs arbitrary: st)
  case Nil
  then show ?case by simp
next
  case (Cons c cs)
  let ?st = "st\<lparr>resp_body_received := resp_body_received st + length c\<rparr>"
  have n: "process_response_chunk env c (write_all c ?st)
      = (False, (write_all c ?st)\<lparr>body_buf := body_buf st @ c\<rparr>)"
    using Cons.prems(2) by (simp add: process_response_chunk_def write_all_def)
  have "u2c_step env st c = Done ((write_all c ?st)\<lparr>body_buf := body_buf st @ c\<rparr>)"
    using Cons.prems by (simp add: u2c_step_def u2c_chunk_def body_chunk_def n) (simp add: write_all_def)
  with Cons.IH [of "(write_all c ?st)\<lparr>body_buf := body_buf st @ c\<rparr>"] Cons.prems show ?case
    by (simp add: write_all_def)
qed

text \<open>
  C36. When a protected stream has ended, the loop expects the header of the next response. If the
  terminal chunk of the stream arrives only in a later read than its last event, it is taken for
  that header: the client receives a second terminal chunk, and from then on every byte of every
  later response on the connection is forwarded as it is, so tokens are no longer restored.
\<close>

theorem late_terminator_ends_protection:
  assumes "raw st = []"
  shows "\<exists>st'. u2c_run env ((''0'' @ crlf @ crlf) # cs) (reset_response st) = Done st'
     \<and> written st' = written st @ ''0'' @ crlf @ crlf @ concat cs"
proof -
  define t where "t = ''0'' @ crlf @ crlf"
  have h: "find_header_end t = Some 5" "take 5 t = t" "\<not> 5 < length t" "from_utf8_lossy t = t"
    "parse_content_length t = None" "\<not> is_chunked_encoding t" "\<not> sublist ''text/event-stream'' t"
    unfolding t_def by code_simp+
  let ?st = "response_headers env t ((reset_response st)\<lparr>raw := t\<rparr>)"
  have st: "is_sse ?st = False" "resp_content_length ?st = None" "is_chunked_resp ?st = False" "resp_header_done ?st"
    "written ?st = written st @ t"
    by (simp_all add: response_headers_def h Let_def write_all_def reset_response_def)
  have "u2c_chunk env t (reset_response st) = Done (False, ?st\<lparr>raw := []\<rparr>)"
    using assms h by (simp add: u2c_chunk_def Let_def reset_response_def)
  then have "u2c_step env (reset_response st) t = Done (?st\<lparr>raw := []\<rparr>)" using st by (simp add: u2c_step_def)
  with body_verbatim [of "?st\<lparr>raw := []\<rparr>" env cs] st show ?thesis unfolding t_def by simp
qed

theorem late_terminator_ends_protection_witness:
  "\<exists>st'. u2c_run (number_env Anthropic) [''0'' @ crlf @ crlf, ''HTTP/1.1 200 OK'' @ crlf @ crlf @ ''Al Ray'']
       (reset_response u2c_init) = Done st'
     \<and> written st' = ''0'' @ crlf @ crlf @ ''HTTP/1.1 200 OK'' @ crlf @ crlf @ ''Al Ray''"
  using late_terminator_ends_protection [of u2c_init "number_env Anthropic" "[''HTTP/1.1 200 OK'' @ crlf @ crlf @ ''Al Ray'']"]
  by (simp add: u2c_init_def)

section \<open>The end marker of OpenAI streams\<close>

text \<open>
  For an OpenAI stream the text that the buffer still holds is sent too late: the end marker is
  forwarded first, and the event with the held text follows it, where a client has stopped
  reading.
\<close>

theorem openai_tail_after_done:
  assumes "u2c_provider env = OpenAI" and "is_done_sentinel e" and "rep_buf st = Some (v, rb)"
    and "flush_remaining v rb = Done (rest, rb')" and "rest \<noteq> []"
  shows "\<exists>st1 st2 tail. pii_events env [e] st = Done (True, st1) \<and> written st1 = written st @ chunk_of (ev_bytes e)
     \<and> flush_rep_buf_and_finalize env st1 = Done st2
     \<and> make_trailing_text_event (json_print env) OpenAI rest = Some tail
     \<and> written st2 = written st @ chunk_of (ev_bytes e) @ chunk_of tail"
proof -
  let ?st1 = "emit_event_chunk (ev_bytes e) st"
  obtain tail where t: "make_trailing_text_event (json_print env) OpenAI rest = Some tail"
    using assms(5) by (simp add: make_trailing_text_event_def)
  have e: "pii_events env [e] st = Done (True, ?st1)" using assms(2) by (simp add: ev_bytes_def)
  have "\<exists>st2. flush_rep_buf_and_finalize env ?st1 = Done st2 \<and> written st2 = written ?st1 @ chunk_of tail"
    using assms(1,3-5) t by (simp add: flush_rep_buf_and_finalize_def Let_def write_http_chunk_eq finalize_written)
  with e t show ?thesis by auto
qed

theorem openai_tail_after_done_witness:
  "\<exists>st1 st2 tail. pii_events (number_env OpenAI) [\<lparr>event_type = None, event_data = ''[DONE]''\<rparr>]
       (u2c_init\<lparr>rep_buf := Some (token_vault, rb_new\<lparr>rb_buffer := ''Al''\<rparr>)\<rparr>) = Done (True, st1)
     \<and> flush_rep_buf_and_finalize (number_env OpenAI) st1 = Done st2
     \<and> written st2 = chunk_of (''data: [DONE]'' @ [LF, LF]) @ chunk_of tail"
proof -
  have f: "and_then (flush_remaining token_vault (rb_new\<lparr>rb_buffer := ''Al''\<rparr>)) (\<lambda>(t, rb). Done t) = Done ''Al''"
    by code_simp
  then obtain rb' where "flush_remaining token_vault (rb_new\<lparr>rb_buffer := ''Al''\<rparr>) = Done (''Al'', rb')"
    by (auto simp: out_simps)
  from openai_tail_after_done [OF _ _ _ this, of "number_env OpenAI" "\<lparr>event_type = None, event_data = ''[DONE]''\<rparr>"
      "u2c_init\<lparr>rep_buf := Some (token_vault, rb_new\<lparr>rb_buffer := ''Al''\<rparr>)\<rparr>"]
  show ?thesis
    by (auto simp: number_env_def u2c_init_def is_done_sentinel_def trim_ascii blank_byte byte_def ev_bytes_def
        reconstruct_sse_event_bytes_def)
qed

section \<open>Streams that are not chunked\<close>

text \<open>
  The events of a protected stream are written as chunks also when the response is not chunked:
  its header is forwarded as it came, so that a client that reads the body as the header says
  finds chunk sizes in the text.
\<close>

theorem unchunked_stream_gets_chunks:
  assumes "pii_replace env" and "find_header_end hdr = Some (length hdr)" and "utf8_valid hdr"
    and "sublist ''text/event-stream'' hdr" and "\<not> is_chunked_encoding hdr" and "ev_plain e"
    and "\<not> is_done_sentinel e" and "event_type e = Some ''ping''"
    and "extract_text_delta (json_parse env) (u2c_provider env) (event_data e) = None"
  shows "\<exists>st. u2c_run env [hdr, ev_bytes e] u2c_init = Done st \<and> written st = hdr @ chunk_of (ev_bytes e)"
proof -
  let ?st = "(response_headers env hdr (u2c_init\<lparr>raw := hdr\<rparr>))\<lparr>raw := []\<rparr>"
  have st: "is_sse ?st" "resp_header_done ?st" "written ?st = hdr" "chunk_decoder ?st = None" "sse_parser ?st = []"
    "\<not> is_chunked_resp ?st"
    using assms(4,5) by (simp_all add: response_headers_def from_utf8_lossy_valid [OF assms(3)] Let_def write_all_def u2c_init_def)
  have "u2c_chunk env hdr u2c_init = Done (False, ?st)"
    using assms(2) by (simp add: u2c_chunk_def u2c_init_def Let_def)
  then have 1: "u2c_step env u2c_init hdr = Done ?st" using st by (simp add: u2c_step_def)
  let ?st2 = "?st\<lparr>resp_body_received := resp_body_received ?st + length (ev_bytes e), chunk_decoder := None, sse_parser := []\<rparr>"
  have p: "sse_push [] (ev_bytes e) = ([e], [])" using sse_push_events [of "[e]"] assms(6) by simp
  obtain st3 where f: "forward_event env e (if u2c_provider env = Anthropic then note_tokens env e ?st2 else ?st2) = Done st3"
    "written st3 = hdr @ chunk_of (ev_bytes e)" "is_sse st3" "\<not> is_chunked_resp st3"
    using assms(9) st
    by (simp add: forward_event_def forward_non_pii_delta_def emit_event_chunk_def write_http_chunk_eq ev_bytes_def
        note_tokens_def Let_def split_def send_ws_def split: option.splits)
  have "u2c_chunk env (ev_bytes e) ?st = Done (False, st3)"
    using st f(1) p assms(1,7,8) ev_bytes_not_Nil [of e]
    by (simp add: u2c_chunk_def body_chunk_def process_sse_chunk_pii_def split: if_splits)
  then have "u2c_step env ?st (ev_bytes e) = Done st3" using f(3,4) by (simp add: u2c_step_def)
  with 1 f(2) show ?thesis by simp
qed


theorem unchunked_stream_gets_chunks_witness:
  "\<exists>st. u2c_run (number_env Anthropic) [''Content-Type: text/event-stream'' @ crlf @ crlf,
       ''event: ping'' @ [LF] @ ''data: {}'' @ [LF, LF]] u2c_init = Done st
     \<and> written st = ''Content-Type: text/event-stream'' @ crlf @ crlf
         @ ''16'' @ crlf @ ''event: ping'' @ [LF] @ ''data: {}'' @ [LF, LF] @ crlf"
proof -
  let ?e = "\<lparr>event_type = Some ''ping'', event_data = ''{}''\<rparr>"
  define hdr where "hdr = ''Content-Type: text/event-stream'' @ crlf @ crlf"
  have h: "find_header_end hdr = Some (length hdr)" "sublist ''text/event-stream'' hdr" "\<not> is_chunked_encoding hdr" "utf8_valid hdr"
    unfolding hdr_def by code_simp+
  have e: "ev_bytes ?e = ''event: ping'' @ [LF] @ ''data: {}'' @ [LF, LF]"
    "chunk_of (ev_bytes ?e) = ''16'' @ crlf @ ''event: ping'' @ [LF] @ ''data: {}'' @ [LF, LF] @ crlf"
    by code_simp+
  have "ev_plain ?e"
    by (simp add: ev_plain_def plain_line_def ascii_literal byte_def trim_ascii blank_byte)
  moreover have "\<not> is_done_sentinel ?e"
    by (simp add: is_done_sentinel_def trim_ascii blank_byte byte_def)
  moreover have "show_nat n \<noteq> ''{}''" for n
    proof
    assume "show_nat n = ''{}''"
    then have "CHR ''{'' \<in> set (show_nat n)" by simp
    then show False using show_nat_no_char [of "CHR ''{''" n] by (simp add: byte_def)
  qed
  then have "number_parse known_json ''{}'' = None" by (metis (no_types, lifting) imageE number_parse_def)
  then have "extract_text_delta (json_parse (number_env Anthropic)) (u2c_provider (number_env Anthropic)) (event_data ?e) = None"
    by (simp add: number_env_def extract_text_delta_def)
  moreover have "pii_replace (number_env Anthropic)" by (simp add: number_env_def)
  ultimately have "\<exists>st. u2c_run (number_env Anthropic) [hdr, ev_bytes ?e] u2c_init = Done st \<and> written st = hdr @ chunk_of (ev_bytes ?e)"
    using h by (intro unchunked_stream_gets_chunks) simp_all
  then show ?thesis unfolding e(2) unfolding e(1) hdr_def append.assoc .
qed

end
