(* ===== verification/Registry.thy ===== *)
theory Registry
  imports Storage
begin

text \<open>
  The registry of active vaults of \<open>src/src/pii/vault.rs\<close> (\<open>VaultEntry\<close>, \<open>VaultRegistry\<close>).

  A handle is a shared pointer to a locked vault: it is modelled as an address in \<open>heap\<close>, so that
  two entries can alias. Taking the read lock and then the write lock of one vault in
  \<open>merge_into\<close> never returns when both are the same vault; that is the value \<open>Panic\<close>. Time is a
  number of ticks, passed in by the caller.
\<close>

section \<open>Data\<close>

record vault_entry =
  ve_handle :: nat
  last_accessed :: nat

record vault_registry =
  vaults :: "(bytes, vault_entry) hashmap"
  ttl :: nat
  heap :: "pii_vault list"

record reg_env =
  re_sha1 :: hash
  re_build :: ac_builder
  re_codec :: codec

section \<open>Operations\<close>

definition registry_new :: "nat \<Rightarrow> vault_registry" where
  "registry_new d = \<lparr>vaults = [], ttl = d, heap = []\<rparr>"

definition touch :: "nat \<Rightarrow> bytes \<Rightarrow> vault_entry \<Rightarrow> vault_registry \<Rightarrow> vault_registry" where
  "touch now cid e reg = reg\<lparr>vaults := hm_insert cid (e\<lparr>last_accessed := now\<rparr>) (vaults reg)\<rparr>"

definition install :: "nat \<Rightarrow> bytes \<Rightarrow> pii_vault \<Rightarrow> vault_registry \<Rightarrow> nat \<times> vault_registry" where
  "install now cid v reg =
     (let h = length (heap reg) in
      (h, reg\<lparr>vaults := hm_insert cid \<lparr>ve_handle = h, last_accessed = now\<rparr> (vaults reg), heap := heap reg @ [v]\<rparr>))"

definition registry_get_or_create :: "reg_env \<Rightarrow> nat \<Rightarrow> bytes \<Rightarrow> vault_registry \<Rightarrow> nat \<times> vault_registry" where
  "registry_get_or_create E now cid reg =
     (case hm_get (vaults reg) cid of
        Some e \<Rightarrow> (ve_handle e, touch now cid e reg)
      | None \<Rightarrow> install now cid (vault_new (re_sha1 E) cid) reg)"

definition of_stored :: "stored_vault_record \<Rightarrow> vault_record" where
  "of_stored r =
     \<lparr>vr_original = sv_original r, vr_synthetic = sv_synthetic r, vr_pii_type = Custom (sv_pii_type r),
      vr_tier = (case sv_tier r of Some t \<Rightarrow> t | None \<Rightarrow> 0),
      vr_confidence = (case sv_confidence r of Some c \<Rightarrow> c | None \<Rightarrow> 0),
      vr_token_id = (case sv_token_id r of Some t \<Rightarrow> t | None \<Rightarrow> []),
      vr_display_value = (case sv_display_value r of Some d \<Rightarrow> d | None \<Rightarrow> [])\<rparr>"

definition load_or_create :: "reg_env \<Rightarrow> bytes \<Rightarrow> store \<Rightarrow> pii_vault \<times> store" where
  "load_or_create E cid st =
     (case load_vault (re_codec E) cid st of
        (Inr (Some (seed, records)), st1) \<Rightarrow> (from_records (re_build E) cid seed (map of_stored records), st1)
      | (Inr None, st1) \<Rightarrow> (vault_new (re_sha1 E) cid, st1)
      | (Inl _, st1) \<Rightarrow> (vault_new (re_sha1 E) cid, st1))"

text \<open>
  The second half of \<open>get_or_create_with_store\<close>, under the lock again: the vault was loaded
  without it, and another caller may have installed one since.
\<close>

definition install_loaded :: "nat \<Rightarrow> bytes \<Rightarrow> pii_vault \<Rightarrow> vault_registry \<Rightarrow> nat \<times> vault_registry" where
  "install_loaded now cid v reg =
     (case hm_get (vaults reg) cid of
        Some e \<Rightarrow> (ve_handle e, touch now cid e reg)
      | None \<Rightarrow> install now cid v reg)"

definition get_or_create_with_store ::
    "reg_env \<Rightarrow> nat \<Rightarrow> bytes \<Rightarrow> store \<Rightarrow> vault_registry \<Rightarrow> nat \<times> store \<times> vault_registry" where
  "get_or_create_with_store E now cid st reg =
     (case hm_get (vaults reg) cid of
        Some e \<Rightarrow> (ve_handle e, st, touch now cid e reg)
      | None \<Rightarrow>
          (let (v, st1) = load_or_create E cid st; (h, reg1) = install_loaded now cid v reg
           in (h, st1, reg1)))"

definition merge_mapping :: "bytes \<times> bytes \<times> bytes \<times> nat \<times> f32 \<Rightarrow> pii_vault \<Rightarrow> pii_vault" where
  "merge_mapping q v =
     (let (orig, syn, lab, tier, conf) = q in
      if hm_contains (original_to_synthetic v) orig then v
      else insert_mapping_raw orig syn lab tier conf v)"

text \<open>The body that both branches of \<open>merge_into\<close> share.\<close>

definition merge_vaults :: "ac_builder \<Rightarrow> pii_vault \<Rightarrow> pii_vault \<Rightarrow> pii_vault" where
  "merge_vaults build from_vault into_vault =
     (let v1 = merge_index_maps_from from_vault (fold merge_mapping (quints from_vault) into_vault)
      in if vault_is_empty from_vault then v1 else rebuild_automaton build v1)"

definition merge_into ::
    "reg_env \<Rightarrow> nat \<Rightarrow> bytes \<Rightarrow> bytes \<Rightarrow> store \<Rightarrow> vault_registry \<Rightarrow> (store \<times> vault_registry) outcome" where
  "merge_into E now from_key into_key st reg =
     (case hm_get (vaults reg) from_key of
        None \<Rightarrow> Done (st, reg)
      | Some from_entry \<Rightarrow>
          let vs = hm_remove from_key (vaults reg) in
          case hm_get vs into_key of
            Some into_entry \<Rightarrow>
              if ve_handle from_entry = ve_handle into_entry then Panic
              else and_then (index (heap reg) (ve_handle from_entry)) (\<lambda>fv.
                   and_then (index (heap reg) (ve_handle into_entry)) (\<lambda>iv.
                     Done (st, reg\<lparr>vaults := vs,
                               heap := (heap reg)[ve_handle into_entry := merge_vaults (re_build E) fv iv]\<rparr>)))
          | None \<Rightarrow>
              let (persisted, st1) = load_or_create E into_key st in
              if vault_is_empty persisted
              then Done (st1, reg\<lparr>vaults := hm_insert into_key
                                    \<lparr>ve_handle = ve_handle from_entry, last_accessed = now\<rparr> vs\<rparr>)
              else and_then (index (heap reg) (ve_handle from_entry)) (\<lambda>fv.
                     Done (st1, snd (install now into_key (merge_vaults (re_build E) fv persisted)
                                       (reg\<lparr>vaults := vs\<rparr>)))))"

definition evict_expired :: "nat \<Rightarrow> vault_registry \<Rightarrow> vault_registry" where
  "evict_expired now reg =
     reg\<lparr>vaults := filter (\<lambda>(_, e). now - last_accessed e < ttl reg) (vaults reg)\<rparr>"

text \<open>What a holder of a handle does to its vault.\<close>

definition update_vault :: "nat \<Rightarrow> (pii_vault \<Rightarrow> pii_vault) \<Rightarrow> vault_registry \<Rightarrow> vault_registry" where
  "update_vault h f reg = (if h < length (heap reg) then reg\<lparr>heap := (heap reg)[h := f (heap reg ! h)]\<rparr> else reg)"

section \<open>Merging vaults\<close>

lemma vectors_ok_merge_mapping: "vectors_ok v \<Longrightarrow> vectors_ok (merge_mapping q v)"
  by (cases q) (auto simp: merge_mapping_def insert_mapping_raw_def vectors_ok_insert)

lemma get_merge_mapping:
  "hm_get (original_to_synthetic (merge_mapping (orig, syn, r) v)) k =
     (case hm_get (original_to_synthetic v) k of Some s \<Rightarrow> Some s | None \<Rightarrow> if k = orig then Some syn else None)"
  by (cases r) (auto simp: merge_mapping_def insert_mapping_raw_def insert_mapping_raw_with_token_id_def
      hm_contains_def hm.get_put split: option.splits)

lemma vectors_ok_merge_fold: "vectors_ok v \<Longrightarrow> vectors_ok (fold merge_mapping qs v)"
  by (induction qs arbitrary: v) (simp_all add: vectors_ok_merge_mapping)

lemma get_merge_fold:
  "hm_get (original_to_synthetic (fold merge_mapping qs v)) k =
     (case hm_get (original_to_synthetic v) k of
        Some s \<Rightarrow> Some s | None \<Rightarrow> map_of (map (\<lambda>(orig, syn, _). (orig, syn)) qs) k)"
  by (induction qs arbitrary: v) (auto simp: get_merge_mapping split: option.splits)

lemma quints_pairs: "vectors_ok v \<Longrightarrow> map (\<lambda>(orig, syn, _). (orig, syn)) (quints v) = pairs v"
  by (rule nth_equalityI) (auto simp: quints_def pairs_def vectors_ok_def)

lemma quints_empty: "vectors_ok w \<Longrightarrow> vault_is_empty w \<Longrightarrow> quints w = []"
  by (simp add: vault_is_empty_def vectors_ok_def quints_def hm_len_def)

lemma vault_ok_merge_vaults:
  "vectors_ok w \<Longrightarrow> vault_ok build v \<Longrightarrow> vault_ok build (merge_vaults build w v)"
  using vectors_ok_merge_fold [of v "quints w"]
  by (auto simp: merge_vaults_def Let_def quints_empty vault_ok_merge_index_maps)
     (simp add: vault_ok_def merge_index_maps_from_def)

lemma merge_vaults_lookup:
  assumes "vectors_ok w"
  shows "get_synthetic (merge_vaults build w v) k =
      (case get_synthetic v k of Some s \<Rightarrow> Some s | None \<Rightarrow> get_synthetic w k)"
proof -
  have "get_synthetic (merge_vaults build w v) k = hm_get (original_to_synthetic (fold merge_mapping (quints w) v)) k"
    by (simp add: get_synthetic_def merge_vaults_def merge_index_maps_from_def Let_def rebuild_automaton_def
        split: option.splits)
  moreover have "map_of (pairs w) k = get_synthetic w k"
    using assms by (simp add: get_synthetic_def vectors_ok_def)
  ultimately show ?thesis
    by (simp add: get_merge_fold quints_pairs [OF assms] get_synthetic_def split: option.split)
qed

lemma merge_fold_index [simp]:
  "full_token_to_original (fold merge_mapping qs v) = full_token_to_original v"
  "token_id_to_original (fold merge_mapping qs v) = token_id_to_original v"
  "display_value_to_original (fold merge_mapping qs v) = display_value_to_original v"
  by (induction qs arbitrary: v)
     (auto simp: merge_mapping_def insert_mapping_raw_def insert_mapping_raw_with_token_id_def)

lemma merge_vaults_tokens:
  "get_by_token_id (merge_vaults build w v) k =
     (case get_by_token_id v k of Some x \<Rightarrow> Some x | None \<Rightarrow> get_by_token_id w k)"
proof -
  have "get_by_token_id (merge_vaults build w v) k =
      hm_get (fold (\<lambda>(k, x). hm_or_insert k x) (token_id_to_original w) (token_id_to_original v)) k"
    by (simp add: merge_vaults_def get_by_token_id_def merge_index_maps_from_def Let_def)
  then show ?thesis
    unfolding hm_or_insert_or_put
    by (simp add: hm.get_fold_or_put) (auto simp: hm_get_def get_by_token_id_def split: option.splits)
qed

section \<open>The registry invariant\<close>

definition handles :: "(bytes, vault_entry) hashmap \<Rightarrow> nat list" where
  "handles vs = map (\<lambda>(_, e). ve_handle e) vs"

definition registry_ok :: "ac_builder \<Rightarrow> vault_registry \<Rightarrow> bool" where
  "registry_ok build reg \<longleftrightarrow>
     distinct (map fst (vaults reg)) \<and> distinct (handles (vaults reg)) \<and>
     list_all (\<lambda>h. h < length (heap reg)) (handles (vaults reg)) \<and>
     list_all (vault_ok build) (heap reg)"

text \<open>Entries that the code puts into the map: an update of an entry, or a new key with a handle of its own.\<close>

lemma handles_update:
  assumes "hm_get vs k = Some e" and "ve_handle e' = ve_handle e"
  shows "handles (hm_insert k e' vs) = handles vs"
  using assms by (induction vs) (auto simp: handles_def hm_insert_def hm_get_def split: if_splits)

lemma handles_insert:
  assumes "hm_get vs k = None"
  shows "handles (hm_insert k e vs) = handles vs @ [ve_handle e]"
  using assms by (induction vs) (auto simp: handles_def hm_insert_def hm_get_def split: if_splits)

lemma distinct_keys_insert: "distinct (map fst vs) \<Longrightarrow> distinct (map fst (hm_insert k e vs))"
  by (simp add: hm_insert_def distinct_update)

lemma handle_in: "hm_get vs k = Some e \<Longrightarrow> ve_handle e \<in> set (handles vs)"
  by (force simp: handles_def hm_get_def dest: map_of_SomeD)

lemma handles_remove:
  "distinct (handles vs) \<Longrightarrow> hm_get vs k = Some e \<Longrightarrow> distinct (handles (hm_remove k vs))"
  "set (handles (hm_remove k vs)) \<subseteq> set (handles vs)"
  by (auto simp: handles_def hm_remove_def AList.delete_eq distinct_map inj_on_def)

lemma removed_handle:
  assumes "distinct (map fst vs)" "distinct (handles vs)" "hm_get vs k = Some e"
  shows "ve_handle e \<notin> set (handles (hm_remove k vs))"
  using assms
proof (induction vs)
  case (Cons p vs)
  then show ?case
  proof (cases "fst p = k")
    case True
    then have "hm_remove k vs = vs" using Cons.prems(1) by (auto simp: hm_remove_def intro!: AList.delete_id)
    then show ?thesis using Cons.prems True by (cases p) (auto simp: handles_def hm_get_def hm_remove_def)
  next
    case False
    with Cons.prems have "hm_get vs k = Some e" by (cases p) (auto simp: hm_get_def)
    then show ?thesis using Cons False handle_in [of vs k e]
      by (cases p) (auto simp: handles_def hm_remove_def)
  qed
qed (simp add: hm_get_def)

lemma registry_ok_touch:
  "registry_ok build reg \<Longrightarrow> hm_get (vaults reg) k = Some e \<Longrightarrow> registry_ok build (touch now k e reg)"
  by (simp add: registry_ok_def touch_def handles_update distinct_keys_insert)

lemma registry_ok_install:
  assumes "registry_ok build reg" and "hm_get (vaults reg) k = None" and "vault_ok build v"
  shows "registry_ok build (snd (install now k v reg))"
  using assms by (auto simp: registry_ok_def install_def Let_def handles_insert distinct_keys_insert list_all_iff less_Suc_eq)

lemma registry_ok_heap:
  assumes "registry_ok build reg" and "vault_ok build v"
  shows "registry_ok build (reg\<lparr>heap := (heap reg)[h := v]\<rparr>)"
  using assms set_update_subset_insert [of "heap reg" h v] by (auto simp: registry_ok_def list_all_iff)

lemma registry_ok_remove:
  assumes "registry_ok build reg" and "hm_get (vaults reg) k = Some e"
  shows "registry_ok build (reg\<lparr>vaults := hm_remove k (vaults reg)\<rparr>)"
  using assms handles_remove(1) [of "vaults reg" k] handles_remove(2) [of k "vaults reg"]
  by (auto simp: registry_ok_def list_all_iff hm_remove_def distinct_delete)

lemma registry_ok_evict: "registry_ok build reg \<Longrightarrow> registry_ok build (evict_expired now reg)"
  by (auto simp: registry_ok_def evict_expired_def handles_def list_all_iff distinct_map_filter)

text \<open>A store whose vaults have pairwise different originals, which is what the proxy saves.\<close>

definition store_sane :: "codec \<Rightarrow> store \<Rightarrow> bool" where
  "store_sane C st \<longleftrightarrow>
     (\<forall>cid seed rs. fst (load_vault C cid st) = Inr (Some (seed, rs)) \<longrightarrow> distinct (map sv_original rs))"

inductive reachable_registry :: "reg_env \<Rightarrow> vault_registry \<Rightarrow> bool" for E where
  new: "reachable_registry E (registry_new d)"
| got: "reachable_registry E reg \<Longrightarrow> reachable_registry E (snd (registry_get_or_create E now cid reg))"
| got_stored: "reachable_registry E reg \<Longrightarrow> store_sane (re_codec E) st \<Longrightarrow>
     reachable_registry E (snd (snd (get_or_create_with_store E now cid st reg)))"
| raced: "reachable_registry E reg \<Longrightarrow> store_sane (re_codec E) st \<Longrightarrow>
     reachable_registry E (snd (install_loaded now cid (fst (load_or_create E cid st)) reg))"
| merged: "reachable_registry E reg \<Longrightarrow> store_sane (re_codec E) st \<Longrightarrow>
     merge_into E now from_key into_key st reg = Done (st', reg') \<Longrightarrow> reachable_registry E reg'"
| evicted: "reachable_registry E reg \<Longrightarrow> reachable_registry E (evict_expired now reg)"
| mapped: "reachable_registry E reg \<Longrightarrow>
     reachable_registry E (update_vault h (add_mapping (re_build E) og syn ty t c) reg)"
| mapped_token: "reachable_registry E reg \<Longrightarrow>
     reachable_registry E (update_vault h (add_mapping_with_token_id (re_build E) og dv tid ty t c) reg)"

lemma load_or_create_ok:
  "store_sane (re_codec E) st \<Longrightarrow> vault_ok (re_build E) (fst (load_or_create E cid st))"
proof -
  assume sane: "store_sane (re_codec E) st"
  obtain r st1 where l: "load_vault (re_codec E) cid st = (r, st1)" by fastforce
  have "distinct (map sv_original rs)" if "r = Inr (Some (seed, rs))" for seed rs
    using sane that by (simp add: store_sane_def) (metis l fst_conv)
  then show ?thesis
    by (auto simp: load_or_create_def l vault_ok_new of_stored_def comp_def
        intro!: vault_ok_from_records split: sum.split option.split)
qed

lemma registry_ok_registry_get:
  "registry_ok (re_build E) reg \<Longrightarrow> registry_ok (re_build E) (snd (registry_get_or_create E now cid reg))"
  by (auto simp: registry_get_or_create_def registry_ok_touch registry_ok_install vault_ok_new split: option.split)

lemma registry_ok_install_loaded:
  "registry_ok build reg \<Longrightarrow> vault_ok build v \<Longrightarrow> registry_ok build (snd (install_loaded now cid v reg))"
  by (auto simp: install_loaded_def registry_ok_touch registry_ok_install split: option.split)

lemma registry_ok_with_store:
  assumes "registry_ok (re_build E) reg" and "store_sane (re_codec E) st"
  shows "registry_ok (re_build E) (snd (snd (get_or_create_with_store E now cid st reg)))"
  using assms registry_ok_install_loaded [OF assms(1) load_or_create_ok [OF assms(2)], of now cid cid]
  by (auto simp: get_or_create_with_store_def registry_ok_touch split: option.split prod.split)

lemma registry_ok_index:
  "registry_ok build reg \<Longrightarrow> hm_get (vaults reg) k = Some e \<Longrightarrow>
   index (heap reg) (ve_handle e) = Done (heap reg ! ve_handle e) \<and> vault_ok build (heap reg ! ve_handle e)"
  using handle_in [of "vaults reg" k e] by (auto simp: registry_ok_def list_all_iff index_ok)

lemma merge_into_step:
  assumes ok: "registry_ok (re_build E) reg" and f: "hm_get (vaults reg) from_key = Some fe"
  defines "vs \<equiv> hm_remove from_key (vaults reg)"
  shows "merge_into E now from_key into_key st reg =
     (case hm_get vs into_key of
        Some ie \<Rightarrow> Done (st, reg\<lparr>vaults := vs, heap := (heap reg)[ve_handle ie :=
            merge_vaults (re_build E) (heap reg ! ve_handle fe) (heap reg ! ve_handle ie)]\<rparr>)
      | None \<Rightarrow>
          (let (p, st1) = load_or_create E into_key st in
           if vault_is_empty p
           then Done (st1, reg\<lparr>vaults := hm_insert into_key \<lparr>ve_handle = ve_handle fe, last_accessed = now\<rparr> vs\<rparr>)
           else Done (st1, snd (install now into_key (merge_vaults (re_build E) (heap reg ! ve_handle fe) p)
                                  (reg\<lparr>vaults := vs\<rparr>)))))"
proof (cases "hm_get vs into_key")
  case None
  then show ?thesis using f registry_ok_index [OF ok f] unfolding vs_def
    by (simp add: merge_into_def Let_def split: prod.split)
next
  case (Some ie)
  have "ve_handle ie \<in> set (handles vs)" using Some by (rule handle_in)
  moreover have "ve_handle fe \<notin> set (handles vs)"
    using ok f unfolding vs_def by (intro removed_handle) (auto simp: registry_ok_def)
  ultimately have "ve_handle fe \<noteq> ve_handle ie" by metis
  moreover have "index (heap reg) (ve_handle ie) = Done (heap reg ! ve_handle ie)"
    using registry_ok_index [OF registry_ok_remove [OF ok f], of into_key ie] Some by (simp add: vs_def)
  ultimately show ?thesis using Some f registry_ok_index [OF ok f] unfolding vs_def
    by (simp add: merge_into_def Let_def)
qed

lemma registry_ok_rekey:
  assumes "registry_ok build reg" and "hm_get (vaults reg) k = Some e"
    and "hm_get (hm_remove k (vaults reg)) k' = None"
  shows "registry_ok build (reg\<lparr>vaults := hm_insert k' \<lparr>ve_handle = ve_handle e, last_accessed = now\<rparr> (hm_remove k (vaults reg))\<rparr>)"
  using registry_ok_remove [OF assms(1,2)] removed_handle [of "vaults reg" k e] assms handle_in [OF assms(2)]
  by (auto simp: registry_ok_def handles_insert distinct_keys_insert list_all_iff)

lemma registry_ok_merge:
  assumes ok: "registry_ok (re_build E) reg" and "store_sane (re_codec E) st"
  shows "\<exists>st' reg'. merge_into E now from_key into_key st reg = Done (st', reg') \<and> registry_ok (re_build E) reg'"
proof (cases "hm_get (vaults reg) from_key")
  case None
  then show ?thesis using ok by (simp add: merge_into_def)
next
  case (Some fe)
  let ?reg = "reg\<lparr>vaults := hm_remove from_key (vaults reg)\<rparr>"
  have r: "registry_ok (re_build E) ?reg" by (rule registry_ok_remove [OF ok Some])
  have fv: "vectors_ok (heap reg ! ve_handle fe)" using registry_ok_index [OF ok Some] by (simp add: vault_ok_def)
  show ?thesis
  proof (cases "hm_get (vaults ?reg) into_key")
    case (Some ie)
    then have "vault_ok (re_build E) (heap reg ! ve_handle ie)" using registry_ok_index [OF r Some] by simp
    from registry_ok_heap [OF r vault_ok_merge_vaults [OF fv this]] Some
    show ?thesis using merge_into_step [OF ok \<open>hm_get (vaults reg) from_key = Some fe\<close>] by simp
  next
    case None
    have "vault_ok (re_build E) (fst (load_or_create E into_key st))" by (rule load_or_create_ok [OF assms(2)])
    from registry_ok_install [OF r None vault_ok_merge_vaults [OF fv this], of now]
      registry_ok_rekey [OF ok Some, of into_key now] None
    show ?thesis using merge_into_step [OF ok Some, of now into_key st] by (auto split: prod.split)
  qed
qed

lemma registry_ok_update:
  "registry_ok build reg \<Longrightarrow> (\<And>v. vault_ok build v \<Longrightarrow> vault_ok build (f v)) \<Longrightarrow> registry_ok build (update_vault h f reg)"
  by (auto simp: update_vault_def registry_ok_def list_all_iff dest!: subsetD [OF set_update_subset_insert])

lemma reachable_registry_ok: "reachable_registry E reg \<Longrightarrow> registry_ok (re_build E) reg"
proof (induction rule: reachable_registry.induct)
  case (new d)
  show ?case by (simp add: registry_new_def registry_ok_def handles_def)
next
  case (merged reg st now from_key into_key st' reg')
  then show ?case using registry_ok_merge [OF merged.IH merged.hyps(2), of now from_key into_key] by auto
qed (simp_all add: registry_ok_registry_get registry_ok_with_store registry_ok_install_loaded
    load_or_create_ok registry_ok_evict registry_ok_update vault_ok_add_mapping vault_ok_add_mapping_with_token_id)

lemma map_of_filter_entries:
  "distinct (map fst vs) \<Longrightarrow> map_of (filter (\<lambda>(_, x). P x) vs) k =
     (case map_of vs k of Some x \<Rightarrow> if P x then Some x else None | None \<Rightarrow> None)"
  by (induction vs) (auto split: option.splits simp: map_of_eq_None_iff dest: map_of_SomeD intro: rev_image_eqI)

section \<open>Persisting a vault\<close>

text \<open>The records that \<open>finalize_response\<close> saves for a vault, and what is read back from them.\<close>

definition vault_tuples :: "pii_vault \<Rightarrow> (bytes \<times> bytes \<times> bytes \<times> nat \<times> f32 \<times> bytes \<times> bytes) list" where
  "vault_tuples v =
     map (\<lambda>r. (vr_original r, vr_synthetic r, label (vr_pii_type r), vr_tier r, vr_confidence r, vr_token_id r,
               vr_display_value r)) (to_records v)"

lemma of_stored_tuples: "map of_stored (map to_stored (vault_tuples v)) = to_records v"
  by (auto simp: vault_tuples_def to_records_def of_stored_def to_stored_def some_nonempty_def)

lemma restored_fields:
  assumes v: "vectors_ok v" and w: "w = from_records build cid seed (to_records v)"
  shows "vault_ok build w" "original_values w = original_values v" "synthetic_keys w = synthetic_keys v"
    "pii_type_labels w = pii_type_labels v" "rng_seed w = seed"
  using vault_ok_from_records [OF distinct_to_records [OF v], of build cid seed]
  by (simp_all add: w from_records_def load_records_fields to_records_fields [OF v] empty_vault_def)

lemma restored_lookup:
  assumes "vault_ok build v" and w: "w = from_records build cid seed (to_records v)"
  shows "get_synthetic w = get_synthetic v \<and> replace_synthetics w = replace_synthetics v"
proof -
  have "vectors_ok v" using assms by (simp add: vault_ok_def)
  note r = restored_fields [OF this w]
  then show ?thesis using assms(1)
    by (simp add: vault_ok_def vectors_ok_def automaton_ok_def get_synthetic_def [abs_def] pairs_def
        fun_eq_iff replace_synthetics_def split: option.split)
qed

section \<open>Properties\<close>

text \<open>
  C7. Every state of the registry, whatever the callers do and however loads interleave, has its
  keys and its handles pairwise different, every handle pointing to a vault, and every vault in its
  representation invariant. So merging never takes both locks of one vault: it always returns.
\<close>

theorem registry_invariant:
  assumes "reachable_registry E reg" and "store_sane (re_codec E) st"
  shows "registry_ok (re_build E) reg \<and>
    (\<exists>st' reg'. merge_into E now from_key into_key st reg = Done (st', reg'))"
  using reachable_registry_ok [OF assms(1)] registry_ok_merge [OF reachable_registry_ok [OF assms(1)] assms(2)]
  by blast

text \<open>
  Merging one vault into another that is in the registry: the first key is gone, the second
  keeps its handle, and the vault there answers as before where it had an answer and as the first
  vault where it had none, for originals and for token identifiers. No other vault changes.
\<close>

theorem merge_into_spec:
  assumes "registry_ok (re_build E) reg" and "from_key \<noteq> into_key"
    and "hm_get (vaults reg) from_key = Some fe" and "hm_get (vaults reg) into_key = Some ie"
  shows "\<exists>reg'. merge_into E now from_key into_key st reg = Done (st, reg') \<and>
    hm_get (vaults reg') from_key = None \<and> hm_get (vaults reg') into_key = Some ie \<and>
    (\<forall>k. get_synthetic (heap reg' ! ve_handle ie) k =
       (case get_synthetic (heap reg ! ve_handle ie) k of
          Some s \<Rightarrow> Some s | None \<Rightarrow> get_synthetic (heap reg ! ve_handle fe) k)) \<and>
    (\<forall>k. get_by_token_id (heap reg' ! ve_handle ie) k =
       (case get_by_token_id (heap reg ! ve_handle ie) k of
          Some s \<Rightarrow> Some s | None \<Rightarrow> get_by_token_id (heap reg ! ve_handle fe) k)) \<and>
    (\<forall>h. h \<noteq> ve_handle ie \<longrightarrow> heap reg' ! h = heap reg ! h)"
proof -
  have hm: "hm_ok (vaults reg)" using assms(1) by (simp add: registry_ok_def hm_ok_def)
  have fv: "vectors_ok (heap reg ! ve_handle fe)" using registry_ok_index [OF assms(1,3)] by (simp add: vault_ok_def)
  have len: "ve_handle ie < length (heap reg)"
    using handle_in [OF assms(4)] assms(1) by (auto simp: registry_ok_def list_all_iff)
  have g: "hm_get (hm_remove from_key (vaults reg)) into_key = Some ie"
    using hm.get_del [OF hm] assms(2,4) by auto
  let ?reg = "reg\<lparr>vaults := hm_remove from_key (vaults reg), heap := (heap reg)[ve_handle ie :=
      merge_vaults (re_build E) (heap reg ! ve_handle fe) (heap reg ! ve_handle ie)]\<rparr>"
  have "merge_into E now from_key into_key st reg = Done (st, ?reg)"
    using merge_into_step [OF assms(1,3)] g by simp
  then show ?thesis
    using len g hm.get_del [OF hm] by (intro exI [of _ ?reg]) (simp add: merge_vaults_lookup [OF fv] merge_vaults_tokens)
qed



subsection \<open>Witnesses\<close>

definition sample_reg_env :: reg_env where
  "sample_reg_env = \<lparr>re_sha1 = zero_hash, re_build = naive_build, re_codec = sample_codec\<rparr>"

definition sample_registry :: vault_registry where
  "sample_registry =
     snd (registry_get_or_create sample_reg_env 5 ''s'' (snd (registry_get_or_create sample_reg_env 0 ''a'' (registry_new 3))))"

lemma sample_registry_reachable: "reachable_registry sample_reg_env sample_registry"
  unfolding sample_registry_def by (intro reachable_registry.intros)

lemma sample_registry_entries:
  "hm_get (vaults sample_registry) ''a'' = Some \<lparr>ve_handle = 0, last_accessed = 0\<rparr>"
  "hm_get (vaults sample_registry) ''s'' = Some \<lparr>ve_handle = 1, last_accessed = 5\<rparr>"
  by code_simp+

lemma store_sane_empty: "store_sane C (store_open [])"
  by (simp add: store_sane_def load_vault_def conv_file_path_def store_open_def hm.get_empty)

theorem registry_invariant_witness:
  "registry_ok naive_build sample_registry \<and>
   (\<exists>st' reg'. merge_into sample_reg_env 6 ''s'' ''a'' (store_open []) sample_registry = Done (st', reg'))"
  using registry_invariant [OF sample_registry_reachable store_sane_empty, of 6 "''s''" "''a''"]
  by (simp add: sample_reg_env_def)

theorem merge_into_spec_witness:
  "\<exists>reg'. merge_into sample_reg_env 6 ''s'' ''a'' (store_open []) sample_registry = Done (store_open [], reg') \<and>
     hm_get (vaults reg') ''s'' = None"
  using merge_into_spec [OF reachable_registry_ok [OF sample_registry_reachable] _ sample_registry_entries(2,1),
      of 6 "store_open []"] by auto


end
