(* ===== verification/Request.thy ===== *)
theory Request
  imports Pipeline Response Registry
begin

text \<open>
  The way of a request to the upstream server, \<open>src/src/proxy/intercept/c2u.rs\<close>: the two connection
  loops (plain forwarding and PII mode) and the logging of a request in the conversation store.

  \<open>c2u_state\<close> holds what a connection's task owns and what it shares: the receive buffer, the
  framing state, the bytes written upstream, the store, the dashboard events, the shared
  conversation identifier and vault handle, and the vault registry. Identifiers come from a supply
  that is counted up, the clock and the Unicode upper-case table are parameters. A task spawned for
  blocking work runs to its end before the next step.

  The bytes are taken in the pieces in which they were read. A write succeeds, and whether the
  upstream connection is already gone is an argument of each step. Sums of a position and a length
  wrap at 64 bits.
\<close>

section \<open>State\<close>

record 'r c2u_env =
  rq_provider :: provider
  rq_mode :: "pii_mode option"
  rq_pii :: "'r pii_env"
  rq_parse :: json_parser
  rq_print :: json_printer
  rq_codec :: codec
  rq_clock :: clock
  rq_timestamp :: bytes
  rq_uuid :: "nat \<Rightarrow> bytes"
  rq_uppercase :: "bytes \<Rightarrow> bytes"
  rq_sha1 :: hash
  rq_ticks :: nat
  session_uuid :: bytes

record c2u_state =
  rq_raw :: bytes
  framing :: http_framing_state
  sent_up :: bytes
  req_store :: store
  req_ws :: "ws_event list"
  shared_conv_id :: "bytes option"
  shared_vault :: "nat option"
  registry :: vault_registry
  uuids_used :: nat

definition c2u_init :: "store \<Rightarrow> vault_registry \<Rightarrow> c2u_state" where
  "c2u_init st reg =
     \<lparr>rq_raw = [], framing = framing_default, sent_up = [], req_store = st, req_ws = [], shared_conv_id = None,
      shared_vault = None, registry = reg, uuids_used = 0\<rparr>"

definition upstream_write :: "bytes \<Rightarrow> c2u_state \<Rightarrow> c2u_state" where
  "upstream_write bs s = s\<lparr>sent_up := sent_up s @ bs\<rparr>"

definition ws_send :: "ws_event \<Rightarrow> c2u_state \<Rightarrow> c2u_state" where
  "ws_send e s = s\<lparr>req_ws := req_ws s @ [e]\<rparr>"

section \<open>Logging a request\<close>

definition hex_byte :: "char \<Rightarrow> bytes" where
  "hex_byte c = [digit_char_lower (byte c div 16), digit_char_lower (byte c mod 16)]"

definition conversation_fingerprint :: "hash \<Rightarrow> message list \<Rightarrow> bytes" where
  "conversation_fingerprint sha1 msgs =
     concat (map hex_byte (sha1 (case msgs of m # _ \<Rightarrow> role m @ '':'' @ msg_content m | [] \<Rightarrow> [])))"

definition entity_type_label :: "(bytes \<Rightarrow> bytes) \<Rightarrow> bytes \<Rightarrow> bytes" where
  "entity_type_label uppercase t = ''['' @ uppercase t @ '']''"

definition create_or_find_conversation :: "'r c2u_env \<Rightarrow> bytes \<Rightarrow> c2u_state \<Rightarrow> bytes option \<times> c2u_state" where
  "create_or_find_conversation env body s =
     (case parse_request (rq_parse env) (rq_print env) (rq_provider env) body of
        None \<Rightarrow> (None, s)
      | Some parsed \<Rightarrow>
          let fp = conversation_fingerprint (rq_sha1 env) (messages parsed);
              prov = provider_as_str (rq_provider env) in
          case find_conversation_by_fingerprint (rq_codec env) (rq_clock env) prov fp (req_store s) of
            Panic \<Rightarrow> (None, s)
          | Done (Some existing_id) \<Rightarrow> (Some existing_id, s\<lparr>shared_conv_id := Some existing_id\<rparr>)
          | Done None \<Rightarrow>
              let new_id = rq_uuid env (uuids_used s);
                  conv = \<lparr>cv_id = new_id, started_at = rq_timestamp env, cv_provider = prov,
                          cv_model = Some (model parsed), client_hint = Some fp\<rparr>
              in (Some new_id,
                  ws_send (ConversationStart new_id prov (model parsed))
                    (s\<lparr>req_store := insert_conversation (rq_codec env) (rq_clock env) conv (req_store s),
                       shared_conv_id := Some new_id, uuids_used := Suc (uuids_used s)\<rparr>)))"

text \<open>The records of the messages from \<open>msg_offset\<close> on.\<close>

definition request_message ::
    "'r c2u_env \<Rightarrow> bytes \<Rightarrow> bool \<Rightarrow> message list option \<Rightarrow> nat \<Rightarrow> nat \<Rightarrow> nat \<times> message \<Rightarrow> stored_message" where
  "request_message env conv_id pii_processed repl msg_offset used im =
     (let (i, msg) = im in
      \<lparr>sm_id = rq_uuid env (used + i), sm_conversation_id = conv_id, sm_timestamp = rq_timestamp env,
       sm_direction = ''request'', sm_role = Some (role msg), sm_content = msg_content msg,
       sm_tokens_in = None, sm_tokens_out = None,
       sm_content_masked = (case repl of None \<Rightarrow> None
                            | Some rm \<Rightarrow> map_option msg_content (get_at rm (msg_offset + i))),
       sm_pii_processed = Some pii_processed\<rparr>)"

definition store_request_messages ::
    "'r c2u_env \<Rightarrow> bytes \<Rightarrow> bytes option \<Rightarrow> bool \<Rightarrow> bytes \<Rightarrow> c2u_state \<Rightarrow> bytes list \<times> c2u_state" where
  "store_request_messages env original_body replaced_body pii_processed conv_id s =
     (let parse = parse_request (rq_parse env) (rq_print env) (rq_provider env) in
      case parse original_body of None \<Rightarrow> ([], s)
      | Some parsed_orig \<Rightarrow>
          let repl = obind replaced_body (\<lambda>b. map_option messages (parse b));
              (msg_offset, st1) = count_request_messages (rq_codec env) conv_id (req_store s);
              new_orig = drop msg_offset (messages parsed_orig);
              used = uuids_used s;
              msgs = map (request_message env conv_id pii_processed repl msg_offset used) (enumerate 0 new_orig)
          in if new_orig = [] then ([], s\<lparr>req_store := st1\<rparr>)
             else
               let st2 = (case batch_insert_messages (rq_codec env) msgs st1 of Inr st' \<Rightarrow> st' | Inl _ \<Rightarrow> st1)
               in (map sm_id msgs,
                   fold (\<lambda>m. ws_send (WsMessage m)) msgs
                     (s\<lparr>req_store := st2, uuids_used := used + length new_orig\<rparr>)))"

definition log_request :: "'r c2u_env \<Rightarrow> bytes \<Rightarrow> c2u_state \<Rightarrow> c2u_state" where
  "log_request env body s =
     (case create_or_find_conversation env body s of
        (None, s1) \<Rightarrow> s1
      | (Some conv_id, s1) \<Rightarrow> snd (store_request_messages env body None False conv_id s1))"

section \<open>Plain forwarding\<close>

text \<open>
  What a turn of a loop leads to: the next turn, the end of the task with an error, or the task's
  thread unwinding (\<open>Panic\<close> of \<open>outcome\<close>).
\<close>

datatype flow = Next c2u_state | Bail c2u_state

fun flow_state :: "flow \<Rightarrow> c2u_state" where
  "flow_state (Next s) = s" | "flow_state (Bail s) = s"

definition usize_add :: "nat \<Rightarrow> nat \<Rightarrow> nat" where
  "usize_add a b = (a + b) mod 2 ^ 64"

definition needs_more :: "c2u_state \<Rightarrow> bool outcome" where
  "needs_more s =
     (let f = framing s in
      if \<not> header_done f then Done (find_header_end (rq_raw s) = None)
      else (case content_length f of
              Some cl \<Rightarrow> Done (length (rq_raw s) < usize_add (body_start f) cl)
            | None \<Rightarrow>
                if is_chunked f
                then and_then (slice_from (rq_raw s) (body_start f)) (\<lambda>b. Done (find_chunked_body_end b = None))
                else Done True))"

text \<open>Both places that forward what has not been forwarded yet.\<close>

definition forward_rest :: "bool \<Rightarrow> c2u_state \<Rightarrow> flow outcome" where
  "forward_rest gone s =
     (if gone then Done (Bail s)
      else and_then (slice_from (rq_raw s) (forwarded (framing s))) (\<lambda>b.
             Done (Next (upstream_write b (s\<lparr>framing := (framing s)\<lparr>forwarded := length (rq_raw s)\<rparr>\<rparr>)))))"

text \<open>The state after the headers of a request.\<close>

definition parse_headers :: "bytes \<Rightarrow> nat \<Rightarrow> http_framing_state \<Rightarrow> http_framing_state" where
  "parse_headers dat hdr_end f =
     (let cl = parse_content_length (take hdr_end dat) in
      f\<lparr>header_done := True, body_start := hdr_end, content_length := cl,
        is_chunked := (cl = None \<and> is_chunked_encoding (take hdr_end dat))\<rparr>)"

definition finish_content_length :: "'r c2u_env \<Rightarrow> nat \<Rightarrow> c2u_state \<Rightarrow> flow outcome" where
  "finish_content_length env cl s =
     (let fin = usize_add (body_start (framing s)) cl in
      if fin \<le> length (rq_raw s)
      then and_then (slice (rq_raw s) (body_start (framing s)) fin) (\<lambda>body.
             Done (Next ((log_request env body s)\<lparr>rq_raw := drop fin (rq_raw s), framing := framing_default\<rparr>)))
      else Done (Next s))"

definition finish_chunked :: "'r c2u_env \<Rightarrow> bool \<Rightarrow> c2u_state \<Rightarrow> flow outcome" where
  "finish_chunked env gone s =
     (let bs = body_start (framing s) in
      and_then (slice_from (rq_raw s) bs) (\<lambda>body.
        case find_chunked_body_end body of None \<Rightarrow> Done (Next s)
        | Some fin \<Rightarrow>
            if gone then Done (Bail s)
            else
              and_then (decode_chunked_body (take fin body)) (\<lambda>d.
                let s1 = (case d of
                            Some decoded \<Rightarrow>
                              log_request env decoded
                                (upstream_write (rebuild_request_with_content_length (take bs (rq_raw s)) decoded) s)
                          | None \<Rightarrow> upstream_write (take (bs + fin) (rq_raw s)) s)
                in Done (Next (s1\<lparr>rq_raw := drop (bs + fin) (rq_raw s), framing := framing_default\<rparr>)))))"

definition and_next :: "flow outcome \<Rightarrow> (c2u_state \<Rightarrow> flow outcome) \<Rightarrow> flow outcome" where
  "and_next m f = and_then m (\<lambda>r. case r of Next s \<Rightarrow> f s | Bail s \<Rightarrow> Done (Bail s))"

text \<open>The rest of a turn, once the bytes of a read are in the buffer.\<close>

definition passthrough_turn :: "'r c2u_env \<Rightarrow> bool \<Rightarrow> c2u_state \<Rightarrow> flow outcome" where
  "passthrough_turn env gone s =
     (let headers = (if header_done (framing s) then Some (Done (Next s))
                     else (case find_header_end (rq_raw s) of
                             None \<Rightarrow> None
                           | Some hdr_end \<Rightarrow>
                               let s1 = s\<lparr>framing := parse_headers (rq_raw s) hdr_end (framing s)\<rparr>
                               in Some (if is_chunked (framing s1) then Done (Next s1) else forward_rest gone s1)))
      in case headers of
           None \<Rightarrow> Done (Next s)
         | Some m \<Rightarrow>
             and_next m (\<lambda>s1.
             and_next (if \<not> is_chunked (framing s1) \<and> forwarded (framing s1) < length (rq_raw s1)
                       then forward_rest gone s1 else Done (Next s1)) (\<lambda>s2.
               case content_length (framing s2) of
                 Some cl \<Rightarrow> finish_content_length env cl s2
               | None \<Rightarrow> if is_chunked (framing s2) then finish_chunked env gone s2 else Done (Next s2))))"

text \<open>
  Turns that need no read, until one does. Each of them either parses a header or takes a request
  out of the buffer, so as many turns as twice the length of the buffer are enough.
\<close>

fun passthrough_turns :: "'r c2u_env \<Rightarrow> bool \<Rightarrow> nat \<Rightarrow> c2u_state \<Rightarrow> flow outcome option" where
  "passthrough_turns env gone fuel s =
     (case needs_more s of
        Panic \<Rightarrow> Some Panic
      | Done True \<Rightarrow> Some (Done (Next s))
      | Done False \<Rightarrow>
          (case fuel of 0 \<Rightarrow> None
           | Suc n \<Rightarrow>
               (case passthrough_turn env gone s of
                  Done (Next s1) \<Rightarrow> passthrough_turns env gone n s1
                | r \<Rightarrow> Some r)))"

declare passthrough_turns.simps [simp del]

definition passthrough_fuel :: "c2u_state \<Rightarrow> nat" where
  "passthrough_fuel s = 2 * length (rq_raw s) + 2"

text \<open>One read and the turns up to the next one.\<close>

definition passthrough_read :: "'r c2u_env \<Rightarrow> bytes \<times> bool \<Rightarrow> c2u_state \<Rightarrow> flow outcome option" where
  "passthrough_read env r s =
     (let (chunk, gone) = r; s1 = s\<lparr>rq_raw := rq_raw s @ chunk\<rparr> in
      case passthrough_turn env gone s1 of
        Done (Next s2) \<Rightarrow> passthrough_turns env gone (passthrough_fuel s2) s2
      | m \<Rightarrow> Some m)"

fun passthrough_reads :: "'r c2u_env \<Rightarrow> (bytes \<times> bool) list \<Rightarrow> c2u_state \<Rightarrow> flow outcome option" where
  "passthrough_reads env [] s = Some (Done (Next s))"
| "passthrough_reads env (r # rs) s =
     (case passthrough_read env r s of
        Some (Done (Next s1)) \<Rightarrow> passthrough_reads env rs s1
      | m \<Rightarrow> m)"

definition passthrough_eof :: "'r c2u_env \<Rightarrow> c2u_state \<Rightarrow> c2u_state outcome" where
  "passthrough_eof env s =
     (let f = framing s in
      if header_done f \<and> content_length f = None \<and> \<not> is_chunked f
      then and_then (slice_from (rq_raw s) (body_start f)) (\<lambda>body.
             Done (if body = [] then s else log_request env body s))
      else Done s)"

definition handle_c2u_passthrough ::
    "'r c2u_env \<Rightarrow> (bytes \<times> bool) list \<Rightarrow> c2u_state \<Rightarrow> flow outcome option" where
  "handle_c2u_passthrough env reads s =
     (case passthrough_reads env reads s of
        Some (Done (Next s1)) \<Rightarrow> Some (and_then (passthrough_eof env s1) (\<lambda>s2. Done (Next s2)))
      | m \<Rightarrow> m)"


section \<open>PII mode\<close>

definition inject_system_instruction_into_body :: "'r c2u_env \<Rightarrow> bytes \<Rightarrow> bytes option outcome" where
  "inject_system_instruction_into_body env body =
     (if \<not> utf8_valid body then Done None
      else (case rq_parse env body of None \<Rightarrow> Done None
        | Some value \<Rightarrow>
            and_then (inject_system_instruction value (rq_provider env)) (\<lambda>(value', injected).
              Done (if injected then rq_print env value' else None))))"

definition reg_env_of :: "'r c2u_env \<Rightarrow> reg_env" where
  "reg_env_of env = \<lparr>re_sha1 = rq_sha1 env, re_build = env_build (rq_pii env), re_codec = rq_codec env\<rparr>"

text \<open>The vault of the request: the fallback vault of the session is merged into it first.\<close>

definition request_vault :: "'r c2u_env \<Rightarrow> bytes option \<Rightarrow> bytes option \<Rightarrow> c2u_state \<Rightarrow> (nat option \<times> c2u_state) outcome" where
  "request_vault env conv_id_opt pii_cid s =
     and_then
       (case (conv_id_opt, rq_mode env) of
          (Some real_cid, Some _) \<Rightarrow>
            if real_cid \<noteq> session_uuid env
            then and_then (merge_into (reg_env_of env) (rq_ticks env) (session_uuid env) real_cid (req_store s) (registry s))
                   (\<lambda>(st', reg'). Done (s\<lparr>req_store := st', registry := reg'\<rparr>))
            else Done s
        | _ \<Rightarrow> Done s)
       (\<lambda>s1.
          case (rq_mode env, pii_cid) of
            (Some _, Some cid) \<Rightarrow>
              (let (h, st', reg') = get_or_create_with_store (reg_env_of env) (rq_ticks env) cid (req_store s1) (registry s1)
               in Done (Some h, s1\<lparr>req_store := st', registry := reg'\<rparr>))
          | _ \<Rightarrow> Done (None, s1))"

text \<open>The two stages on the body: the pipeline, then the system instruction.\<close>

definition run_pipeline :: "'r c2u_env \<Rightarrow> nat option \<Rightarrow> bytes \<Rightarrow> c2u_state \<Rightarrow> (bytes \<times> pii_detection list \<times> c2u_state) outcome" where
  "run_pipeline env vault_handle original_body s =
     (case vault_handle of None \<Rightarrow> Done (original_body, [], s)
      | Some h \<Rightarrow>
          if rq_mode env \<noteq> Some Replace then Done (original_body, [], s)
          else
            and_then (index (heap (registry s)) h) (\<lambda>v.
            and_then (process_request_body_async (rq_pii env) (rq_parse env) (rq_print env) (rq_provider env) v v original_body)
              (\<lambda>(r, v').
                let s1 = s\<lparr>registry := update_vault h (\<lambda>_. v') (registry s)\<rparr> in
                case r of Some (new_body, ds) \<Rightarrow> Done (new_body, ds, s1) | None \<Rightarrow> Done (original_body, [], s1))))"

definition add_instruction :: "'r c2u_env \<Rightarrow> bytes \<Rightarrow> bytes outcome" where
  "add_instruction env working_body =
     (if rq_mode env \<noteq> Some Replace then Done working_body
      else and_then (inject_system_instruction_into_body env working_body) (\<lambda>r.
             Done (case r of Some injected \<Rightarrow> injected | None \<Rightarrow> working_body)))"

definition detection_event :: "'r c2u_env \<Rightarrow> bytes \<Rightarrow> pii_detection \<Rightarrow> ws_event" where
  "detection_event env cid d =
     PiiDetected cid (pd_entity_type d) (pd_original d) (entity_type_label (rq_uppercase env) (pd_entity_type d))
       (pd_synthetic d) (pd_tier d) (pd_confidence d)"

definition detection_record :: "'r c2u_env \<Rightarrow> bytes \<Rightarrow> pii_detection \<Rightarrow> message_detection" where
  "detection_record env last_msg_id d =
     \<lparr>md_message_id = last_msg_id, md_entity_type = pd_entity_type d,
      md_original_masked = entity_type_label (rq_uppercase env) (pd_entity_type d),
      md_synthetic = pd_synthetic d, md_tier = pd_tier d, md_confidence = pd_confidence d\<rparr>"

definition report_detections :: "'r c2u_env \<Rightarrow> bytes option \<Rightarrow> bytes list \<Rightarrow> pii_detection list \<Rightarrow> c2u_state \<Rightarrow> c2u_state" where
  "report_detections env pii_cid message_ids ds s =
     (case pii_cid of None \<Rightarrow> s
      | Some cid \<Rightarrow>
          let s1 = fold (\<lambda>d. ws_send (detection_event env cid d)) ds s;
              last_msg_id = (if message_ids = [] then [] else last message_ids)
          in if ds = [] then s1
             else (case insert_detections (rq_codec env) cid (map (detection_record env last_msg_id) ds) (req_store s1) of
                     Inr st' \<Rightarrow> s1\<lparr>req_store := st'\<rparr>
                   | Inl _ \<Rightarrow> s1))"

text \<open>What happens to a complete request, up to the drained buffer.\<close>

definition pii_request :: "'r c2u_env \<Rightarrow> bool \<Rightarrow> bytes \<Rightarrow> nat \<Rightarrow> c2u_state \<Rightarrow> flow outcome" where
  "pii_request env gone original_body consumed s =
     (let (conv_id_opt, s1) = create_or_find_conversation env original_body s;
          pii_cid = (case conv_id_opt of
                       Some c \<Rightarrow> Some c
                     | None \<Rightarrow> (case rq_mode env of None \<Rightarrow> None
                                | Some _ \<Rightarrow> Some (case shared_conv_id s1 of Some c \<Rightarrow> c | None \<Rightarrow> session_uuid env)))
      in and_then (request_vault env conv_id_opt pii_cid s1) (\<lambda>(vault_handle, s2).
         and_then (run_pipeline env vault_handle original_body s2) (\<lambda>(working_body, ds, s3).
         and_then (add_instruction env working_body) (\<lambda>forward_body.
           let forward_request =
                 rebuild_request_with_content_length (take (body_start (framing s3)) (rq_raw s3)) forward_body;
               pii_mode_active = (rq_mode env = Some Replace);
               replaced = (if pii_mode_active \<and> ds \<noteq> [] then Some forward_body else None);
               (message_ids, s4) = (case conv_id_opt of
                                      Some cid \<Rightarrow> store_request_messages env original_body replaced pii_mode_active cid s3
                                    | None \<Rightarrow> ([], s3));
               s5 = report_detections env pii_cid message_ids ds s4;
               s6 = (case vault_handle of Some h \<Rightarrow> s5\<lparr>shared_vault := Some h\<rparr> | None \<Rightarrow> s5)
           in if gone then Done (Bail s6)
              else Done (Next ((upstream_write forward_request s6)
                     \<lparr>rq_raw := drop (min consumed (length (rq_raw s6))) (rq_raw s6), framing := framing_default\<rparr>))))))"

definition pii_body_done :: "c2u_state \<Rightarrow> bool outcome" where
  "pii_body_done s =
     (let f = framing s in
      if \<not> header_done f then Done False
      else (case content_length f of
              Some cl \<Rightarrow> Done (cl \<le> body_received f)
            | None \<Rightarrow>
                if is_chunked f
                then and_then (slice_from (rq_raw s) (body_start f)) (\<lambda>b. Done (find_chunked_body_end b \<noteq> None))
                else Done True))"

text \<open>The decoded body and the number of bytes the request takes.\<close>

definition pii_extract :: "c2u_state \<Rightarrow> (bytes \<times> nat) outcome" where
  "pii_extract s =
     (let f = framing s; bs = body_start f in
      if is_chunked f
      then and_then (slice_from (rq_raw s) bs) (\<lambda>b.
             case find_chunked_body_end b of None \<Rightarrow> Panic
             | Some fin \<Rightarrow>
                 and_then (decode_chunked_body (take fin b)) (\<lambda>d.
                   Done (case d of Some decoded \<Rightarrow> decoded | None \<Rightarrow> take fin b, bs + fin)))
      else (let cl = (case content_length f of Some c \<Rightarrow> c | None \<Rightarrow> body_received f) in
            and_then (slice (rq_raw s) bs (usize_add bs cl)) (\<lambda>body. Done (body, usize_add bs cl))))"

definition pii_receive :: "bytes \<Rightarrow> c2u_state \<Rightarrow> c2u_state" where
  "pii_receive chunk s =
     (let dat = rq_raw s @ chunk; f = framing s;
          f1 = (if header_done f then f\<lparr>body_received := body_received f + length chunk\<rparr>
                else (case find_header_end dat of None \<Rightarrow> f
                      | Some hdr_end \<Rightarrow> (parse_headers dat hdr_end f)\<lparr>body_received := length dat - hdr_end\<rparr>))
      in s\<lparr>rq_raw := dat, framing := f1\<rparr>)"

definition pii_read :: "'r c2u_env \<Rightarrow> bytes \<times> bool \<Rightarrow> c2u_state \<Rightarrow> flow outcome" where
  "pii_read env r s =
     (let (chunk, gone) = r; s1 = pii_receive chunk s in
      and_then (pii_body_done s1) (\<lambda>body_done.
        if \<not> body_done then Done (Next s1)
        else and_then (pii_extract s1) (\<lambda>(original_body, consumed).
               pii_request env gone original_body consumed s1)))"

fun handle_c2u_pii :: "'r c2u_env \<Rightarrow> (bytes \<times> bool) list \<Rightarrow> c2u_state \<Rightarrow> flow outcome" where
  "handle_c2u_pii env [] s = Done (Next s)"
| "handle_c2u_pii env (r # rs) s = and_next (pii_read env r s) (handle_c2u_pii env rs)"

definition handle_c2u :: "'r c2u_env \<Rightarrow> (bytes \<times> bool) list \<Rightarrow> c2u_state \<Rightarrow> flow outcome option" where
  "handle_c2u env reads s =
     (if rq_mode env \<noteq> None \<and> rq_mode env \<noteq> Some Off then Some (handle_c2u_pii env reads s)
      else handle_c2u_passthrough env reads s)"

section \<open>What logging leaves alone\<close>

lemma ws_send_fold [simp]:
  "rq_raw (fold (\<lambda>m. ws_send (g m)) ms s) = rq_raw s" "framing (fold (\<lambda>m. ws_send (g m)) ms s) = framing s"
  "sent_up (fold (\<lambda>m. ws_send (g m)) ms s) = sent_up s" "req_store (fold (\<lambda>m. ws_send (g m)) ms s) = req_store s"
  "shared_conv_id (fold (\<lambda>m. ws_send (g m)) ms s) = shared_conv_id s"
  "shared_vault (fold (\<lambda>m. ws_send (g m)) ms s) = shared_vault s"
  "registry (fold (\<lambda>m. ws_send (g m)) ms s) = registry s"
  by (induction ms arbitrary: s) (simp_all add: ws_send_def)

lemma create_or_find_frame [simp]:
  "rq_raw (snd (create_or_find_conversation env body s)) = rq_raw s"
  "framing (snd (create_or_find_conversation env body s)) = framing s"
  "sent_up (snd (create_or_find_conversation env body s)) = sent_up s"
  "registry (snd (create_or_find_conversation env body s)) = registry s"
  by (simp_all add: create_or_find_conversation_def Let_def ws_send_def split: option.split outcome.split)

lemma store_request_frame [simp]:
  "rq_raw (snd (store_request_messages env body rb p cid s)) = rq_raw s"
  "framing (snd (store_request_messages env body rb p cid s)) = framing s"
  "sent_up (snd (store_request_messages env body rb p cid s)) = sent_up s"
  "registry (snd (store_request_messages env body rb p cid s)) = registry s"
  by (simp_all add: store_request_messages_def Let_def split: option.split prod.split sum.split)

lemma log_request_frame [simp]:
  "rq_raw (log_request env body s) = rq_raw s" "framing (log_request env body s) = framing s"
  "sent_up (log_request env body s) = sent_up s" "registry (log_request env body s) = registry s"
  using create_or_find_frame [of env body s]
  by (auto simp: log_request_def simp del: create_or_find_frame split: prod.split option.split)

section \<open>The forwarding loop returns\<close>

definition frame_ok :: "c2u_state \<Rightarrow> bool" where
  "frame_ok s \<longleftrightarrow>
     (if header_done (framing s)
      then 4 \<le> body_start (framing s) \<and> body_start (framing s) \<le> length (rq_raw s) \<and> forwarded (framing s) \<le> length (rq_raw s)
      else framing s = framing_default)"

definition turn_measure :: "c2u_state \<Rightarrow> nat" where
  "turn_measure s = 2 * length (rq_raw s) + (if header_done (framing s) then 0 else 1)"

lemma find_header_end_bounds: "find_header_end d = Some h \<Longrightarrow> 4 \<le> h \<and> h \<le> length d"
  by (auto simp: find_header_end_def dest: find_sub_bound)

lemma forward_rest_ok:
  "frame_ok s \<Longrightarrow> header_done (framing s) \<Longrightarrow> forward_rest gone s = Done r \<Longrightarrow>
   frame_ok (flow_state r) \<and> rq_raw (flow_state r) = rq_raw s \<and>
   (\<exists>n. framing (flow_state r) = (framing s)\<lparr>forwarded := n\<rparr>)"
  by (cases gone) (auto simp: forward_rest_def frame_ok_def upstream_write_def slice_from_ok
      intro: exI [of _ "forwarded (framing s)"])

text \<open>The last part of a turn: it takes the request out of the buffer, or changes nothing.\<close>

definition finish_request :: "'r c2u_env \<Rightarrow> bool \<Rightarrow> c2u_state \<Rightarrow> flow outcome" where
  "finish_request env gone s =
     (case content_length (framing s) of
        Some cl \<Rightarrow> finish_content_length env cl s
      | None \<Rightarrow> if is_chunked (framing s) then finish_chunked env gone s else Done (Next s))"

lemma finish_request_ok:
  assumes "frame_ok s" and "header_done (framing s)" and "finish_request env gone s = Done (Next s')"
  shows "frame_ok s' \<and> (s' = s \<and> needs_more s = Done True \<or> length (rq_raw s') + 4 \<le> length (rq_raw s))"
  using assms
  by (auto simp: finish_request_def finish_content_length_def finish_chunked_def frame_ok_def needs_more_def
      framing_default_def slice_def slice_from_ok Let_def and_then_Done_iff split: option.splits if_splits)

lemma turn_cases:
  "passthrough_turn env gone s =
     (if header_done (framing s)
      then and_next (if \<not> is_chunked (framing s) \<and> forwarded (framing s) < length (rq_raw s)
                     then forward_rest gone s else Done (Next s)) (finish_request env gone)
      else (case find_header_end (rq_raw s) of
              None \<Rightarrow> Done (Next s)
            | Some h \<Rightarrow>
                let s1 = s\<lparr>framing := parse_headers (rq_raw s) h (framing s)\<rparr> in
                and_next (if is_chunked (framing s1) then Done (Next s1) else forward_rest gone s1) (\<lambda>s1.
                and_next (if \<not> is_chunked (framing s1) \<and> forwarded (framing s1) < length (rq_raw s1)
                          then forward_rest gone s1 else Done (Next s1)) (finish_request env gone))))"
  by (simp add: passthrough_turn_def finish_request_def [abs_def] and_next_def Let_def cong: option.case_cong
      split: option.split)

lemma and_next_Next: "and_next m f = Done (Next s') \<longleftrightarrow> (\<exists>s. m = Done (Next s) \<and> f s = Done (Next s'))"
  by (cases m) (auto simp: and_next_def split: flow.splits)


lemma parse_headers_simps [simp]:
  "header_done (parse_headers d h f)" "body_start (parse_headers d h f) = h"
  "forwarded (parse_headers d h f) = forwarded f"
  by (simp_all add: parse_headers_def Let_def)

lemma frame_ok_parse:
  "frame_ok s \<Longrightarrow> \<not> header_done (framing s) \<Longrightarrow> find_header_end (rq_raw s) = Some h \<Longrightarrow>
   frame_ok (s\<lparr>framing := parse_headers (rq_raw s) h (framing s)\<rparr>)"
  by (auto simp: frame_ok_def framing_default_def dest: find_header_end_bounds)

lemma forward_part_ok:
  assumes "frame_ok s" and "header_done (framing s)"
    and "(if b then forward_rest gone s else Done (Next s)) = Done (Next s1)"
  shows "frame_ok s1 \<and> header_done (framing s1) \<and> rq_raw s1 = rq_raw s \<and>
    (\<exists>n. framing s1 = (framing s)\<lparr>forwarded := n\<rparr>)"
proof (cases b)
  case True
  then show ?thesis using assms forward_rest_ok [OF assms(1,2), of gone "Next s1"] by auto
next
  case False
  then have "s1 = s" using assms(3) by simp
  then show ?thesis using assms by (auto intro!: exI [of _ "forwarded (framing s)"])
qed

lemma needs_more_forwarded:
  "rq_raw s1 = rq_raw s \<Longrightarrow> framing s1 = (framing s)\<lparr>forwarded := n\<rparr> \<Longrightarrow> needs_more s1 = needs_more s"
  by (simp add: needs_more_def Let_def split: option.split)

lemma turn_ok:
  assumes ok: "frame_ok s" and t: "passthrough_turn env gone s = Done (Next s')"
  shows "frame_ok s' \<and> (needs_more s = Done False \<longrightarrow> turn_measure s' < turn_measure s)"
proof (cases "header_done (framing s)")
  case True
  with t obtain s1 where f: "(if \<not> is_chunked (framing s) \<and> forwarded (framing s) < length (rq_raw s)
      then forward_rest gone s else Done (Next s)) = Done (Next s1)" and g: "finish_request env gone s1 = Done (Next s')"
    by (auto simp: turn_cases and_next_Next)
  note s1 = forward_part_ok [OF ok True f]
  from finish_request_ok [OF _ _ g] s1 needs_more_forwarded [of s1 s]
  show ?thesis using True by (fastforce simp: turn_measure_def split: if_splits)
next
  case False
  show ?thesis
  proof (cases "find_header_end (rq_raw s)")
    case None
    then show ?thesis using t False ok by (auto simp: turn_cases needs_more_def)
  next
    case (Some h)
    let ?s = "s\<lparr>framing := parse_headers (rq_raw s) h (framing s)\<rparr>"
    have ok1: "frame_ok ?s" by (rule frame_ok_parse [OF ok False Some])
    from t obtain s1 s2 where "(if is_chunked (framing ?s) then Done (Next ?s) else forward_rest gone ?s) = Done (Next s1)"
      and f2: "(if \<not> is_chunked (framing s1) \<and> forwarded (framing s1) < length (rq_raw s1)
          then forward_rest gone s1 else Done (Next s1)) = Done (Next s2)"
      and g: "finish_request env gone s2 = Done (Next s')"
      using False Some unfolding turn_cases and_next_Next Let_def by (simp only: if_False option.case and_next_Next) blast
    then have f1: "(if \<not> is_chunked (framing ?s) then forward_rest gone ?s else Done (Next ?s)) = Done (Next s1)"
      by (auto split: if_splits)
    note s1 = forward_part_ok [OF ok1 _ f1]
    note s2 = forward_part_ok [OF _ _ f2]
    have "frame_ok s' \<and> (s' = s2 \<or> length (rq_raw s') + 4 \<le> length (rq_raw s))"
      using finish_request_ok [OF _ _ g] s1 s2 by fastforce
    moreover have "header_done (framing s2)" "rq_raw s2 = rq_raw s" using s1 s2 by auto
    ultimately show ?thesis using False by (auto simp: turn_measure_def)
  qed
qed

lemma turns_return:
  "frame_ok s \<Longrightarrow> turn_measure s < fuel \<Longrightarrow>
   \<exists>r. passthrough_turns env gone fuel s = Some r \<and> (\<forall>s'. r = Done (Next s') \<longrightarrow> frame_ok s' \<and> needs_more s' = Done True)"
proof (induction fuel arbitrary: s)
  case (Suc n)
  show ?case
  proof (cases "needs_more s = Done False")
    case False
    then have "needs_more s = Panic \<or> needs_more s = Done True" by (cases "needs_more s") auto
    then show ?thesis using Suc.prems by (subst passthrough_turns.simps) auto
  next
    case True
    show ?thesis
    proof (cases "\<exists>s1. passthrough_turn env gone s = Done (Next s1)")
      case False
      then show ?thesis using True
        by (subst passthrough_turns.simps) (auto split: outcome.splits flow.splits)
    next
      case t: True
      then obtain s1 where s1: "passthrough_turn env gone s = Done (Next s1)" by blast
      with turn_ok [OF Suc.prems(1) s1] True Suc.prems(2) have "frame_ok s1" "turn_measure s1 < n" by auto
      from Suc.IH [OF this] True s1 show ?thesis by (subst passthrough_turns.simps) simp
    qed
  qed
qed simp

lemma read_returns:
  assumes "frame_ok s"
  shows "\<exists>r. passthrough_read env rd s = Some r \<and> (\<forall>s'. r = Done (Next s') \<longrightarrow> frame_ok s' \<and> needs_more s' = Done True)"
proof -
  obtain c gone where rd: "rd = (c, gone)" by fastforce
  have ok: "frame_ok (s\<lparr>rq_raw := rq_raw s @ c\<rparr>)" using assms by (auto simp: frame_ok_def)
  show ?thesis
  proof (cases "\<exists>s1. passthrough_turn env gone (s\<lparr>rq_raw := rq_raw s @ c\<rparr>) = Done (Next s1)")
    case True
    then obtain s1 where s1: "passthrough_turn env gone (s\<lparr>rq_raw := rq_raw s @ c\<rparr>) = Done (Next s1)" by blast
    then have "frame_ok s1" "turn_measure s1 < passthrough_fuel s1"
      using turn_ok [OF ok] by (auto simp: turn_measure_def passthrough_fuel_def)
    from turns_return [OF this] s1 show ?thesis by (simp add: passthrough_read_def rd)
  next
    case False
    then show ?thesis by (auto simp: passthrough_read_def rd split: outcome.splits flow.splits)
  qed
qed

lemma reads_return:
  "frame_ok s \<Longrightarrow> \<exists>r. passthrough_reads env rds s = Some r \<and> (\<forall>s'. r = Done (Next s') \<longrightarrow> frame_ok s')"
proof (induction rds arbitrary: s)
  case (Cons rd rds)
  obtain r where r: "passthrough_read env rd s = Some r" "\<forall>s'. r = Done (Next s') \<longrightarrow> frame_ok s'"
    using read_returns [OF Cons.prems] by blast
  then show ?case using Cons.IH by (auto split: outcome.splits flow.splits)
qed simp

section \<open>Requests on the wire\<close>

lemma find_sub_take:
  assumes "find_sub n h = Some i"
  shows "find_sub n (take k h) = (if i + length n \<le> k then Some i else None)"
proof (cases "find_sub n (take k h)")
  case (Some j)
  then have "find_sub n (take k h @ drop k h) = Some j" by (rule find_sub_append_Some)
  then have "j = i" using assms by simp
  then show ?thesis using find_sub_bound [OF Some] by (simp add: Some split: if_splits)
next
  case None
  obtain a b where h: "h = a @ n @ b" "length a = i"
    using find_sub_split [OF assms] find_sub_bound [OF assms] by (metis add_leD1 length_take min.absorb2)
  have "sublist n (take k h)" if "i + length n \<le> k" using that by (simp add: h)
  then show ?thesis using None by (auto simp: find_sub_None_iff)
qed

lemma hd_show_radix:
  assumes "2 \<le> r" and "0 < n" and "\<And>d. 0 < d \<Longrightarrow> d < r \<Longrightarrow> dig d \<noteq> dig 0"
  shows "hd (show_radix dig r n) \<noteq> dig 0"
  using assms
proof (induction dig r n rule: show_radix.induct)
  case (1 dig r n)
  then show ?case by (subst show_radix.simps) (auto simp: Let_def div_greater_zero_iff)
qed


lemma hd_show_hex: "0 < n \<Longrightarrow> hd (show_hex n) \<noteq> CHR ''0''"
proof -
  have z: "digit_char 0 = CHR ''0''" by code_simp
  have d: "digit_char d \<noteq> digit_char 0" if "0 < d" "d < 16" for d
    using digit_val_char [of d 16] digit_val_char [of 0 16] that by fastforce
  show "0 < n \<Longrightarrow> hd (show_hex n) \<noteq> CHR ''0''"
    using hd_show_radix [of 16 n digit_char] d unfolding show_hex_def z by auto
qed

text \<open>
  A request as a client sends it: header lines, and a body that is announced by its length or sent
  in chunks. \<open>on_wire\<close> is its bytes; \<open>as_forwarded\<close> what the upstream server is to receive: a body of
  known length unchanged, a chunked body whole, under a content length.
\<close>

datatype client_request = Sized "bytes list" bytes | Chunked "bytes list" "bytes list"

fun wire_head :: "client_request \<Rightarrow> bytes list" where
  "wire_head (Sized ls body) = ls" | "wire_head (Chunked ls ps) = ls"

fun wire_body :: "client_request \<Rightarrow> bytes" where
  "wire_body (Sized ls body) = body" | "wire_body (Chunked ls ps) = chunked_body ps"

fun payload :: "client_request \<Rightarrow> bytes" where
  "payload (Sized ls body) = body" | "payload (Chunked ls ps) = concat ps"

definition on_wire :: "client_request \<Rightarrow> bytes" where
  "on_wire r = header_block (wire_head r) @ wire_body r"

fun as_forwarded :: "client_request \<Rightarrow> bytes" where
  "as_forwarded (Sized ls body) = header_block ls @ body"
| "as_forwarded (Chunked ls ps) = rebuild_request_with_content_length (header_block ls) (concat ps)"

definition request_ok :: "client_request \<Rightarrow> bool" where
  "request_ok r \<longleftrightarrow>
     wire_head r \<noteq> [] \<and> list_all header_line (wire_head r) \<and> length (on_wire r) \<le> usize_max \<and>
     (case r of
        Sized ls body \<Rightarrow> parse_content_length (header_block ls) = Some (length body)
      | Chunked ls ps \<Rightarrow>
          parse_content_length (header_block ls) = None \<and> is_chunked_encoding (header_block ls) \<and>
          [] \<notin> set ps \<and> find_chunked_body_end (chunked_body ps) = Some (length (chunked_body ps)))"

lemma request_okD:
  assumes "request_ok r"
  shows "find_header_end (on_wire r) = Some (length (header_block (wire_head r)))"
  using assms unfolding on_wire_def request_ok_def by (intro find_header_end_block) auto

lemma header_end_prefix:
  assumes "request_ok r" and "prefix d (on_wire r)"
  shows "find_header_end d =
    (if length (header_block (wire_head r)) \<le> length d then Some (length (header_block (wire_head r))) else None)"
proof -
  let ?h = "length (header_block (wire_head r))"
  obtain i where i: "find_sub [CR, LF, CR, LF] (on_wire r) = Some i" "?h = i + 4"
    using request_okD [OF assms(1)] unfolding find_header_end_def map_option_eq_Some by metis
  have "d = take (length d) (on_wire r)" using assms(2) by (metis append_eq_conv_conj prefix_def)
  then show ?thesis using find_sub_take [OF i(1), of "length d"] i(2)
    by (simp add: find_header_end_def)
qed

lemma chunked_end_prefix:
  assumes "[] \<notin> set ps" and "find_chunked_body_end (chunked_body ps) = Some (length (chunked_body ps))"
    and "k < length (chunked_body ps)"
  shows "find_chunked_body_end (take k (chunked_body ps)) = None"
proof (cases ps)
  case Nil
  then have b: "chunked_body ps = ''0'' @ crlf @ crlf" by (simp add: chunked_body_eq)
  have "k < 5" using assms(3) by (simp add: b crlf_def)
  then have "k = 0 \<or> k = 1 \<or> k = 2 \<or> k = 3 \<or> k = 4" by auto
  then show ?thesis unfolding b by (elim disjE) (simp; code_simp)+
next
  case (Cons p qs)
  then have "hd (show_hex (length p)) \<noteq> CHR ''0''" using assms(1) by (intro hd_show_hex) auto
  then have np: "\<not> prefix (''0'' @ crlf @ crlf) (chunked_body ps)"
    using Cons by (cases "show_hex (length p)") (auto simp: chunked_body_eq chunk_of_eq)
  then obtain pos where pos: "find_sub chunk_terminator (chunked_body ps) = Some pos"
    "pos + length chunk_terminator = length (chunked_body ps)"
    using assms(2) by (auto simp: find_chunked_body_end_def split: option.splits if_splits)
  have "\<not> prefix (''0'' @ crlf @ crlf) (take k (chunked_body ps))"
    using np by (meson prefix_order.trans take_is_prefix)
  then show ?thesis
    using find_sub_take [OF pos(1), of k] pos(2) assms(3) by (simp add: find_chunked_body_end_def)
qed


section \<open>Receiving one request\<close>

text \<open>The state in which the task waits after a proper prefix \<open>d\<close> of a request.\<close>

definition is_sized :: "client_request \<Rightarrow> bool" where
  "is_sized r = (case r of Sized _ _ \<Rightarrow> True | Chunked _ _ \<Rightarrow> False)"

definition request_framing :: "client_request \<Rightarrow> nat \<Rightarrow> http_framing_state" where
  "request_framing r n =
     framing_default\<lparr>header_done := True, body_start := length (header_block (wire_head r)),
       content_length := (if is_sized r then Some (length (wire_body r)) else None), is_chunked := \<not> is_sized r,
       forwarded := n\<rparr>"

definition received :: "client_request \<Rightarrow> c2u_state \<Rightarrow> bytes \<Rightarrow> c2u_state" where
  "received r s d =
     (if length d < length (header_block (wire_head r)) then s\<lparr>rq_raw := d\<rparr>
      else s\<lparr>rq_raw := d, framing := request_framing r (if is_sized r then length d else 0),
             sent_up := sent_up s @ (if is_sized r then d else [])\<rparr>)"

definition idle :: "c2u_state \<Rightarrow> bool" where
  "idle s \<longleftrightarrow> rq_raw s = [] \<and> framing s = framing_default"

lemma parse_request_headers:
  assumes "request_ok r" and "take (length (header_block (wire_head r))) d = header_block (wire_head r)"
  shows "parse_headers d (length (header_block (wire_head r))) framing_default = request_framing r 0"
  using assms
  by (cases r) (simp_all add: parse_headers_def Let_def request_framing_def request_ok_def is_sized_def framing_default_def)

lemma take_head:
  assumes "prefix d (on_wire r)" and "length (header_block (wire_head r)) \<le> length d"
  shows "take (length (header_block (wire_head r))) d = header_block (wire_head r)"
proof -
  have "prefix (header_block (wire_head r)) d"
    using assms by (metis on_wire_def prefixI prefix_length_prefix)
  then show ?thesis by (metis append_eq_conv_conj prefix_def)
qed

lemma turn_received:
  assumes ok: "request_ok r" and i: "idle s" and p: "prefix (d @ c) (on_wire r)"
  shows "passthrough_turn env False ((received r s d)\<lparr>rq_raw := d @ c\<rparr>) =
    (if length (d @ c) < length (header_block (wire_head r)) then Done (Next (received r s (d @ c)))
     else finish_request env False (received r s (d @ c)))"
proof -
  let ?h = "length (header_block (wire_head r))"
  note fe = header_end_prefix [OF ok p]
  have [simp]: "framing s = framing_default" "\<not> header_done framing_default" "forwarded framing_default = 0"
    using i by (simp_all add: idle_def framing_default_def)
  show ?thesis
  proof (cases "length (d @ c) < ?h")
    case True
    then show ?thesis using fe by (simp add: turn_cases received_def)
  next
    case False
    then have ph: "parse_headers (d @ c) ?h framing_default = request_framing r 0"
      by (intro parse_request_headers [OF ok] take_head [OF p]) simp
    show ?thesis
      using False fe ph
      by (auto simp: turn_cases received_def and_next_def forward_rest_def slice_from_ok upstream_write_def
          request_framing_def Let_def intro!: arg_cong [where f = "finish_request env False"] c2u_state.equality)
  qed
qed

text \<open>Nothing is left to do until the request is complete; then it is logged and the task is idle again.\<close>

lemma needs_more_received:
  assumes ok: "request_ok r" and i: "idle s" and p: "prefix d (on_wire r)" and l: "length d < length (on_wire r)"
  shows "needs_more (received r s d) = Done True"
    and "\<not> length d < length (header_block (wire_head r)) \<Longrightarrow> finish_request env False (received r s d) = Done (Next (received r s d))"
proof -
  let ?h = "length (header_block (wire_head r))"
  have small: "length (on_wire r) < 2 ^ 64" using ok by (simp add: request_ok_def usize_max_def)
  have fr: "framing s = framing_default" using i by (simp add: idle_def)
  have d: "d = take (length d) (on_wire r)" using p by (metis append_eq_conv_conj prefix_def)
  have u: "usize_add ?h (length (wire_body r)) = length (on_wire r)"
    using small by (simp add: usize_add_def on_wire_def)
  have c: "find_chunked_body_end (drop ?h d) = None" if nz: "\<not> is_sized r" and hd: "?h \<le> length d"
  proof -
    obtain ls ps where r: "r = Chunked ls ps" using nz by (cases r) (auto simp: is_sized_def)
    have "drop ?h d = take (length d - ?h) (chunked_body ps)"
      using hd by (subst d) (simp add: on_wire_def r drop_take min_def)
    moreover have "length d - ?h < length (chunked_body ps)" using l hd by (simp add: on_wire_def r)
    ultimately show ?thesis using chunked_end_prefix [of ps] ok by (simp add: r request_ok_def)
  qed
  show "needs_more (received r s d) = Done True"
    using header_end_prefix [OF ok p] l u c fr
    by (auto simp: needs_more_def received_def request_framing_def framing_default_def slice_from_ok Let_def)
  show "\<not> length d < ?h \<Longrightarrow> finish_request env False (received r s d) = Done (Next (received r s d))"
    using l u c
    by (auto simp: finish_request_def received_def request_framing_def finish_content_length_def finish_chunked_def
        slice_from_ok Let_def)
qed

lemma finish_received:
  assumes ok: "request_ok r"
  shows "\<exists>s'. finish_request env False (received r s (on_wire r)) = Done (Next s') \<and> idle s' \<and>
     sent_up s' = sent_up s @ as_forwarded r"
proof -
  let ?h = "length (header_block (wire_head r))"
  have small: "length (on_wire r) < 2 ^ 64" using ok by (simp add: request_ok_def usize_max_def)
  show ?thesis
  proof (cases r)
    case (Sized ls body)
    then show ?thesis using small
      by (simp add: finish_request_def received_def request_framing_def is_sized_def finish_content_length_def
          usize_add_def slice_def on_wire_def idle_def)
  next
    case (Chunked ls ps)
    have "length (chunked_body ps) \<le> usize_max" using ok by (simp add: request_ok_def Chunked on_wire_def)
    then have "decode_chunked_body (chunked_body ps) = Done (Some (concat ps))"
      using decode_chunks [of ps "[]" "[]"] ok by (auto simp: decode_chunked_body_def request_ok_def Chunked)
    then show ?thesis using ok
      by (simp add: finish_request_def received_def request_framing_def is_sized_def finish_chunked_def Chunked
          slice_from_ok on_wire_def idle_def upstream_write_def request_ok_def Let_def)
  qed
qed

lemma read_received:
  assumes ok: "request_ok r" and i: "idle s" and p: "prefix (d @ c) (on_wire r)"
    and l: "length (d @ c) < length (on_wire r)"
  shows "passthrough_read env (c, False) (received r s d) = Some (Done (Next (received r s (d @ c))))"
proof -
  have "rq_raw (received r s d) = d" by (simp add: received_def)
  moreover have "passthrough_turn env False ((received r s d)\<lparr>rq_raw := d @ c\<rparr>) = Done (Next (received r s (d @ c)))"
    unfolding turn_received [OF ok i p] using needs_more_received(2) [OF ok i p l] by auto
  moreover have "passthrough_turns env False n (received r s (d @ c)) = Some (Done (Next (received r s (d @ c))))" for n
    using needs_more_received(1) [OF ok i p l] by (subst passthrough_turns.simps) simp
  ultimately show ?thesis by (simp add: passthrough_read_def)
qed

lemma read_complete:
  assumes ok: "request_ok r" and i: "idle s" and p: "d @ c = on_wire r"
  shows "\<exists>s'. passthrough_read env (c, False) (received r s d) = Some (Done (Next s')) \<and> idle s' \<and>
     sent_up s' = sent_up s @ as_forwarded r"
proof -
  obtain s' where s': "finish_request env False (received r s (on_wire r)) = Done (Next s')" "idle s'"
    "sent_up s' = sent_up s @ as_forwarded r" using finish_received [OF ok] by blast
  have "passthrough_turn env False ((received r s d)\<lparr>rq_raw := d @ c\<rparr>) = Done (Next s')"
    using turn_received [OF ok i, of d c env] s'(1) by (simp add: p on_wire_def)
  moreover have "find_header_end [] = None" by (simp add: find_header_end_def)
  then have "passthrough_turns env False n s' = Some (Done (Next s'))" for n
    using s'(2) by (subst passthrough_turns.simps) (simp add: needs_more_def idle_def framing_default_def)
  moreover have "rq_raw (received r s d) = d" by (simp add: received_def)
  ultimately show ?thesis using s' by (simp add: passthrough_read_def)
qed

abbreviation alive :: "bytes list \<Rightarrow> (bytes \<times> bool) list" where
  "alive cs \<equiv> map (\<lambda>c. (c, False)) cs"

lemma reads_request:
  assumes "request_ok r" and "idle s" and "d @ concat cs = on_wire r" and "[] \<notin> set cs" and "cs \<noteq> []"
  shows "\<exists>s'. passthrough_reads env (alive cs) (received r s d) = Some (Done (Next s')) \<and> idle s' \<and>
     sent_up s' = sent_up s @ as_forwarded r"
  using assms(3-5)
proof (induction cs arbitrary: d)
  case (Cons c cs)
  show ?case
  proof (cases "cs = []")
    case True
    then obtain s' where "passthrough_read env (c, False) (received r s d) = Some (Done (Next s'))" "idle s'"
      "sent_up s' = sent_up s @ as_forwarded r"
      using read_complete [OF assms(1,2), of d c env] Cons.prems by auto
    then show ?thesis using True by simp
  next
    case False
    then obtain c' cs' where cs: "cs = c' # cs'" by (cases cs) auto
    have "prefix (d @ c) (on_wire r)" "length (d @ c) < length (on_wire r)"
      using Cons.prems by (auto simp: cs simp flip: Cons.prems(1))
    from read_received [OF assms(1,2) this, where env = env] Cons.IH [of "d @ c"] Cons.prems False show ?thesis by simp
  qed
qed simp

lemma received_Nil: "idle s \<Longrightarrow> received r s [] = s"
  by (auto simp: received_def idle_def header_block_def crlf_def)


lemma reads_append:
  "passthrough_reads env (rs @ rs') s =
     (case passthrough_reads env rs s of Some (Done (Next s1)) \<Rightarrow> passthrough_reads env rs' s1 | m \<Rightarrow> m)"
  by (induction rs arbitrary: s) (auto split: option.split outcome.split flow.split)

lemma reads_requests:
  assumes "list_all (\<lambda>(r, cs). request_ok r \<and> concat cs = on_wire r \<and> [] \<notin> set cs) xs" and "idle s"
  shows "\<exists>s'. passthrough_reads env (alive (concat (map snd xs))) s = Some (Done (Next s')) \<and> idle s' \<and>
     sent_up s' = sent_up s @ concat (map (\<lambda>x. as_forwarded (fst x)) xs)"
  using assms
proof (induction xs arbitrary: s)
  case (Cons x xs)
  obtain r cs where x: "x = (r, cs)" by fastforce
  with Cons.prems have r: "request_ok r" "[] @ concat cs = on_wire r" "[] \<notin> set cs" by auto
  moreover from r have "cs \<noteq> []" by (auto simp: on_wire_def header_block_def crlf_def)
  ultimately obtain s1 where s1: "passthrough_reads env (alive cs) s = Some (Done (Next s1))" "idle s1"
    "sent_up s1 = sent_up s @ as_forwarded r"
    using reads_request [of r s "[]" cs env] Cons.prems(2) received_Nil [OF Cons.prems(2), of r] by metis
  have "list_all (\<lambda>(r, cs). request_ok r \<and> concat cs = on_wire r \<and> [] \<notin> set cs) xs" using Cons.prems(1) by simp
  from Cons.IH [OF this s1(2)] obtain s' where
    "passthrough_reads env (alive (concat (map snd xs))) s1 = Some (Done (Next s'))" "idle s'"
    "sent_up s' = sent_up s1 @ concat (map (\<lambda>x. as_forwarded (fst x)) xs)" by blast
  then show ?case using s1 by (simp add: x reads_append)
qed simp

section \<open>Properties\<close>

text \<open>
  C30. The forwarding loop always comes back to its next read or ends: the turns between two reads
  are bounded by twice the size of the buffer, for every sequence of bytes a client can send.
\<close>

theorem passthrough_returns:
  "handle_c2u_passthrough env reads (c2u_init st reg) \<noteq> None"
proof -
  have "frame_ok (c2u_init st reg)" by (simp add: frame_ok_def c2u_init_def framing_default_def)
  from reads_return [OF this, where env = env and rds = reads] show ?thesis
    by (auto simp: handle_c2u_passthrough_def split: option.splits outcome.splits flow.splits)
qed


lemma turn_from_idle:
  assumes "request_ok r" and "framing s = framing_default" and "rq_raw s = on_wire r"
  shows "\<exists>s'. passthrough_turn env False s = Done (Next s') \<and> idle s' \<and> sent_up s' = sent_up s @ as_forwarded r"
proof -
  let ?s = "s\<lparr>rq_raw := []\<rparr>"
  have i: "idle ?s" using assms(2) by (simp add: idle_def)
  have "(received r ?s [])\<lparr>rq_raw := [] @ on_wire r\<rparr> = s"
    using received_Nil [OF i, of r] assms(3) by simp
  then show ?thesis
    using turn_received [OF assms(1) i, of "[]" "on_wire r" env] finish_received [OF assms(1), of env ?s]
    by (simp add: on_wire_def)
qed

lemma turns_idle: "idle s \<Longrightarrow> passthrough_turns env gone n s = Some (Done (Next s))"
  by (subst passthrough_turns.simps) (simp add: needs_more_def idle_def framing_default_def find_header_end_def)

text \<open>
  C37. A request that arrives in the same read as the end of the one before it is forwarded twice:
  once with the bytes of the first request, and once more when its own turn comes.
\<close>

theorem pipelined_request_sent_twice:
  assumes "request_ok (Sized ls body)" and "request_ok r" and "idle s"
  shows "\<exists>s'. passthrough_read env (on_wire (Sized ls body) @ on_wire r, False) s = Some (Done (Next s')) \<and>
     sent_up s' = sent_up s @ on_wire (Sized ls body) @ on_wire r @ as_forwarded r"
proof -
  let ?r1 = "Sized ls body" and ?w = "on_wire (Sized ls body) @ on_wire r" and ?h = "length (header_block ls)"
  have fr: "framing s = framing_default" "rq_raw s = []" using assms(3) by (simp_all add: idle_def)
  have fe: "find_header_end ?w = Some ?h"
    using request_okD [OF assms(1)] by (auto simp: find_header_end_def find_sub_append_Some)
  have ph: "parse_headers ?w ?h framing_default = request_framing ?r1 0"
    using parse_request_headers [OF assms(1), of ?w] by (simp add: on_wire_def)
  have small: "length (on_wire ?r1) < 2 ^ 64" using assms(1) by (simp add: request_ok_def usize_max_def)
  obtain s1 where s1: "passthrough_turn env False (s\<lparr>rq_raw := ?w\<rparr>) = Done (Next s1)"
    "framing s1 = framing_default" "rq_raw s1 = on_wire r" "sent_up s1 = sent_up s @ ?w"
    using fr fe ph small
    by (auto simp: turn_cases and_next_def forward_rest_def slice_from_ok upstream_write_def request_framing_def
        finish_request_def finish_content_length_def is_sized_def usize_add_def slice_def framing_default_def
        on_wire_def Let_def)
  obtain s2 where s2: "passthrough_turn env False s1 = Done (Next s2)" "idle s2" "sent_up s2 = sent_up s1 @ as_forwarded r"
    using turn_from_idle [OF assms(2) s1(2,3), where env = env] by blast
  have "needs_more s1 = Done False"
    using request_okD [OF assms(2)] s1(2,3) by (simp add: needs_more_def framing_default_def)
  then have "passthrough_turns env False (passthrough_fuel s1) s1 = Some (Done (Next s2))"
    using s2(1) turns_idle [OF s2(2)]
    by (subst passthrough_turns.simps) (simp add: passthrough_fuel_def)
  then show ?thesis using s1 s2 fr by (simp add: passthrough_read_def)
qed

text \<open>
  A content length that, added to the length of the headers, passes the range of a 64-bit
  integer makes the task panic: the sum wraps to a position before the body.
\<close>

theorem content_length_overflow_panics:
  assumes "list_all header_line ls" and "ls \<noteq> []" and "idle s"
    and "parse_content_length (header_block ls) = Some cl" and "cl < 2 ^ 64"
    and "2 ^ 64 \<le> length (header_block ls) + cl"
  shows "passthrough_read env (header_block ls, False) s = Some Panic"
proof -
  let ?h = "length (header_block ls)"
  have fr: "framing s = framing_default" "rq_raw s = []" using assms(3) by (simp_all add: idle_def)
  have fe: "find_header_end (header_block ls) = Some ?h" using find_header_end_block [OF assms(1,2), of "[]"] by simp
  have w: "usize_add ?h cl < ?h"
  proof (cases "?h + cl < 2 * 2 ^ 64")
    case True
    then have "usize_add ?h cl = ?h + cl - 2 ^ 64" using assms(6) by (simp add: usize_add_def le_mod_geq)
    then show ?thesis using assms(5,6) by linarith
  next
    case False
    then have "2 ^ 64 \<le> ?h" using assms(5) by simp
    moreover have "usize_add ?h cl < 2 ^ 64" by (simp add: usize_add_def)
    ultimately show ?thesis by linarith
  qed
  then have "\<not> length (header_block ls) < usize_add ?h cl" "slice (header_block ls) ?h (usize_add ?h cl) = Panic"
    by (auto simp: slice_def)
  then have "passthrough_turn env False (s\<lparr>rq_raw := header_block ls\<rparr>) = Panic"
    using fr fe assms(4)
    by (simp add: turn_cases and_next_def forward_rest_def slice_from_ok upstream_write_def
        finish_request_def finish_content_length_def framing_default_def parse_headers_def Let_def)
  then show ?thesis using fr by (simp add: passthrough_read_def)
qed


section \<open>PII mode\<close>

lemma request_vault_frame:
  "request_vault env c p s = Done (h, s') \<Longrightarrow>
   rq_raw s' = rq_raw s \<and> framing s' = framing s \<and> sent_up s' = sent_up s"
  by (auto simp: request_vault_def and_then_Done_iff case_prod_unfold Let_def split: option.splits if_splits)

lemma run_pipeline_frame:
  "run_pipeline env h body s = Done (b, ds, s') \<Longrightarrow>
   rq_raw s' = rq_raw s \<and> framing s' = framing s \<and> sent_up s' = sent_up s"
  by (auto simp: run_pipeline_def and_then_Done_iff case_prod_unfold Let_def split: option.splits if_splits)

lemma report_detections_frame [simp]:
  "rq_raw (report_detections env c ids ds s) = rq_raw s" "framing (report_detections env c ids ds s) = framing s"
  "sent_up (report_detections env c ids ds s) = sent_up s" "registry (report_detections env c ids ds s) = registry s"
  by (simp_all add: report_detections_def Let_def split: option.split sum.split)

lemma pii_requestE:
  assumes "pii_request env gone body consumed s = Done (Next s')"
  obtains c p h s2 wb ds s3 fb where
    "request_vault env c p (snd (create_or_find_conversation env body s)) = Done (h, s2)"
    "run_pipeline env h body s2 = Done (wb, ds, s3)" "add_instruction env wb = Done fb"
    "sent_up s' = sent_up s @ rebuild_request_with_content_length (take (body_start (framing s)) (rq_raw s)) fb"
    "rq_raw s' = drop consumed (rq_raw s)" "framing s' = framing_default" "registry s' = registry s3"
    "h = None \<or> shared_vault s' = h" "c = None \<or> p = c" "rq_mode env \<noteq> None \<longrightarrow> p \<noteq> None"
proof -
  obtain c s1 where cs: "create_or_find_conversation env body s = (c, s1)" by fastforce
  define p where "p = (case c of Some c \<Rightarrow> Some c | None \<Rightarrow> (case rq_mode env of None \<Rightarrow> None
      | Some _ \<Rightarrow> Some (case shared_conv_id s1 of Some c \<Rightarrow> c | None \<Rightarrow> session_uuid env)))"
  from assms obtain h s2 wb ds s3 fb where r: "request_vault env c p s1 = Done (h, s2)"
    "run_pipeline env h body s2 = Done (wb, ds, s3)" "add_instruction env wb = Done fb"
    and s': "sent_up s' = sent_up s3 @ rebuild_request_with_content_length (take (body_start (framing s3)) (rq_raw s3)) fb"
    "rq_raw s' = drop (min consumed (length (rq_raw s3))) (rq_raw s3)" "framing s' = framing_default"
    "registry s' = registry s3" "h = None \<or> shared_vault s' = h"
    using store_request_frame [of env body] unfolding pii_request_def cs p_def
    by (auto simp: and_then_Done_iff upstream_write_def case_prod_unfold Let_def split: if_splits option.splits)
  have f: "rq_raw s3 = rq_raw s" "framing s3 = framing s" "sent_up s3 = sent_up s"
    using request_vault_frame [OF r(1)] run_pipeline_frame [OF r(2)] create_or_find_frame [of env body s] cs by auto
  show ?thesis
  proof (rule that [of c p h s2 wb ds s3 fb])
    show "request_vault env c p (snd (create_or_find_conversation env body s)) = Done (h, s2)" using r(1) cs by simp
    show "rq_raw s' = drop consumed (rq_raw s)" using s'(2) f by (cases "consumed \<le> length (rq_raw s)") auto
  qed (use r s' f in \<open>auto simp: p_def split: option.splits\<close>)
qed

definition pii_received :: "client_request \<Rightarrow> c2u_state \<Rightarrow> bytes \<Rightarrow> c2u_state" where
  "pii_received r s d =
     (if length d < length (header_block (wire_head r)) then s\<lparr>rq_raw := d\<rparr>
      else s\<lparr>rq_raw := d, framing := (request_framing r 0)
               \<lparr>body_received := length d - length (header_block (wire_head r))\<rparr>\<rparr>)"

lemma pii_read_received:
  assumes ok: "request_ok r" and i: "idle s" and p: "prefix (d @ c) (on_wire r)"
  shows "pii_read env (c, gone) (pii_received r s d) =
    and_then (pii_body_done (pii_received r s (d @ c))) (\<lambda>body_done.
      if \<not> body_done then Done (Next (pii_received r s (d @ c)))
      else and_then (pii_extract (pii_received r s (d @ c))) (\<lambda>(original_body, consumed).
             pii_request env gone original_body consumed (pii_received r s (d @ c))))"
proof -
  let ?h = "length (header_block (wire_head r))"
  have fr: "framing s = framing_default" "\<not> header_done framing_default" using i by (simp_all add: idle_def framing_default_def)
  have ph: "parse_headers (d @ c) ?h framing_default = request_framing r 0" if "?h \<le> length (d @ c)"
    using that by (intro parse_request_headers [OF ok] take_head [OF p]) simp
  have "pii_receive c (pii_received r s d) = pii_received r s (d @ c)"
    using header_end_prefix [OF ok p] fr ph
    by (auto simp: pii_received_def pii_receive_def Let_def request_framing_def intro!: c2u_state.equality)
  then show ?thesis unfolding pii_read_def Let_def prod.case by (simp only:)
qed

lemma pii_waits:
  assumes ok: "request_ok r" and i: "idle s" and p: "prefix d (on_wire r)" and l: "length d < length (on_wire r)"
  shows "pii_body_done (pii_received r s d) = Done False"
proof -
  let ?h = "length (header_block (wire_head r))"
  have fr: "framing s = framing_default" using i by (simp add: idle_def)
  have d: "d = take (length d) (on_wire r)" using p by (metis append_eq_conv_conj prefix_def)
  have c: "find_chunked_body_end (drop ?h d) = None" if nz: "\<not> is_sized r" and hd: "?h \<le> length d"
  proof -
    obtain ls ps where r: "r = Chunked ls ps" using nz by (cases r) (auto simp: is_sized_def)
    have "drop ?h d = take (length d - ?h) (chunked_body ps)"
      using hd by (subst d) (simp add: on_wire_def r drop_take min_def)
    moreover have "length d - ?h < length (chunked_body ps)" using l hd by (simp add: on_wire_def r)
    ultimately show ?thesis using chunked_end_prefix [of ps] ok by (simp add: r request_ok_def)
  qed
  then show ?thesis using fr l
    by (auto simp: pii_body_done_def pii_received_def request_framing_def framing_default_def on_wire_def slice_from_ok Let_def)
qed

lemma pii_complete:
  assumes ok: "request_ok r"
  shows "pii_body_done (pii_received r s (on_wire r)) = Done True"
    and "pii_extract (pii_received r s (on_wire r)) = Done (payload r, length (on_wire r))"
proof -
  let ?h = "length (header_block (wire_head r))"
  have small: "length (on_wire r) < 2 ^ 64" using ok by (simp add: request_ok_def usize_max_def)
  have "pii_body_done (pii_received r s (on_wire r)) = Done True \<and>
        pii_extract (pii_received r s (on_wire r)) = Done (payload r, length (on_wire r))"
  proof (cases r)
    case (Sized ls body)
    then show ?thesis using small
      by (simp add: pii_body_done_def pii_extract_def pii_received_def request_framing_def is_sized_def usize_add_def
          slice_def on_wire_def Let_def)
  next
    case (Chunked ls ps)
    have "length (chunked_body ps) \<le> usize_max" using ok by (simp add: request_ok_def Chunked on_wire_def)
    then have "decode_chunked_body (chunked_body ps) = Done (Some (concat ps))"
      using decode_chunks [of ps "[]" "[]"] ok by (auto simp: decode_chunked_body_def request_ok_def Chunked)
    then show ?thesis using ok
      by (simp add: pii_body_done_def pii_extract_def pii_received_def request_framing_def is_sized_def Chunked
          slice_from_ok on_wire_def request_ok_def Let_def)
  qed
  then show "pii_body_done (pii_received r s (on_wire r)) = Done True"
    "pii_extract (pii_received r s (on_wire r)) = Done (payload r, length (on_wire r))" by auto
qed

lemma pii_reads_request:
  assumes "request_ok r" and "idle s" and "d @ concat cs = on_wire r" and "[] \<notin> set cs" and "cs \<noteq> []"
  shows "handle_c2u_pii env (alive cs) (pii_received r s d) =
     and_next (pii_request env False (payload r) (length (on_wire r)) (pii_received r s (on_wire r))) (\<lambda>s'. Done (Next s'))"
  using assms(3-5)
proof (induction cs arbitrary: d)
  case (Cons c cs)
  have p: "prefix (d @ c) (on_wire r)" using Cons.prems(1) by (metis append.assoc concat.simps(2) prefixI)
  note step = pii_read_received [OF assms(1,2) p, where env = env and gone = False]
  show ?case
  proof (cases "cs = []")
    case True
    then have w: "d @ c = on_wire r" using Cons.prems(1) by simp
    have "handle_c2u_pii env [] = (\<lambda>s'. Done (Next s'))" by (rule ext) simp
    then show ?thesis using True w step pii_complete [OF assms(1), of s] by simp
  next
    case False
    then obtain c' cs' where cs: "cs = c' # cs'" by (cases cs) auto
    then have l: "length (d @ c) < length (on_wire r)" using Cons.prems by (auto simp: cs simp flip: Cons.prems(1))
    have "pii_read env (c, False) (pii_received r s d) = Done (Next (pii_received r s (d @ c)))"
      unfolding step using pii_waits [OF assms(1,2) p l] by simp
    moreover have "handle_c2u_pii env (alive cs) (pii_received r s (d @ c)) =
        and_next (pii_request env False (payload r) (length (on_wire r)) (pii_received r s (on_wire r))) (\<lambda>s'. Done (Next s'))"
      using Cons.IH [of "d @ c"] Cons.prems False by simp
    ultimately show ?thesis by (simp add: and_next_def)
  qed
qed simp


lemma pii_received_Nil: "idle s \<Longrightarrow> pii_received r s [] = s"
  by (auto simp: pii_received_def idle_def header_block_def crlf_def)

lemma run_pipeline_vault:
  assumes "run_pipeline env (Some h) body s = Done (wb, ds, s')" and "rq_mode env = Some Replace"
  shows "\<exists>v v' r. process_request_body_async (rq_pii env) (rq_parse env) (rq_print env) (rq_provider env) v v body = Done (r, v') \<and>
    wb = (case r of Some (b, _) \<Rightarrow> b | None \<Rightarrow> body) \<and> ds = (case r of Some (_, ds) \<Rightarrow> ds | None \<Rightarrow> []) \<and>
    heap (registry s) ! h = v \<and> heap (registry s') ! h = v'"
proof -
  let ?v = "heap (registry s) ! h"
  obtain r v' where p: "process_request_body_async (rq_pii env) (rq_parse env) (rq_print env) (rq_provider env) ?v ?v body = Done (r, v')"
    and h: "h < length (heap (registry s))"
    and s': "wb = (case r of Some (b, _) \<Rightarrow> b | None \<Rightarrow> body)" "ds = (case r of Some (_, ds) \<Rightarrow> ds | None \<Rightarrow> [])"
      "s' = s\<lparr>registry := update_vault h (\<lambda>_. v') (registry s)\<rparr>"
    using assms by (fastforce simp: run_pipeline_def and_then_Done_iff case_prod_unfold Let_def index_def
        split: option.splits if_splits)
  then show ?thesis by (intro exI [of _ ?v] exI [of _ v'] exI [of _ r]) (simp add: update_vault_def)
qed


text \<open>
  C38. In PII mode a request that arrives in one read with the request before it is not
  forwarded: it stays in the buffer until the client sends more.
\<close>

theorem pii_pipelined_request_waits:
  assumes "request_ok (Sized ls body)" and "idle s"
    and "pii_read env (on_wire (Sized ls body) @ on_wire r, gone) s = Done (Next s')"
  shows "rq_raw s' = on_wire r \<and> framing s' = framing_default \<and>
    (\<exists>fb. sent_up s' = sent_up s @ rebuild_request_with_content_length (header_block ls) fb)"
proof -
  let ?r1 = "Sized ls body" and ?w = "on_wire (Sized ls body) @ on_wire r" and ?h = "length (header_block ls)"
  have fr: "framing s = framing_default" "rq_raw s = []" "\<not> header_done framing_default"
    using assms(2) by (simp_all add: idle_def framing_default_def)
  have fe: "find_header_end ?w = Some ?h"
    using request_okD [OF assms(1)] by (auto simp: find_header_end_def find_sub_append_Some)
  have ph: "parse_headers ?w ?h framing_default = request_framing ?r1 0"
    using parse_request_headers [OF assms(1), of ?w] by (simp add: on_wire_def)
  have small: "length (on_wire ?r1) < 2 ^ 64" using assms(1) by (simp add: request_ok_def usize_max_def)
  let ?s = "s\<lparr>rq_raw := ?w, framing := (request_framing ?r1 0)\<lparr>body_received := length ?w - ?h\<rparr>\<rparr>"
  have rc: "pii_receive ?w s = ?s" using fr fe ph by (simp add: pii_receive_def Let_def)
  have "pii_body_done ?s = Done True" "pii_extract ?s = Done (body, length (on_wire ?r1))"
    using small
    by (simp_all add: pii_body_done_def pii_extract_def request_framing_def is_sized_def usize_add_def slice_def
        on_wire_def Let_def)
  then have "pii_request env gone body (length (on_wire ?r1)) ?s = Done (Next s')"
    using assms(3) unfolding pii_read_def Let_def prod.case rc by simp
  then show ?thesis
  proof (rule pii_requestE)
    fix fb
    assume "sent_up s' = sent_up ?s @ rebuild_request_with_content_length (take (body_start (framing ?s)) (rq_raw ?s)) fb"
      "rq_raw s' = drop (length (on_wire ?r1)) (rq_raw ?s)" "framing s' = framing_default"
    then show ?thesis by (auto simp: request_framing_def on_wire_def)
  qed
qed

section \<open>The log of a conversation\<close>

lemma ws_events_fold: "req_ws (fold (\<lambda>m. ws_send (g m)) ms s) = req_ws s @ map g ms"
  by (induction ms arbitrary: s) (simp_all add: ws_send_def)

text \<open>The records that storing a request makes, given how many of its messages are there already.\<close>

definition new_messages ::
    "'r c2u_env \<Rightarrow> bytes \<Rightarrow> bool \<Rightarrow> message list option \<Rightarrow> nat \<Rightarrow> nat \<Rightarrow> message list \<Rightarrow> stored_message list" where
  "new_messages env cid p repl off used ms =
     map (request_message env cid p repl off used) (enumerate 0 (drop off ms))"

lemma length_new_messages [simp]: "length (new_messages env cid p repl off used ms) = length ms - off"
  by (simp add: new_messages_def)

lemma new_messages_nth:
  assumes "i < length ms - off"
  shows "new_messages env cid p repl off used ms ! i = request_message env cid p repl off used (i, ms ! (off + i))"
  using assms by (simp add: new_messages_def nth_enumerate_eq add.commute)

lemma new_messages_content: "map sm_content (new_messages env cid p repl off used ms) = map msg_content (drop off ms)"
  by (rule nth_equalityI) (simp_all add: new_messages_nth request_message_def)

lemma new_messages_request: "m \<in> set (new_messages env cid p repl off used ms) \<Longrightarrow>
    sm_direction m = ''request'' \<and> sm_conversation_id m = cid"
  by (auto simp: new_messages_def request_message_def)

lemma store_request_eq:
  assumes "parse_request (rq_parse env) (rq_print env) (rq_provider env) body = Some po"
    and "count_request_messages (rq_codec env) cid (req_store s) = (off, req_store s)"
    and "repl = obind rb (\<lambda>b. map_option messages (parse_request (rq_parse env) (rq_print env) (rq_provider env) b))"
  shows "store_request_messages env body rb p cid s =
    (let ms = new_messages env cid p repl off (uuids_used s) (messages po) in
     (map sm_id ms,
      if ms = [] then s
      else fold (\<lambda>m. ws_send (WsMessage m)) ms
             (s\<lparr>req_store := (case batch_insert_messages (rq_codec env) ms (req_store s) of
                                 Inr st \<Rightarrow> st | Inl _ \<Rightarrow> req_store s),
                uuids_used := uuids_used s + (length (messages po) - off)\<rparr>)))"
  using assms
  by (auto simp: store_request_messages_def new_messages_def enumerate_eq_zip Let_def)

lemma store_request_ws:
  assumes "parse_request (rq_parse env) (rq_print env) (rq_provider env) body = Some po"
    and "count_request_messages (rq_codec env) cid (req_store s) = (off, req_store s)"
    and "repl = obind rb (\<lambda>b. map_option messages (parse_request (rq_parse env) (rq_print env) (rq_provider env) b))"
  shows "req_ws (snd (store_request_messages env body rb p cid s)) =
    req_ws s @ map WsMessage (new_messages env cid p repl off (uuids_used s) (messages po))"
  unfolding store_request_eq [OF assms] by (simp add: ws_events_fold Let_def)

definition request_log :: "log_record list \<Rightarrow> stored_message list" where
  "request_log xs = filter (\<lambda>m. sm_direction m = ''request'') (log_messages xs)"

lemma request_log_append:
  "\<forall>m\<in>set ms. sm_direction m = ''request'' \<Longrightarrow> request_log (xs @ map Msg_Rec ms) = request_log xs @ ms"
  by (simp add: request_log_def log_messages_append log_messages_Msg filter_id_conv)



text \<open>
  What a stored message says was forwarded in its place is off by one. When the instruction
  is added to a request that had no system prompt, the forwarded body has one message more than the
  original; the records pair messages by position, so the first one is paired with the instruction
  and each later one with the masked text of its predecessor.
\<close>

theorem masked_content_shifted:
  assumes "rq_provider env = Anthropic" and "utf8_valid working" and "rq_parse env working = Some w"
    and "jget w ''system'' = None"
    and "inject_system_instruction_into_body env working = Done (Some fb)"
    and "\<And>x. rq_print env x = Some fb \<Longrightarrow> rq_parse env fb = Some x"
    and "parse_request (rq_parse env) (rq_print env) Anthropic working = Some pw"
    and "parse_request (rq_parse env) (rq_print env) Anthropic original = Some po"
    and "count_request_messages (rq_codec env) cid (req_store s) = (0, req_store s)"
  shows "\<exists>ms. req_ws (snd (store_request_messages env original (Some fb) True cid s)) = req_ws s @ map WsMessage ms \<and>
    map sm_content ms = map msg_content (messages po) \<and>
    (\<forall>i < length ms. sm_content_masked (ms ! i) =
       (case i of 0 \<Rightarrow> Some reminder_element | Suc j \<Rightarrow> map_option msg_content (get_at (messages pw) j)))"
proof -
  obtain w' where a: "json_assign w ''system'' (JStr reminder_element) = Done w'" and "rq_print env w' = Some fb"
    using assms(1-5) by (auto simp: inject_system_instruction_into_body_def inject_system_instruction_def and_then_Done_iff)
  then have pf: "rq_parse env fb = Some w'" using assms(6) by blast
  note g = jget_assign [OF a]
  have "get_str w' ''system'' = Some reminder_element" "get_str w ''system'' = None"
    "jget w' ''model'' = jget w ''model''" "get_array w' ''messages'' = get_array w ''messages''"
    using assms(4) by (simp_all add: get_str_def get_array_def g)
  then have pr: "map_option messages (parse_request (rq_parse env) (rq_print env) Anthropic fb) =
      Some (\<lparr>role = ''system'', msg_content = reminder_element\<rparr> # messages pw)"
    using assms(3,7) pf by (auto simp: anthropic_parse_request_def obind_Some_iff Let_def)
  let ?repl = "Some (\<lparr>role = ''system'', msg_content = reminder_element\<rparr> # messages pw)"
  let ?ms = "new_messages env cid True ?repl 0 (uuids_used s) (messages po)"
  have po: "parse_request (rq_parse env) (rq_print env) (rq_provider env) original = Some po" using assms(1,8) by simp
  have "?repl = obind (Some fb) (\<lambda>b. map_option messages (parse_request (rq_parse env) (rq_print env) (rq_provider env) b))"
    using pr assms(1) by (simp only: obind_simps)
  from store_request_ws [OF po assms(9) this, of True]
  have "req_ws (snd (store_request_messages env original (Some fb) True cid s)) = req_ws s @ map WsMessage ?ms" .
  moreover have "sm_content_masked (?ms ! i) =
      (case i of 0 \<Rightarrow> Some reminder_element | Suc j \<Rightarrow> map_option msg_content (get_at (messages pw) j))" if "i < length ?ms" for i
    using that by (simp add: new_messages_nth request_message_def split: nat.split)
  ultimately show ?thesis using new_messages_content [of env cid True ?repl 0 "uuids_used s" "messages po"]
    by (intro exI [of _ ?ms]) simp
qed

lemma find_fingerprint_append:
  "find_fingerprint C day prov fp st (ns @ ns') =
     (case find_fingerprint C day prov fp st ns of Some x \<Rightarrow> Some x | None \<Rightarrow> find_fingerprint C day prov fp st ns')"
  by (induction ns) (auto split: sum.split)

lemma find_fingerprint_cong:
  "(\<And>n. n \<in> set ns \<Longrightarrow> read_conv_header C st n = read_conv_header C st' n) \<Longrightarrow>
   find_fingerprint C day prov fp st ns = find_fingerprint C day prov fp st' ns"
  by (induction ns) (auto split: sum.split)

lemma new_path_names:
  "prefix (today now) (new_conv_file_path now cid)" "suffix ''.ndjson'' (new_conv_file_path now cid)"
  by (auto simp: new_conv_file_path_def suffix_def)

lemma header_of_new:
  assumes "header_ok C c"
  shows "read_conv_header C (insert_conversation C now c st) (new_conv_file_path now (cv_id c)) = Inr c"
proof -
  have "LF \<notin> set (conv_line C c)" "utf8_valid (conv_line C c @ [LF])"
    using assms by (simp_all add: header_ok_def text_line_def Let_def utf8_valid_append utf8_valid_ascii_Cons byte_def)
  then show ?thesis using assms split_incl_line [of "conv_line C c" "[]"]
    by (simp add: read_conv_header_def insert_conversation_def Let_def hm.get_put header_ok_def)
qed

lemma inserted_found:
  assumes "header_ok C c" and "hm_get (files st) (new_conv_file_path now (cv_id c)) = None"
    and "find_fingerprint C (today now) (cv_provider c) fp st (map fst (files st)) = None" and "client_hint c = Some fp"
  shows "find_fingerprint C (today now) (cv_provider c) fp (insert_conversation C now c st)
           (map fst (files (insert_conversation C now c st))) = Some (cv_id c)"
proof -
  let ?p = "new_conv_file_path now (cv_id c)" and ?st = "insert_conversation C now c st"
  have fresh: "?p \<notin> fst ` set (files st)" using assms(2) by (auto simp: hm_get_def map_of_eq_None_iff)
  have "map fst (files ?st) = map fst (files st) @ [?p]"
    using fresh by (simp add: insert_conversation_def Let_def hm_insert_def update_keys)
  moreover have "read_conv_header C ?st n = read_conv_header C st n" if "n \<in> set (map fst (files st))" for n
  proof -
    have "n \<noteq> ?p" using that fresh by (metis list.set_map)
    then show ?thesis by (simp add: read_conv_header_def insert_conversation_def Let_def hm.get_put)
  qed
  then have "find_fingerprint C (today now) (cv_provider c) fp ?st (map fst (files st)) = None"
    using assms(3) find_fingerprint_cong [of "map fst (files st)" C ?st st] by metis
  moreover have "find_fingerprint C (today now) (cv_provider c) fp ?st [?p] = Some (cv_id c)"
    using new_path_names [of now "cv_id c"] header_of_new [OF assms(1), of now st] assms(4) by simp
  ultimately show ?thesis by (simp add: find_fingerprint_append)
qed

text \<open>
  A conversation is recognised by its first message alone. After a request has opened one,
  any request of the day that starts with the same message, the same system prompt say, is taken
  for a continuation of it, whatever follows.
\<close>

theorem same_first_message_same_conversation:
  assumes "parse_request (rq_parse env) (rq_print env) (rq_provider env) body1 = Some p1"
    and "parse_request (rq_parse env) (rq_print env) (rq_provider env) body2 = Some p2"
    and "messages p1 = m # ms1" and "messages p2 = m # ms2"
    and "fst (create_or_find_conversation env body1 s) = Some cid"
    and "header_ok (rq_codec env) \<lparr>cv_id = rq_uuid env (uuids_used s), started_at = rq_timestamp env,
      cv_provider = provider_as_str (rq_provider env), cv_model = Some (model p1),
      client_hint = Some (conversation_fingerprint (rq_sha1 env) (m # ms1))\<rparr>"
    and "hm_get (files (req_store s)) (new_conv_file_path (rq_clock env) (rq_uuid env (uuids_used s))) = None"
  shows "fst (create_or_find_conversation env body2 (snd (create_or_find_conversation env body1 s))) = Some cid"
proof -
  let ?fp = "conversation_fingerprint (rq_sha1 env) (m # ms1)" and ?prov = "provider_as_str (rq_provider env)"
  have fp: "conversation_fingerprint (rq_sha1 env) (m # ms2) = ?fp" by (simp add: conversation_fingerprint_def)
  let ?find = "find_conversation_by_fingerprint (rq_codec env) (rq_clock env) ?prov ?fp"
  show ?thesis
  proof (cases "?find (req_store s)")
    case Panic
    then show ?thesis using assms(1,3,5) by (simp add: create_or_find_conversation_def Let_def)
  next
    case (Done found)
    show ?thesis
    proof (cases found)
      case (Some x)
      then show ?thesis using assms(1-5) Done fp by (simp add: create_or_find_conversation_def Let_def)
    next
      case None
      let ?c = "\<lparr>cv_id = rq_uuid env (uuids_used s), started_at = rq_timestamp env, cv_provider = ?prov,
        cv_model = Some (model p1), client_hint = Some ?fp\<rparr>"
      have nf: "find_fingerprint (rq_codec env) (today (rq_clock env)) ?prov ?fp (req_store s) (map fst (files (req_store s))) = None"
        and sl: "str_slice ?fp 0 (min (length ?fp) 8) \<noteq> Panic"
        using Done None by (cases "str_slice ?fp 0 (min (length ?fp) 8)"; simp add: find_conversation_by_fingerprint_def)+
      have "?find (insert_conversation (rq_codec env) (rq_clock env) ?c (req_store s)) = Done (Some (cv_id ?c))"
        using inserted_found [of "rq_codec env" ?c "req_store s" "rq_clock env" ?fp] assms(6,7) nf sl
        by (cases "str_slice ?fp 0 (min (length ?fp) 8)") (simp_all add: find_conversation_by_fingerprint_def)
      then show ?thesis using assms(1-5) Done None fp
        by (simp add: create_or_find_conversation_def Let_def ws_send_def)
    qed
  qed
qed

section \<open>Witnesses\<close>

definition sample_head :: "nat \<Rightarrow> bytes list" where
  "sample_head n = [''POST / HTTP/1.1'', ''Content-Length: '' @ show_nat n]"

definition sample_request :: client_request where
  "sample_request = Sized (sample_head 1) ''A''"

lemma sample_head_lines: "list_all header_line (sample_head n)"
  using rebuilt_lines_ok(1) [of n] by (simp add: sample_head_def header_line_def ascii_literal byte_def)

lemma sample_head_length:
  assumes "n \<le> usize_max"
  shows "parse_content_length (header_block (sample_head n)) = Some n"
proof -
  have "\<not> drops_header ''POST / HTTP/1.1''" by code_simp
  then have "content_length_line (str_lines (header_block (sample_head n))) = Some n"
    using rebuilt_content_length [OF assms, of "[[]]"]
      content_length_skip [of "[''POST / HTTP/1.1'']" "[''Content-Length: '' @ show_nat n, []]"]
    unfolding str_lines_block [OF sample_head_lines] by (simp add: sample_head_def)
  then show ?thesis
    unfolding parse_content_length_def using header_block_utf8 [OF sample_head_lines [of n]] by (simp only: if_True)
qed

lemma length_show_1: "length (show_nat 1) = 1"
  by code_simp

lemma sample_request_ok: "request_ok sample_request"
proof -
  have "parse_content_length (header_block (sample_head 1)) = Some 1"
    by (rule sample_head_length) (simp add: usize_max_def)
  moreover have "length (on_wire sample_request) = 39"
    by (simp add: sample_request_def on_wire_def header_block_def sample_head_def crlf_def length_show_1 [simplified])
  ultimately show ?thesis using sample_head_lines [of 1]
    by (simp add: request_ok_def sample_request_def usize_max_def) (simp add: sample_head_def)
qed


definition user_msg :: "bytes \<Rightarrow> json" where
  "user_msg t = JObj [(''content'', JStr t), (''role'', JStr ''user'')]"

definition body_json :: "json list \<Rightarrow> json" where
  "body_json ms = JObj [(''messages'', JArr ms), (''model'', JStr ''m'')]"

definition injected_json :: json where
  "injected_json =
     JObj [(''messages'', JArr [user_msg ''x'']), (''model'', JStr ''m''), (''system'', JStr reminder_element)]"

text \<open>A library that knows three bodies, and a codec that knows their conversation and message.\<close>

definition toy_parse :: json_parser where
  "toy_parse s =
     (if s = ''A'' then Some (body_json [user_msg ''x''])
      else if s = ''B'' then Some injected_json
      else if s = ''C'' then Some (body_json [user_msg ''x'', user_msg ''y'']) else None)"

definition toy_print :: json_printer where
  "toy_print v = (if v = injected_json then Some ''B'' else Some ''Z'')"

definition opened_conv :: conversation where
  "opened_conv = \<lparr>cv_id = ''a'', started_at = ''t'', cv_provider = ''anthropic'', cv_model = Some ''m'',
     client_hint = Some (conversation_fingerprint zero_hash [\<lparr>role = ''user'', msg_content = ''x''\<rparr>])\<rparr>"

definition logged_msg :: stored_message where
  "logged_msg = \<lparr>sm_id = ''a'', sm_conversation_id = ''a'', sm_timestamp = ''t'', sm_direction = ''request'',
     sm_role = Some ''user'', sm_content = ''x'', sm_tokens_in = None, sm_tokens_out = None,
     sm_content_masked = None, sm_pii_processed = Some False\<rparr>"

definition log_codec :: codec where
  "log_codec = sample_codec\<lparr>conv_of := (\<lambda>l. if l = ''c'' then Some opened_conv else None),
     msg_of := (\<lambda>l. if l = ''mx'' then Some logged_msg else None)\<rparr>"

definition sample_c2u :: "pii_mode option \<Rightarrow> nat c2u_env" where
  "sample_c2u mode = \<lparr>rq_provider = Anthropic, rq_mode = mode, rq_pii = sample_env, rq_parse = toy_parse,
     rq_print = toy_print, rq_codec = log_codec, rq_clock = sample_clock ''1'', rq_timestamp = ''t'',
     rq_uuid = (\<lambda>_. ''a''), rq_uppercase = (\<lambda>t. t), rq_sha1 = zero_hash, rq_ticks = 0, session_uuid = ''s''\<rparr>"

definition fresh_c2u :: c2u_state where
  "fresh_c2u = c2u_init (store_open []) (registry_new 1)"

lemma fresh_idle: "idle fresh_c2u"
  by (simp add: fresh_c2u_def idle_def c2u_init_def)


theorem pipelined_request_sent_twice_witness:
  "\<exists>s'. passthrough_read (sample_c2u None) (on_wire sample_request @ on_wire sample_request, False) fresh_c2u
      = Some (Done (Next s')) \<and>
    sent_up s' = on_wire sample_request @ on_wire sample_request @ on_wire sample_request"
proof -
  have "as_forwarded sample_request = on_wire sample_request" by (simp add: sample_request_def on_wire_def)
  moreover have "sent_up fresh_c2u = []" by (simp add: fresh_c2u_def c2u_init_def)
  ultimately show ?thesis
    using pipelined_request_sent_twice [OF sample_request_ok [unfolded sample_request_def] sample_request_ok fresh_idle,
        where env = "sample_c2u None"] unfolding sample_request_def [symmetric] by simp
qed

theorem content_length_overflow_panics_witness:
  "passthrough_read (sample_c2u None) (header_block (sample_head usize_max), False) fresh_c2u = Some Panic"
proof (rule content_length_overflow_panics [OF sample_head_lines _ fresh_idle sample_head_length])
  show "2 ^ 64 \<le> length (header_block (sample_head usize_max)) + usize_max"
    by (simp add: header_block_def sample_head_def usize_max_def)
qed (simp_all add: sample_head_def usize_max_def)


lemma toy_requests:
  "parse_request toy_parse toy_print Anthropic ''A'' = Some \<lparr>model = ''m'', messages = [\<lparr>role = ''user'', msg_content = ''x''\<rparr>]\<rparr>"
  "parse_request toy_parse toy_print Anthropic ''C'' =
     Some \<lparr>model = ''m'', messages = [\<lparr>role = ''user'', msg_content = ''x''\<rparr>, \<lparr>role = ''user'', msg_content = ''y''\<rparr>]\<rparr>"
  by code_simp+

lemma toy_inject: "inject_system_instruction_into_body (sample_c2u mode) ''A'' = Done (Some ''B'')"
proof -
  have "utf8_valid ''A''" by code_simp
  moreover have "toy_parse ''A'' = Some (body_json [user_msg ''x''])" by (simp add: toy_parse_def)
  moreover have "inject_system_instruction (body_json [user_msg ''x'']) Anthropic = Done (injected_json, True)"
    by (simp add: inject_system_instruction_def body_json_def injected_json_def byte_def)
  ultimately show ?thesis by (simp add: inject_system_instruction_into_body_def sample_c2u_def toy_print_def)
qed

lemma toy_scan: "process_request_body_async sample_env toy_parse toy_print Anthropic v v ''A'' = Done (None, v)"
proof -
  have "scan_patterns (\<lambda>_ _. []) t ps out = out" for t ps out
    by (induction ps arbitrary: out) (simp_all add: find_all_def List.map_filter_simps)
  then have "detect (\<lambda>_ _. []) t loc = []" for t loc by (simp add: detect_def)
  then have "scan_entry sample_env c v ''x'' = Done None" for c
    by (simp add: scan_entry_def sample_env_def detect_spans_def merge_spans_def by_confidence_def
        detect_spans_with_exclusions_def)
  moreover have "collect_message_texts (body_json [user_msg ''x'']) ''messages'' =
      [\<lparr>msg_idx = 0, part_idx = None, entry_text = ''x''\<rparr>]" by code_simp
  moreover have "toy_parse ''A'' = Some (body_json [user_msg ''x''])" by (simp add: toy_parse_def)
  moreover have "utf8_valid ''A''" "messages_field Anthropic = ''messages''" by code_simp+
  ultimately show ?thesis by (simp add: process_request_body_async_def)
qed


lemma empty_registry_vault:
  assumes "rq_mode env = Some m" and "p \<noteq> None" and "vaults (registry s) = []" and "heap (registry s) = []"
  shows "\<exists>s' v. request_vault env c p s = Done (Some 0, s') \<and> heap (registry s') = [v]"
proof -
  obtain cid where cid: "p = Some cid" using assms(2) by blast
  have "merge_into E now k k' st (registry s) = Done (st, registry s)" for E now k k' st
    using assms(3) by (simp add: merge_into_def hm.get_empty)
  moreover have "\<exists>st' reg v. get_or_create_with_store E now k st (registry s) = (0, st', reg) \<and> heap reg = [v]" for E now k st
    using assms(3,4)
    by (simp add: get_or_create_with_store_def install_loaded_def install_def hm.get_empty Let_def case_prod_unfold)
  then obtain st' reg v where "get_or_create_with_store (reg_env_of env) (rq_ticks env) cid (req_store s) (registry s) = (0, st', reg)"
    "heap reg = [v]" by blast
  ultimately show ?thesis
    using assms(1) cid by (auto simp: request_vault_def split: option.split)
qed

lemma sample_pii_request:
  assumes "vaults (registry s) = []" and "heap (registry s) = []"
  shows "\<exists>s'. pii_request (sample_c2u (Some Replace)) False ''A'' n s = Done (Next s')"
proof -
  let ?e = "sample_c2u (Some Replace)"
  have f: "rq_provider ?e = Anthropic" "rq_mode ?e = Some Replace" "rq_parse ?e = toy_parse" "rq_print ?e = toy_print"
    "rq_pii ?e = sample_env" by (simp_all add: sample_c2u_def)
  obtain c s1 where c: "create_or_find_conversation ?e ''A'' s = (c, s1)" by fastforce
  then have r: "registry s1 = registry s" using create_or_find_frame(4) [of ?e "''A''" s] by simp
  let ?p = "case c of Some c \<Rightarrow> Some c | None \<Rightarrow> (case rq_mode ?e of None \<Rightarrow> None
      | Some _ \<Rightarrow> Some (case shared_conv_id s1 of Some c \<Rightarrow> c | None \<Rightarrow> session_uuid ?e))"
  have "?p \<noteq> None" by (cases c) (simp_all add: f)
  then obtain s2 v where v: "request_vault ?e c ?p s1 = Done (Some 0, s2)" "heap (registry s2) = [v]"
    using empty_registry_vault [OF f(2), of ?p s1 c] assms r by metis
  have run: "run_pipeline ?e (Some 0) ''A'' s2 = Done (''A'', [], s2\<lparr>registry := update_vault 0 (\<lambda>_. v) (registry s2)\<rparr>)"
    using v(2) f toy_scan [of v] by (simp add: run_pipeline_def index_def)
  have add: "add_instruction ?e ''A'' = Done ''B''" using f toy_inject by (simp add: add_instruction_def)
  show ?thesis
    unfolding pii_request_def c Let_def prod.case v(1) and_then.simps run add by (simp add: case_prod_unfold)
qed



theorem pii_pipelined_request_waits_witness:
  "\<exists>s'. pii_read (sample_c2u (Some Replace)) (on_wire sample_request @ on_wire sample_request, False) fresh_c2u
       = Done (Next s') \<and> rq_raw s' = on_wire sample_request"
proof -
  let ?e = "sample_c2u (Some Replace)" and ?w = "on_wire sample_request @ on_wire sample_request"
  let ?s = "pii_receive ?w fresh_c2u"
  have fe: "find_header_end ?w = Some (length (header_block (sample_head 1)))"
    using request_okD [OF sample_request_ok]
    by (auto simp: find_header_end_def find_sub_append_Some) (simp add: sample_request_def)
  have ph: "parse_headers ?w (length (header_block (sample_head 1))) framing_default = request_framing sample_request 0"
    using parse_request_headers [OF sample_request_ok, of ?w] by (simp add: on_wire_def sample_request_def)
  have s: "?s = fresh_c2u\<lparr>rq_raw := ?w, framing := (request_framing sample_request 0)
      \<lparr>body_received := length ?w - length (header_block (sample_head 1))\<rparr>\<rparr>"
    using fe ph by (simp add: pii_receive_def fresh_c2u_def c2u_init_def Let_def) (simp add: framing_default_def)
  have "length (on_wire sample_request) = 39"
    by (simp add: sample_request_def on_wire_def header_block_def sample_head_def crlf_def length_show_1 [simplified])
  then have "pii_body_done ?s = Done True" "pii_extract ?s = Done (''A'', 39)"
    unfolding s
    by (simp_all add: pii_body_done_def pii_extract_def request_framing_def sample_request_def is_sized_def usize_add_def
        slice_def on_wire_def Let_def)
  moreover have "vaults (registry ?s) = []" "heap (registry ?s) = []"
    by (simp_all add: pii_receive_def fresh_c2u_def c2u_init_def registry_new_def Let_def)
  then obtain s' where "pii_request ?e False ''A'' 39 ?s = Done (Next s')" using sample_pii_request by blast
  ultimately have "pii_read ?e (?w, False) fresh_c2u = Done (Next s')" by (simp add: pii_read_def)
  with pii_pipelined_request_waits [OF sample_request_ok [unfolded sample_request_def] fresh_idle,
      of ?e sample_request False s'] show ?thesis
    unfolding sample_request_def [symmetric] by auto
qed

text \<open>The first request of a conversation: it opens the conversation and logs its message.\<close>

definition opened_c2u :: c2u_state where
  "opened_c2u = fresh_c2u\<lparr>req_store := insert_conversation log_codec (sample_clock ''1'') opened_conv (store_open [])\<rparr>"

lemma sample_c2u_simps [simp]:
  "rq_provider (sample_c2u mode) = Anthropic" "rq_parse (sample_c2u mode) = toy_parse" "rq_print (sample_c2u mode) = toy_print"
  "rq_codec (sample_c2u mode) = log_codec" "rq_sha1 (sample_c2u mode) = zero_hash" "rq_uuid (sample_c2u mode) = (\<lambda>_. ''a'')"
  "rq_timestamp (sample_c2u mode) = ''t''" "rq_clock (sample_c2u mode) = sample_clock ''1''"
  by (simp_all add: sample_c2u_def)

lemma opened_represents: "represents log_codec ''a'' opened_conv (req_store opened_c2u) []"
proof -
  have "header_ok log_codec opened_conv" by code_simp
  from insert_conversation_represents [OF this] show ?thesis by (simp add: opened_c2u_def opened_conv_def)
qed


theorem masked_content_shifted_witness:
  "\<exists>ms. req_ws (snd (store_request_messages (sample_c2u (Some Replace)) ''A'' (Some ''B'') True ''a'' opened_c2u)) =
       map WsMessage ms \<and> map sm_content ms = [''x''] \<and> map sm_content_masked ms = [Some reminder_element]"
proof -
  let ?e = "sample_c2u (Some Replace)"
  have "count_request_messages (rq_codec ?e) ''a'' (req_store opened_c2u) = (0, req_store opened_c2u)"
    using represents_reads(5) [OF opened_represents] by simp
  moreover have "toy_parse ''A'' = Some (body_json [user_msg ''x''])" "jget (body_json [user_msg ''x'']) ''system'' = None"
    "utf8_valid ''A''" by (simp add: toy_parse_def, code_simp+)
  moreover have "toy_print x = Some ''B'' \<Longrightarrow> toy_parse ''B'' = Some x" for x
    by (simp add: toy_print_def toy_parse_def split: if_splits)
  ultimately obtain ms where "req_ws (snd (store_request_messages ?e ''A'' (Some ''B'') True ''a'' opened_c2u)) =
      req_ws opened_c2u @ map WsMessage ms" "map sm_content ms = map msg_content [\<lparr>role = ''user'', msg_content = ''x''\<rparr>]"
    "\<forall>i<length ms. sm_content_masked (ms ! i) =
       (case i of 0 \<Rightarrow> Some reminder_element | Suc j \<Rightarrow> map_option msg_content (get_at [\<lparr>role = ''user'', msg_content = ''x''\<rparr>] j))"
    using masked_content_shifted [of ?e "''A''" "body_json [user_msg ''x'']" "''B''" _ "''A''" _ "''a''" opened_c2u]
      toy_requests(1) toy_inject [of "Some Replace"] by fastforce
  then show ?thesis
    by (intro exI [of _ ms]) (auto simp: opened_c2u_def fresh_c2u_def c2u_init_def Cons_eq_map_conv)
qed

theorem same_first_message_same_conversation_witness:
  "fst (create_or_find_conversation (sample_c2u None) ''C'' (snd (create_or_find_conversation (sample_c2u None) ''A'' fresh_c2u)))
     = Some ''a''"
proof -
  let ?e = "sample_c2u None"
  define fp where "fp = conversation_fingerprint zero_hash [\<lparr>role = ''user'', msg_content = ''x''\<rparr>]"
  have "str_slice fp 0 (min (length fp) 8) \<noteq> Panic" unfolding fp_def by code_simp
  then have "find_conversation_by_fingerprint log_codec (sample_clock ''1'') ''anthropic'' fp (store_open []) = Done None"
    by (cases "str_slice fp 0 (min (length fp) 8)") (simp_all add: find_conversation_by_fingerprint_def store_open_def)
  then have c: "fst (create_or_find_conversation ?e ''A'' fresh_c2u) = Some ''a''"
    using toy_requests(1) by (simp add: create_or_find_conversation_def fresh_c2u_def c2u_init_def fp_def Let_def)
  have "header_ok log_codec opened_conv" by code_simp
  then show ?thesis
    using same_first_message_same_conversation [of ?e "''A''" _ "''C''" _ _ "[]" _ fresh_c2u "''a''"] toy_requests c
    by (simp add: opened_conv_def fresh_c2u_def c2u_init_def store_open_def hm.get_empty)
qed

end
