(* ===== verification/Network.thy ===== *)
theory Network
  imports Json_Value
begin

text \<open>
  What the proxy reads off the wire before a connection is relayed (\<open>src/src/proxy/network.rs\<close>): the
  server name in a TLS ClientHello, the DNS query and the first A record of its answer; and the
  formatting of bytes and headers for the log (\<open>src/src/util.rs\<close>).

  The wire formats themselves (a ClientHello as RFC 8446 lays it out, a DNS reply as RFC 1035
  does) are given as encoders of abstract messages; the readers are shown to invert them. The
  network's answer to a datagram is an argument of the resolver.
\<close>

named_theorems wire_simps "facts about bytes read off the wire"

section \<open>Big-endian numbers and the \<open>?\<close> operator\<close>

definition be16 :: "nat \<Rightarrow> bytes" where
  "be16 n = [char_of (n div 256 mod 256), char_of (n mod 256)]"

definition be24 :: "nat \<Rightarrow> bytes" where
  "be24 n = char_of (n div 65536 mod 256) # be16 (n mod 65536)"

definition u16_be :: "char \<Rightarrow> char \<Rightarrow> nat" where
  "u16_be a b = byte a * 256 + byte b"

fun try_some :: "'a option \<Rightarrow> ('a \<Rightarrow> 'b option outcome) \<Rightarrow> 'b option outcome" where
  "try_some None f = Done None"
| "try_some (Some x) f = f x"

lemma try_some_cong [fundef_cong]:
  "m = m' \<Longrightarrow> (\<And>x. m' = Some x \<Longrightarrow> f x = f' x) \<Longrightarrow> try_some m f = try_some m' f'"
  by (cases m') simp_all

text \<open>\<open>u16::from_be_bytes([*b.get(i)?, *b.get(i + 1)?])\<close>, and the same with panicking indices.\<close>

definition get_u16 :: "bytes \<Rightarrow> nat \<Rightarrow> nat option" where
  "get_u16 b i =
     (case get_at b i of None \<Rightarrow> None
      | Some x \<Rightarrow> (case get_at b (i + 1) of None \<Rightarrow> None | Some y \<Rightarrow> Some (u16_be x y)))"

definition index_u16 :: "bytes \<Rightarrow> nat \<Rightarrow> nat outcome" where
  "index_u16 b i = and_then (index b i) (\<lambda>x. and_then (index b (i + 1)) (\<lambda>y. Done (u16_be x y)))"

definition checked_add :: "nat \<Rightarrow> nat \<Rightarrow> nat option" where
  "checked_add a b = (if a + b \<le> usize_max then Some (a + b) else None)"

lemma byte_char_of_mod [simp]: "byte (char_of n) = n mod 256"
  by (simp add: byte_def)

lemma byte_less [simp]: "byte c < 256"
  by (simp add: byte_def)

lemma u16_be_less: "u16_be a b < 65536"
  unfolding u16_be_def using byte_less [of a] byte_less [of b] by linarith

lemma length_be [simp]: "length (be16 n) = 2" "length (be24 n) = 3"
  by (simp_all add: be16_def be24_def)

lemma u16_be_be16: "n < 65536 \<Longrightarrow> be16 n = [a, b] \<Longrightarrow> u16_be a b = n"
  by (auto simp: be16_def u16_be_def)

lemma get_at_mid [wire_simps]: "i = length p \<Longrightarrow> get_at (p @ c # r) i = Some c"
  by simp

lemma get_u16_mid [wire_simps]: "i = length p \<Longrightarrow> n < 65536 \<Longrightarrow> get_u16 (p @ be16 n @ r) i = Some n"
  by (simp add: get_u16_def be16_def u16_be_def)

lemma index_u16_mid [wire_simps]: "i = length p \<Longrightarrow> n < 65536 \<Longrightarrow> index_u16 (p @ be16 n @ r) i = Done n"
  by (simp add: index_u16_def index_def nth_append be16_def u16_be_def)

lemma get_range_mid [wire_simps]:
  "i = length p \<Longrightarrow> j = i + length m \<Longrightarrow> get_range (p @ m @ r) i j = Some m"
  by (simp add: get_range_def)

lemma get_u16_less: "get_u16 b i = Some n \<Longrightarrow> n < 65536"
  by (auto simp: get_u16_def u16_be_less split: option.splits)

lemma checked_add_small [wire_simps]: "a + b < 2 ^ 32 \<Longrightarrow> checked_add a b = Some (a + b)"
  by (simp add: checked_add_def usize_max_def)

section \<open>Server name indication\<close>

text \<open>
  The scan of the extensions. The indices into \<open>ext_data\<close> are the panicking ones of the source,
  behind its length check.
\<close>

definition sni_ext_name :: "bytes \<Rightarrow> bytes option outcome" where
  "sni_ext_name ext_data =
     (if length ext_data < 5 then Done None
      else and_then (index ext_data 2) (\<lambda>t.
        if byte t \<noteq> 0 then Done None
        else and_then (index_u16 ext_data 3) (\<lambda>name_len.
          try_some (get_range ext_data 5 (5 + name_len)) (\<lambda>name_bytes.
            Done (if utf8_valid name_bytes then Some name_bytes else None)))))"

function sni_loop :: "bytes \<Rightarrow> nat \<Rightarrow> nat \<Rightarrow> bytes option outcome" where
  "sni_loop hello pos ext_end =
     (if pos + 4 \<le> ext_end
      then try_some (get_u16 hello pos) (\<lambda>ext_type.
             try_some (get_u16 hello (pos + 2)) (\<lambda>ext_len.
               if ext_type = 0
               then try_some (get_range hello (pos + 4) (pos + 4 + ext_len)) sni_ext_name
               else try_some (checked_add (pos + 4) ext_len) (\<lambda>pos'. sni_loop hello pos' ext_end)))
      else Done None)"
  by pat_completeness auto
termination
  by (relation "measure (\<lambda>(h, pos, e). e - pos)") (auto simp: checked_add_def split: if_splits)

declare sni_loop.simps [simp del]

definition peek_sni :: "bytes \<Rightarrow> bytes option outcome" where
  "peek_sni buf =
     (if length buf < 5 then Done None
      else and_then (index buf 0) (\<lambda>ct. if byte ct \<noteq> 0x16 then Done None
      else try_some (get_range buf 5 (length buf)) (\<lambda>hs.
           try_some (get_at hs 0) (\<lambda>ht. if byte ht \<noteq> 1 then Done None
      else try_some (get_at hs 1) (\<lambda>l2. try_some (get_u16 hs 2) (\<lambda>l10.
      let hs_len = byte l2 * 65536 + l10 in
           try_some (get_range hs 4 (4 + hs_len)) (\<lambda>hello.
           try_some (get_at hello 34) (\<lambda>sid_len.
           try_some (checked_add 34 (1 + byte sid_len)) (\<lambda>pos.
           try_some (get_u16 hello pos) (\<lambda>cs_len.
           try_some (checked_add pos (2 + cs_len)) (\<lambda>pos.
           try_some (get_at hello pos) (\<lambda>cm_len.
           try_some (checked_add pos (1 + byte cm_len)) (\<lambda>pos.
           try_some (get_u16 hello pos) (\<lambda>ext_total.
           try_some (checked_add pos 2) (\<lambda>pos.
           try_some (checked_add pos ext_total) (\<lambda>ext_end.
             sni_loop hello pos ext_end))))))))))))))))"

subsection \<open>No panic\<close>

lemma try_some_Panic_iff: "try_some m f = Panic \<longleftrightarrow> (\<exists>x. m = Some x \<and> f x = Panic)"
  by (cases m) simp_all

lemma index_Panic_iff: "index xs i = Panic \<longleftrightarrow> length xs \<le> i"
  by (auto simp: index_def)

lemma index_u16_Panic_iff: "index_u16 b i = Panic \<longleftrightarrow> length b \<le> i + 1"
  by (auto simp: index_u16_def and_then_Panic_iff index_def)

lemmas panic_iffs = try_some_Panic_iff and_then_Panic_iff index_Panic_iff index_u16_Panic_iff

lemma sni_ext_name_no_panic: "sni_ext_name d \<noteq> Panic"
  by (auto simp: sni_ext_name_def panic_iffs split: if_splits)

lemma sni_loop_no_panic: "sni_loop h p e \<noteq> Panic"
proof (induction h p e rule: sni_loop.induct)
  case (1 h p e)
  then show ?case
    by (subst sni_loop.simps) (auto simp: panic_iffs sni_ext_name_no_panic)
qed

lemma peek_sni_no_panic: "peek_sni buf \<noteq> Panic"
  by (auto simp: peek_sni_def panic_iffs Let_def sni_loop_no_panic split: if_splits)

subsection \<open>A ClientHello and its encoding\<close>

text \<open>
  The handshake message of RFC 8446, section 4.1.2, behind a record header: the fields that
  \<open>peek_sni\<close> skips are arbitrary. \<open>ServerName h\<close> is the \<open>server_name\<close> extension with one host name.
\<close>

datatype hello_ext = Server_name bytes | Other_ext nat bytes

record client_hello =
  ch_record :: bytes
  ch_version_random :: bytes
  ch_session_id :: bytes
  ch_cipher_suites :: bytes
  ch_compression :: bytes
  ch_exts :: "hello_ext list"

fun ext_data :: "hello_ext \<Rightarrow> bytes" where
  "ext_data (Server_name h) = be16 (length h + 3) @ char_of (0 :: nat) # be16 (length h) @ h"
| "ext_data (Other_ext t d) = d"

fun ext_type :: "hello_ext \<Rightarrow> nat" where
  "ext_type (Server_name h) = 0"
| "ext_type (Other_ext t d) = t"

definition enc_ext :: "hello_ext \<Rightarrow> bytes" where
  "enc_ext e = be16 (ext_type e) @ be16 (length (ext_data e)) @ ext_data e"

definition enc_exts :: "hello_ext list \<Rightarrow> bytes" where
  "enc_exts es = concat (map enc_ext es)"

definition enc_hello_body :: "client_hello \<Rightarrow> bytes" where
  "enc_hello_body ch =
     ch_version_random ch @ char_of (length (ch_session_id ch)) # ch_session_id ch
       @ be16 (length (ch_cipher_suites ch)) @ ch_cipher_suites ch
       @ char_of (length (ch_compression ch)) # ch_compression ch
       @ be16 (length (enc_exts (ch_exts ch))) @ enc_exts (ch_exts ch)"

definition enc_hello :: "client_hello \<Rightarrow> bytes" where
  "enc_hello ch =
     char_of (0x16 :: nat) # ch_record ch @ char_of (1 :: nat) # be24 (length (enc_hello_body ch))
       @ enc_hello_body ch"

fun ext_ok :: "hello_ext \<Rightarrow> bool" where
  "ext_ok (Server_name h) \<longleftrightarrow> length h < 65531 \<and> utf8_valid h"
| "ext_ok (Other_ext t d) \<longleftrightarrow> 0 < t \<and> t < 65536 \<and> length d < 65536"

definition hello_ok :: "client_hello \<Rightarrow> bool" where
  "hello_ok ch \<longleftrightarrow> length (ch_record ch) = 4 \<and> length (ch_version_random ch) = 34
     \<and> length (ch_session_id ch) < 256 \<and> length (ch_cipher_suites ch) < 65536
     \<and> length (ch_compression ch) < 256 \<and> length (enc_exts (ch_exts ch)) < 65536
     \<and> list_all ext_ok (ch_exts ch)"

fun server_name :: "hello_ext list \<Rightarrow> bytes option" where
  "server_name [] = None"
| "server_name (Server_name h # es) = Some h"
| "server_name (Other_ext t d # es) = server_name es"

subsection \<open>The reader inverts the encoding\<close>

lemma sni_ext_name_enc: "ext_ok (Server_name h) \<Longrightarrow> sni_ext_name (ext_data (Server_name h)) = Done (Some h)"
  using index_u16_mid [of 3 "be16 (length h + 3) @ [char_of (0 :: nat)]" "length h" h]
    get_range_mid [of 5 "be16 (length h + 3) @ char_of (0 :: nat) # be16 (length h)" "5 + length h" h "[]"]
  by (simp add: sni_ext_name_def index_def nth_append)

lemma sni_loop_enc:
  assumes "list_all ext_ok es" and "length p + length (enc_exts es) < 2 ^ 32"
  shows "sni_loop (p @ enc_exts es @ r) (length p) (length p + length (enc_exts es)) = Done (server_name es)"
  using assms
proof (induction es arbitrary: p)
  case Nil
  then show ?case by (simp add: sni_loop.simps [of _ "length p"] enc_exts_def)
next
  case (Cons e es)
  let ?d = "ext_data e" and ?rest = "enc_exts es @ r"
  have h: "p @ enc_exts (e # es) @ r = p @ be16 (ext_type e) @ be16 (length ?d) @ ?d @ ?rest"
    by (simp add: enc_exts_def enc_ext_def)
  have b: "ext_type e < 65536" "length ?d < 65536"
    using Cons.prems(1) by (cases e; simp)+
  have l: "length (enc_exts (e # es)) = 4 + length ?d + length (enc_exts es)"
    by (simp add: enc_exts_def enc_ext_def)
  have t: "get_u16 (p @ enc_exts (e # es) @ r) (length p) = Some (ext_type e)"
    unfolding h by (rule get_u16_mid) (use b in simp_all)
  have n: "get_u16 (p @ enc_exts (e # es) @ r) (length p + 2) = Some (length ?d)"
    unfolding h using get_u16_mid [of "length p + 2" "p @ be16 (ext_type e)" "length ?d" "?d @ ?rest"] b by simp
  have g: "get_range (p @ enc_exts (e # es) @ r) (length p + 4) (length p + 4 + length ?d) = Some ?d"
    unfolding h using get_range_mid [of "length p + 4" "p @ be16 (ext_type e) @ be16 (length ?d)" _ ?d ?rest]
    by simp
  have c: "checked_add (length p + 4) (length ?d) = Some (length p + 4 + length ?d)"
    using Cons.prems(2) l by (intro checked_add_small) simp
  show ?case
  proof (cases e)
    case (Server_name h)
    with t n g l Cons.prems(1) show ?thesis
      by (subst sni_loop.simps) (simp add: sni_ext_name_enc del: ext_data.simps)
  next
    case (Other_ext ty d)
    have le: "length (p @ enc_ext e) = length p + 4 + length ?d" by (simp add: enc_ext_def)
    have "sni_loop ((p @ enc_ext e) @ enc_exts es @ r) (length (p @ enc_ext e))
        (length (p @ enc_ext e) + length (enc_exts es)) = Done (server_name es)"
      by (rule Cons.IH) (use Cons.prems l in \<open>simp_all add: enc_ext_def\<close>)
    moreover have "(p @ enc_ext e) @ enc_exts es @ r = p @ enc_exts (e # es) @ r"
      by (simp add: enc_exts_def)
    moreover have "length (p @ enc_ext e) + length (enc_exts es) = length p + length (enc_exts (e # es))"
      using le l by simp
    ultimately have "sni_loop (p @ enc_exts (e # es) @ r) (length p + 4 + length ?d)
        (length p + length (enc_exts (e # es))) = Done (server_name es)"
      unfolding le by (simp only:)
    with t n c l Other_ext Cons.prems(1) show ?thesis
      by (subst sni_loop.simps) simp
  qed
qed

lemma hello_body_length:
  assumes "hello_ok ch"
  shows "length (enc_hello_body ch) < 2 ^ 24"
  using assms by (simp add: hello_ok_def enc_hello_body_def)

lemma hello_fields:
  assumes "hello_ok ch"
  defines "h \<equiv> enc_hello_body ch" and "p1 \<equiv> 35 + length (ch_session_id ch)"
  defines "p2 \<equiv> p1 + 2 + length (ch_cipher_suites ch)"
  defines "p3 \<equiv> p2 + 1 + length (ch_compression ch)"
  shows "get_at h 34 = Some (char_of (length (ch_session_id ch)))"
    and "get_u16 h p1 = Some (length (ch_cipher_suites ch))"
    and "get_at h p2 = Some (char_of (length (ch_compression ch)))"
    and "get_u16 h p3 = Some (length (enc_exts (ch_exts ch)))"
    and "sni_loop h (p3 + 2) (p3 + 2 + length (enc_exts (ch_exts ch))) = Done (server_name (ch_exts ch))"
proof -
  define v s c m x where "v = ch_version_random ch" and "s = ch_session_id ch" and "c = ch_cipher_suites ch"
    and "m = ch_compression ch" and "x = enc_exts (ch_exts ch)"
  note vs = v_def [symmetric] s_def [symmetric] c_def [symmetric] m_def [symmetric] x_def [symmetric]
  have h: "h = v @ char_of (length s) # s @ be16 (length c) @ c @ char_of (length m) # m @ be16 (length x) @ x"
    by (simp add: h_def enc_hello_body_def vs)
  have ok: "length v = 34" "length s < 256" "length c < 65536" "length m < 256" "length x < 65536"
    and es: "list_all ext_ok (ch_exts ch)"
    using assms(1) by (simp_all add: hello_ok_def vs)
  show "get_at h 34 = Some (char_of (length (ch_session_id ch)))"
    unfolding vs h using ok by simp
  show "get_u16 h p1 = Some (length (ch_cipher_suites ch))"
    unfolding vs h p1_def using ok
      get_u16_mid [of "35 + length s" "v @ char_of (length s) # s" "length c" "c @ char_of (length m) # m @ be16 (length x) @ x"]
    by simp
  show "get_at h p2 = Some (char_of (length (ch_compression ch)))"
    unfolding vs h p2_def p1_def using ok
      get_at_mid [of "35 + length s + 2 + length c" "v @ char_of (length s) # s @ be16 (length c) @ c"
        "char_of (length m)" "m @ be16 (length x) @ x"]
    by simp
  define q where "q = v @ char_of (length s) # s @ be16 (length c) @ c @ char_of (length m) # m"
  have q: "length q = p3" using ok by (simp add: q_def p3_def p2_def p1_def vs)
  have hq: "h = q @ be16 (length x) @ x" by (simp add: h q_def)
  show "get_u16 h p3 = Some (length (enc_exts (ch_exts ch)))"
    unfolding hq vs using q ok get_u16_mid [of p3 q "length x" x] by simp
  have "p3 < 2 ^ 24" using ok by (simp add: p3_def p2_def p1_def vs)
  then show "sni_loop h (p3 + 2) (p3 + 2 + length (enc_exts (ch_exts ch))) = Done (server_name (ch_exts ch))"
    using sni_loop_enc [OF es, of "q @ be16 (length x)" "[]"] q ok(5) by (simp add: hq vs)
qed

lemma hello_handshake:
  assumes "length (ch_record ch) = 4"
  shows "get_range (enc_hello ch @ r) 5 (length (enc_hello ch @ r))
      = Some (char_of (1 :: nat) # be24 (length (enc_hello_body ch)) @ enc_hello_body ch @ r)"
  using assms by (simp add: get_range_def enc_hello_def)

lemma byte_be24: "n < 2 ^ 24 \<Longrightarrow> n div 65536 mod 256 * 65536 + n mod 65536 = (n :: nat)"
  by simp

lemma handshake_fields:
  fixes b r :: bytes
  defines "hs \<equiv> char_of (1 :: nat) # be24 (length b) @ b @ r"
  shows "get_at hs 0 = Some (char_of (1 :: nat))"
    and "get_at hs 1 = Some (char_of (length b div 65536 mod 256))"
    and "get_u16 hs 2 = Some (length b mod 65536)"
    and "get_range hs 4 (4 + length b) = Some b"
proof -
  show "get_at hs 0 = Some (char_of (1 :: nat))" "get_at hs 1 = Some (char_of (length b div 65536 mod 256))"
    by (simp_all add: hs_def be24_def)
  show "get_u16 hs 2 = Some (length b mod 65536)"
    using get_u16_mid [of 2 "[char_of (1 :: nat), char_of (length b div 65536 mod 256)]" "length b mod 65536" "b @ r"]
    by (simp add: hs_def be24_def)
  show "get_range hs 4 (4 + length b) = Some b"
    using get_range_mid [of 4 "char_of (1 :: nat) # be24 (length b)" "4 + length b" b r]
    by (simp add: hs_def)
qed

lemma peek_sni_enc:
  assumes "hello_ok ch"
  shows "peek_sni (enc_hello ch @ r) = Done (server_name (ch_exts ch))"
proof -
  have rec: "length (ch_record ch) = 4" using assms by (simp add: hello_ok_def)
  have ok: "length (ch_session_id ch) < 256" "length (ch_cipher_suites ch) < 65536"
    "length (ch_compression ch) < 256" "length (enc_exts (ch_exts ch)) < 65536"
    using assms by (simp_all add: hello_ok_def)
  have i0: "index (enc_hello ch @ r) 0 = Done (char_of (0x16 :: nat))"
    by (simp add: enc_hello_def index_def)
  have l5: "\<not> length (enc_hello ch @ r) < 5" using rec by (simp add: enc_hello_def)
  note fs = hello_fields [OF assms]
  show ?thesis
    unfolding peek_sni_def hello_handshake [OF rec] i0
    using l5 hello_body_length [OF assms] handshake_fields [of "enc_hello_body ch" r] fs ok
    by (simp add: byte_be24 checked_add_small ac_simps)
qed

lemma get_at_take: "get_at (take k xs) i = (if i < k then get_at xs i else None)"
  by (auto simp: get_at_def)

lemma peek_sni_cut:
  assumes "hello_ok ch" and "k < length (enc_hello ch)"
  shows "peek_sni (take k (enc_hello ch)) = Done None"
proof (cases "k < 5")
  case True
  then have "length (take k (enc_hello ch)) < 5" by simp
  then show ?thesis by (simp only: peek_sni_def if_True)
next
  case False
  let ?b = "enc_hello_body ch"
  let ?hs = "char_of (1 :: nat) # be24 (length ?b) @ ?b @ []"
  have rec: "length (ch_record ch) = 4" using assms(1) by (simp add: hello_ok_def)
  have hs: "get_range (take k (enc_hello ch)) 5 (length (take k (enc_hello ch))) = Some (take (k - 5) ?hs)"
    using False assms(2) rec by (simp add: get_range_def enc_hello_def drop_take take_Cons')
  have i0: "index (take k (enc_hello ch)) 0 = Done (char_of (0x16 :: nat))"
    using False by (simp add: enc_hello_def index_def take_Cons')
  have short: "get_range (take (k - 5) ?hs) 4 (4 + length ?b) = None"
    using assms(2) rec by (auto simp: get_range_def enc_hello_def)
  have u: "get_u16 (take (k - 5) ?hs) 2 = Some v \<Longrightarrow> v = length ?b mod 65536" for v
    using handshake_fields(3) [of ?b "[]"] by (auto simp: get_u16_def get_at_take split: if_splits option.splits)
  have g: "get_at (take (k - 5) ?hs) 1 = Some c \<Longrightarrow> c = char_of (length ?b div 65536 mod 256)" for c
    using handshake_fields(2) [of ?b "[]"] by (auto simp: get_at_take split: if_splits)
  show ?thesis
  proof (cases "get_at (take (k - 5) ?hs) 0")
    case None
    then show ?thesis unfolding peek_sni_def hs i0 by simp
  next
    case (Some t)
    show ?thesis
    proof (cases "get_at (take (k - 5) ?hs) 1")
      case c: (Some c)
      show ?thesis
      proof (cases "get_u16 (take (k - 5) ?hs) 2")
        case v: (Some v)
        have "byte c * 65536 + v = length ?b"
          using u [OF v] g [OF c] byte_be24 hello_body_length [OF assms(1)] by simp
        with short Some c v show ?thesis
          unfolding peek_sni_def hs i0 by (simp add: Let_def)
      next
        case None
        then show ?thesis using Some c unfolding peek_sni_def hs i0 by simp
      qed
    next
      case None
      then show ?thesis using Some unfolding peek_sni_def hs i0 by simp
    qed
  qed
qed

unbundle bit_operations_syntax

section \<open>The resolver that bypasses the hosts file\<close>

datatype ip_addr = V4 char char char char

definition is_loopback :: "ip_addr \<Rightarrow> bool" where
  "is_loopback ip \<longleftrightarrow> (case ip of V4 a _ _ _ \<Rightarrow> byte a = 127)"

definition show_ip :: "ip_addr \<Rightarrow> bytes" where
  "show_ip ip = (case ip of V4 a b c d \<Rightarrow>
     show_nat (byte a) @ ''.'' @ show_nat (byte b) @ ''.'' @ show_nat (byte c) @ ''.'' @ show_nat (byte d))"

text \<open>\<open>label.len() as u8\<close> keeps the low eight bits.\<close>

definition dns_label :: "bytes \<Rightarrow> bytes" where
  "dns_label label = char_of (length label mod 256) # label"

definition build_dns_a_query :: "bytes \<Rightarrow> bytes" where
  "build_dns_a_query hostname =
     map char_of [0xAB, 0xCD :: nat] @ map char_of [0x01, 0x00 :: nat] @ map char_of [0x00, 0x01 :: nat]
       @ map char_of [0, 0, 0, 0, 0, 0 :: nat]
       @ concat (map dns_label (split_on (CHR ''.'') hostname))
       @ [char_of (0 :: nat)] @ map char_of [0x00, 0x01 :: nat] @ map char_of [0x00, 0x01 :: nat]"

definition is_pointer :: "char \<Rightarrow> bool" where
  "is_pointer b \<longleftrightarrow> byte b AND 0xC0 = 0xC0"

function skip_question_name :: "bytes \<Rightarrow> nat \<Rightarrow> nat option outcome" where
  "skip_question_name response pos =
     (if length response \<le> pos then Done None
      else and_then (index response pos) (\<lambda>len.
        if byte len = 0 then Done (Some (pos + 1))
        else if is_pointer len then Done (Some (pos + 2))
        else skip_question_name response (pos + 1 + byte len)))"
  by pat_completeness auto
termination
  by (relation "measure (\<lambda>(r, pos). length r - pos)") auto

function skip_labels :: "bytes \<Rightarrow> nat \<Rightarrow> nat option outcome" where
  "skip_labels response pos =
     (if length response \<le> pos then Done None
      else and_then (index response pos) (\<lambda>len.
        if byte len = 0 then Done (Some (pos + 1))
        else skip_labels response (pos + 1 + byte len)))"
  by pat_completeness auto
termination
  by (relation "measure (\<lambda>(r, pos). length r - pos)") auto

declare skip_question_name.simps [simp del] skip_labels.simps [simp del]

text \<open>\<open>outcome\<close> of an optional position, continued: a panic or a \<open>return None\<close> ends the reader.\<close>

definition try_pos :: "nat option outcome \<Rightarrow> (nat \<Rightarrow> 'b option outcome) \<Rightarrow> 'b option outcome" where
  "try_pos m f = and_then m (\<lambda>p. try_some p f)"

fun parse_answers :: "bytes \<Rightarrow> nat \<Rightarrow> nat \<Rightarrow> ip_addr option outcome" where
  "parse_answers response 0 pos = Done None"
| "parse_answers response (Suc ancount) pos =
     (if length response \<le> pos then Done None
      else try_pos (and_then (index response pos) (\<lambda>b.
                      if is_pointer b then Done (Some (pos + 2)) else skip_labels response pos)) (\<lambda>pos.
        if length response < pos + 10 then Done None
        else and_then (index_u16 response pos) (\<lambda>rtype.
             and_then (index_u16 response (pos + 8)) (\<lambda>rdlen.
               if rtype = 1 \<and> rdlen = 4 \<and> pos + 10 + 4 \<le> length response
               then and_then (index response (pos + 10)) (\<lambda>a. and_then (index response (pos + 11)) (\<lambda>b.
                    and_then (index response (pos + 12)) (\<lambda>c. and_then (index response (pos + 13)) (\<lambda>d.
                      Done (Some (V4 a b c d))))))
               else parse_answers response ancount (pos + 10 + rdlen)))))"

definition parse_first_a_record :: "bytes \<Rightarrow> ip_addr option outcome" where
  "parse_first_a_record response =
     (if length response < 12 then Done None
      else and_then (index_u16 response 6) (\<lambda>ancount.
        if ancount = 0 then Done None
        else try_pos (skip_question_name response 12) (\<lambda>pos.
          parse_answers response ancount (pos + 4))))"

text \<open>
  The two servers are asked in turn. What the socket does is an argument: an error of \<open>bind\<close> or
  \<open>send_to\<close> ends the resolver, a timeout or an error of \<open>recv\<close> goes on to the next server. At most
  512 bytes of a datagram are read.
\<close>

datatype udp_result = Sock_error bytes | No_reply | Datagram bytes

datatype net_error = Io bytes | No_a_record bytes | Bad_server_name bytes | Tls_failed bytes | Connect_failed bytes
  | Bad_connect_line bytes | No_cert bytes

fun resolve_loop :: "(bytes \<Rightarrow> bytes \<Rightarrow> udp_result) \<Rightarrow> bytes \<Rightarrow> bytes \<Rightarrow> bytes list
    \<Rightarrow> (net_error + ip_addr) outcome" where
  "resolve_loop net hostname query [] = Done (Inl (No_a_record hostname))"
| "resolve_loop net hostname query (dns # rest) =
     (case net dns query of
        Sock_error e \<Rightarrow> Done (Inl (Io e))
      | No_reply \<Rightarrow> resolve_loop net hostname query rest
      | Datagram d \<Rightarrow> and_then (parse_first_a_record (take 512 d)) (\<lambda>r.
          case r of Some ip \<Rightarrow> Done (Inr ip) | None \<Rightarrow> resolve_loop net hostname query rest))"

definition dns_servers :: "bytes list" where
  "dns_servers = [''8.8.8.8:53'', ''1.1.1.1:53'']"

definition resolve_bypass_hosts :: "(bytes \<Rightarrow> bytes \<Rightarrow> udp_result) \<Rightarrow> bytes \<Rightarrow> (net_error + ip_addr) outcome" where
  "resolve_bypass_hosts net hostname = resolve_loop net hostname (build_dns_a_query hostname) dns_servers"

subsection \<open>No panic\<close>

lemma is_pointer_iff: "is_pointer c \<longleftrightarrow> 192 \<le> byte c"
proof -
  let ?n = "byte c"
  have "n AND push_bit 6 m = push_bit 6 (drop_bit 6 n AND m)" for n m :: nat
    by (rule bit_eqI) (auto simp: bit_simps)
  then have "?n AND push_bit 6 3 = push_bit 6 (drop_bit 6 ?n AND 3)" .
  also have "\<dots> = push_bit 6 (take_bit 2 (drop_bit 6 ?n))"
    by (simp add: take_bit_eq_mask mask_eq_exp_minus_1)
  also have "\<dots> = 64 * (?n div 64)"
    using byte_less [of c] by (simp add: push_bit_eq_mult take_bit_eq_mod drop_bit_eq_div mod_less less_mult_imp_div_less)
  finally have "?n AND 192 = 64 * (?n div 64)" by (simp add: push_bit_eq_mult)
  then have "is_pointer c \<longleftrightarrow> ?n div 64 = 3" by (simp add: is_pointer_def)
  also have "\<dots> \<longleftrightarrow> 192 \<le> ?n" using byte_less [of c] by linarith
  finally show ?thesis .
qed

lemma try_pos_Panic_iff: "try_pos m f = Panic \<longleftrightarrow> m = Panic \<or> (\<exists>p. m = Done (Some p) \<and> f p = Panic)"
  by (auto simp: try_pos_def panic_iffs)

lemma skip_question_name_no_panic: "skip_question_name r pos \<noteq> Panic"
proof (induction r pos rule: skip_question_name.induct)
  case (1 r pos)
  then show ?case by (subst skip_question_name.simps) (auto simp: panic_iffs)
qed

lemma skip_labels_no_panic: "skip_labels r pos \<noteq> Panic"
proof (induction r pos rule: skip_labels.induct)
  case (1 r pos)
  then show ?case by (subst skip_labels.simps) (auto simp: panic_iffs)
qed

lemma parse_answers_no_panic: "parse_answers r n pos \<noteq> Panic"
  by (induction r n pos rule: parse_answers.induct)
    (auto simp: panic_iffs try_pos_Panic_iff skip_labels_no_panic split: if_splits)

lemma parse_first_a_record_no_panic: "parse_first_a_record r \<noteq> Panic"
  by (auto simp: parse_first_a_record_def panic_iffs try_pos_Panic_iff skip_question_name_no_panic
      parse_answers_no_panic)

lemma resolve_loop_no_panic: "resolve_loop net h q ds \<noteq> Panic"
  by (induction net h q ds rule: resolve_loop.induct)
    (auto simp: and_then_Panic_iff parse_first_a_record_no_panic split: udp_result.splits option.splits)

subsection \<open>A DNS reply and its encoding\<close>

text \<open>
  The sections of RFC 1035, section 4.1. The owner name of a record is a sequence of labels ended by
  the root, or a pointer to an earlier name.
\<close>

datatype dns_name = Pointer char char | Labels "bytes list"

record dns_record =
  rr_name :: dns_name
  rr_type :: nat
  rr_class_ttl :: bytes
  rr_data :: bytes

definition enc_labels :: "bytes list \<Rightarrow> bytes" where
  "enc_labels ls = concat (map dns_label ls) @ [char_of (0 :: nat)]"

fun enc_name :: "dns_name \<Rightarrow> bytes" where
  "enc_name (Pointer a b) = [a, b]"
| "enc_name (Labels ls) = enc_labels ls"

definition enc_rr :: "dns_record \<Rightarrow> bytes" where
  "enc_rr rr = enc_name (rr_name rr) @ be16 (rr_type rr) @ rr_class_ttl rr
     @ be16 (length (rr_data rr)) @ rr_data rr"

definition label_ok :: "bytes \<Rightarrow> bool" where
  "label_ok l \<longleftrightarrow> 0 < length l \<and> length l < 64"

fun name_ok :: "dns_name \<Rightarrow> bool" where
  "name_ok (Pointer a b) \<longleftrightarrow> is_pointer a"
| "name_ok (Labels ls) \<longleftrightarrow> list_all label_ok ls"

definition rr_ok :: "dns_record \<Rightarrow> bool" where
  "rr_ok rr \<longleftrightarrow> name_ok (rr_name rr) \<and> rr_type rr < 65536 \<and> length (rr_class_ttl rr) = 6
     \<and> length (rr_data rr) < 65536"

text \<open>
  A reply to a query: the id, flags and question count (six bytes), the number of answers, the two
  other counts, the question of the query, the answer records, and further sections.
\<close>

definition enc_reply :: "bytes \<Rightarrow> bytes \<Rightarrow> bytes \<Rightarrow> dns_record list \<Rightarrow> bytes \<Rightarrow> bytes" where
  "enc_reply query head counts rrs additional =
     head @ be16 (length rrs) @ counts @ drop 12 query @ concat (map enc_rr rrs) @ additional"

text \<open>The address the resolver is after: the first A record.\<close>

fun first_a :: "dns_record list \<Rightarrow> ip_addr option" where
  "first_a [] = None"
| "first_a (rr # rrs) =
     (case rr_data rr of [a, b, c, d] \<Rightarrow> if rr_type rr = 1 then Some (V4 a b c d) else first_a rrs
      | _ \<Rightarrow> first_a rrs)"

subsection \<open>The reader inverts the encoding\<close>

lemma index_mid [wire_simps]: "i = length p \<Longrightarrow> index (p @ c # r) i = Done c"
  by (simp add: index_def)

lemma index_inside: "i = length p + k \<Longrightarrow> k < length m \<Longrightarrow> index (p @ m @ r) i = Done (m ! k)"
  by (auto simp: index_def nth_append)

lemma label_first: "label_ok l \<Longrightarrow> byte (char_of (length l mod 256)) = length l \<and> \<not> is_pointer (char_of (length l mod 256))"
  by (simp add: label_ok_def is_pointer_iff)

lemma skip_labels_enc:
  "list_all label_ok ls \<Longrightarrow> skip_labels (p @ enc_labels ls @ r) (length p) = Done (Some (length p + length (enc_labels ls)))"
proof (induction ls arbitrary: p)
  case Nil
  then show ?case by (subst skip_labels.simps) (simp add: enc_labels_def index_mid)
next
  case (Cons l ls)
  have l: "label_ok l" "list_all label_ok ls" using Cons.prems by simp_all
  let ?c = "char_of (length l mod 256)"
  have "skip_labels ((p @ ?c # l) @ enc_labels ls @ r) (length (p @ ?c # l))
      = Done (Some (length (p @ ?c # l) + length (enc_labels ls)))"
    by (rule Cons.IH [OF l(2)])
  then have "skip_labels (p @ ?c # l @ enc_labels ls @ r) (length p + 1 + length l)
      = Done (Some (length p + 1 + length l + length (enc_labels ls)))"
    by simp
  then show ?case using label_first [OF l(1)] l(1)
    by (subst skip_labels.simps) (simp add: enc_labels_def dns_label_def index_mid label_ok_def)
qed

lemma skip_question_name_enc:
  "list_all label_ok ls \<Longrightarrow> skip_question_name (p @ enc_labels ls @ r) (length p) = Done (Some (length p + length (enc_labels ls)))"
proof (induction ls arbitrary: p)
  case Nil
  then show ?case by (subst skip_question_name.simps) (simp add: enc_labels_def index_mid)
next
  case (Cons l ls)
  have l: "label_ok l" "list_all label_ok ls" using Cons.prems by simp_all
  let ?c = "char_of (length l mod 256)"
  have "skip_question_name ((p @ ?c # l) @ enc_labels ls @ r) (length (p @ ?c # l))
      = Done (Some (length (p @ ?c # l) + length (enc_labels ls)))"
    by (rule Cons.IH [OF l(2)])
  then have "skip_question_name (p @ ?c # l @ enc_labels ls @ r) (length p + 1 + length l)
      = Done (Some (length p + 1 + length l + length (enc_labels ls)))"
    by simp
  then show ?case using label_first [OF l(1)] l(1)
    by (subst skip_question_name.simps) (simp add: enc_labels_def dns_label_def index_mid label_ok_def)
qed

lemma skip_name_enc:
  assumes "name_ok nm"
  shows "and_then (index (p @ enc_name nm @ r) (length p)) (\<lambda>b.
      if is_pointer b then Done (Some (length p + 2)) else skip_labels (p @ enc_name nm @ r) (length p))
    = Done (Some (length p + length (enc_name nm)))"
proof (cases nm)
  case (Pointer a b)
  then show ?thesis using assms by (simp add: index_mid)
next
  case (Labels ls)
  obtain c t where c: "enc_labels ls = c # t" "\<not> is_pointer c"
  proof (cases ls)
    case Nil
    then show ?thesis using that by (simp add: enc_labels_def is_pointer_iff)
  next
    case (Cons l ls')
    then show ?thesis using that [of "char_of (length l mod 256)"] assms Labels label_first [of l]
      by (simp add: enc_labels_def dns_label_def)
  qed
  have "index (p @ enc_labels ls @ r) (length p) = Done c" by (simp add: c index_mid)
  with c(2) show ?thesis
    using assms Labels skip_labels_enc [of ls p r] by simp
qed

lemma enc_name_not_Nil: "enc_name nm \<noteq> []"
  by (cases nm) (simp_all add: enc_labels_def)

lemma first_a_other: "\<not> (rr_type rr = 1 \<and> length (rr_data rr) = 4) \<Longrightarrow> first_a (rr # rrs) = first_a rrs"
  by (auto split: list.split)

lemma parse_answers_enc:
  "list_all rr_ok rrs \<Longrightarrow>
     parse_answers (p @ concat (map enc_rr rrs) @ r) (length rrs) (length p) = Done (first_a rrs)"
proof (induction rrs arbitrary: p)
  case Nil
  then show ?case by simp
next
  case (Cons rr rrs)
  have ok: "rr_ok rr" "list_all rr_ok rrs" using Cons.prems by simp_all
  define nm ty ct d where "nm = rr_name rr" and "ty = rr_type rr" and "ct = rr_class_ttl rr" and "d = rr_data rr"
  note vs = nm_def [symmetric] ty_def [symmetric] ct_def [symmetric] d_def [symmetric]
  have b: "name_ok nm" "ty < 65536" "length ct = 6" "length d < 65536"
    using ok(1) by (simp_all add: rr_ok_def vs)
  let ?rest = "concat (map enc_rr rrs) @ r" and ?q = "p @ enc_name nm"
  let ?resp = "p @ concat (map enc_rr (rr # rrs)) @ r"
  have resp: "?resp = ?q @ be16 ty @ ct @ be16 (length d) @ d @ ?rest"
    by (simp add: enc_rr_def vs)
  have name: "and_then (index ?resp (length p)) (\<lambda>b.
      if is_pointer b then Done (Some (length p + 2)) else skip_labels ?resp (length p)) = Done (Some (length ?q))"
    using skip_name_enc [OF b(1), of p "be16 ty @ ct @ be16 (length d) @ d @ ?rest"]
    unfolding resp append_assoc length_append .
  have ty: "index_u16 ?resp (length ?q) = Done ty"
    unfolding resp by (rule index_u16_mid) (simp_all add: b)
  have len: "index_u16 ?resp (length ?q + 8) = Done (length d)"
    unfolding resp using b index_u16_mid [of "length ?q + 8" "?q @ be16 ty @ ct" "length d" "d @ ?rest"] by simp
  have long: "length ?resp = length ?q + 10 + length d + length ?rest" unfolding resp using b by simp
  have gt: "\<not> length ?resp \<le> length p" unfolding resp by simp
  show ?case
  proof (cases "ty = 1 \<and> length d = 4")
    case True
    then obtain a1 a2 a3 a4 where d: "d = [a1, a2, a3, a4]" by (auto simp: length_Suc_conv eval_nat_numeral)
    have pre: "?resp = (?q @ be16 ty @ ct @ be16 (length d)) @ [a1, a2, a3, a4] @ ?rest"
      unfolding resp by (simp add: d)
    have ix: "index ?resp (length ?q + n) = Done ([a1, a2, a3, a4] ! (n - 10))" if "10 \<le> n" "n < 14" for n
      unfolding pre by (rule index_inside) (use that b(3) in simp_all)
    from ix [of 10] ix [of 11] ix [of 12] ix [of 13] True name ty len long gt d show ?thesis
      by (simp add: try_pos_def vs del: concat.simps map_append list.map append_assoc length_append)
  next
    case False
    have "parse_answers ((p @ enc_rr rr) @ ?rest) (length rrs) (length (p @ enc_rr rr)) = Done (first_a rrs)"
      by (rule Cons.IH [OF ok(2)])
    moreover have "(p @ enc_rr rr) @ ?rest = ?resp" by simp
    moreover have "length (p @ enc_rr rr) = length ?q + 10 + length d" using b by (simp add: enc_rr_def vs)
    ultimately have "parse_answers ?resp (length rrs) (length ?q + 10 + length d) = Done (first_a rrs)"
      by (simp only:)
    moreover have "first_a (rr # rrs) = first_a rrs" by (rule first_a_other) (use False in \<open>simp add: vs\<close>)
    ultimately show ?thesis using False name ty len long gt
      by (auto simp: try_pos_def simp del: concat.simps map_append list.map append_assoc length_append first_a.simps)
  qed
qed

lemma query_question:
  assumes "list_all label_ok (split_on (CHR ''.'') h)"
  shows "drop 12 (build_dns_a_query h) = enc_labels (split_on (CHR ''.'') h) @ map char_of [0, 1, 0, 1 :: nat]"
  by (simp add: build_dns_a_query_def enc_labels_def)

lemma parse_first_a_record_enc:
  assumes h: "list_all label_ok (split_on (CHR ''.'') h)" and rrs: "list_all rr_ok rrs" "length rrs < 65536"
    and pre: "length hdr = 6" and cnt: "length counts = 4"
  shows "parse_first_a_record (enc_reply (build_dns_a_query h) hdr counts rrs additional) = Done (first_a rrs)"
proof -
  let ?ls = "split_on (CHR ''.'') h"
  let ?resp = "enc_reply (build_dns_a_query h) hdr counts rrs additional"
  let ?qt = "map char_of [0, 1, 0, 1 :: nat]" and ?an = "concat (map enc_rr rrs) @ additional"
  note q = query_question [OF h]
  have r1: "?resp = hdr @ be16 (length rrs) @ counts @ enc_labels ?ls @ ?qt @ ?an"
    by (simp add: enc_reply_def q)
  have r2: "?resp = (hdr @ be16 (length rrs) @ counts) @ enc_labels ?ls @ ?qt @ ?an"
    unfolding r1 by simp
  have r3: "?resp = (hdr @ be16 (length rrs) @ counts @ enc_labels ?ls @ ?qt) @ ?an"
    unfolding r1 by simp
  have n: "index_u16 ?resp 6 = Done (length rrs)"
    unfolding r1 using pre rrs(2) by (intro index_u16_mid) simp_all
  have s: "skip_question_name ?resp 12 = Done (Some (12 + length (enc_labels ?ls)))"
    unfolding r2 using skip_question_name_enc [OF h, of "hdr @ be16 (length rrs) @ counts" "?qt @ ?an"] pre cnt
    by simp
  have a: "parse_answers ?resp (length rrs) (12 + length (enc_labels ?ls) + 4) = Done (first_a rrs)"
    unfolding r3
    using parse_answers_enc [OF rrs(1), of "hdr @ be16 (length rrs) @ counts @ enc_labels ?ls @ ?qt" additional]
      pre cnt by (simp add: ac_simps)
  have "\<not> length ?resp < 12" unfolding r1 using pre cnt by simp
  then show ?thesis
    using n s a unfolding parse_first_a_record_def by (cases "rrs = []") (simp_all add: try_pos_def)
qed

subsection \<open>The resolver against a network\<close>

text \<open>
  What the two servers know of a name: nothing heard in time, or a reply that fits a datagram.
  \<open>network_of\<close> is the network in which they answer the query they are asked.
\<close>

datatype server_state = Silent | Answers bytes bytes "dns_record list" bytes

fun network_of :: "(bytes \<Rightarrow> server_state) \<Rightarrow> bytes \<Rightarrow> bytes \<Rightarrow> udp_result" where
  "network_of w dns query =
     (case w dns of Silent \<Rightarrow> No_reply | Answers hdr counts rrs additional \<Rightarrow> Datagram (enc_reply query hdr counts rrs additional))"

fun server_ok :: "bytes \<Rightarrow> server_state \<Rightarrow> bool" where
  "server_ok h Silent \<longleftrightarrow> True"
| "server_ok h (Answers hdr counts rrs additional) \<longleftrightarrow> length hdr = 6 \<and> length counts = 4 \<and> list_all rr_ok rrs \<and> length rrs < 65536
     \<and> length (enc_reply (build_dns_a_query h) hdr counts rrs additional) \<le> 512"

fun knows :: "server_state \<Rightarrow> ip_addr option" where
  "knows Silent = None"
| "knows (Answers hdr counts rrs additional) = first_a rrs"

lemma resolve_loop_network:
  assumes "list_all label_ok (split_on (CHR ''.'') h)" and "\<forall>d\<in>set ds. server_ok h (w d)"
  shows "resolve_loop (network_of w) h (build_dns_a_query h) ds
    = Done (case first (List.map_filter (knows \<circ> w) ds) of Some ip \<Rightarrow> Inr ip | None \<Rightarrow> Inl (No_a_record h))"
  using assms(2)
proof (induction ds)
  case (Cons d ds)
  show ?case
  proof (cases "w d")
    case Silent
    with Cons show ?thesis by (simp add: List.map_filter_def)
  next
    case (Answers hdr counts rrs additional)
    with Cons.prems have "parse_first_a_record (take 512 (enc_reply (build_dns_a_query h) hdr counts rrs additional))
        = Done (first_a rrs)"
      using parse_first_a_record_enc [OF assms(1)] by simp
    with Cons Answers show ?thesis by (cases "first_a rrs") (simp_all add: List.map_filter_def)
  qed
qed (simp add: List.map_filter_def)

subsection \<open>Properties\<close>

definition sample_hello :: client_hello where
  "sample_hello = \<lparr>ch_record = map char_of [3, 1, 0, 90 :: nat], ch_version_random = replicate 34 (CHR ''r''),
     ch_session_id = ''sid'', ch_cipher_suites = ''cipher'', ch_compression = ''z'',
     ch_exts = [Other_ext 43 ''tls13'', Server_name ''api.openai.com'', Other_ext 16 ''alpn'']\<rparr>"

lemma sample_hello_ok: "hello_ok sample_hello"
  by (simp add: hello_ok_def sample_hello_def enc_exts_def enc_ext_def ascii_literal byte_def)

text \<open>
  C18. \<open>peek_sni\<close> reads the server name out of every well-formed ClientHello: whatever the session
  id, cipher suites, compression methods, the extensions before and after, and the bytes behind
  the message, it returns the host name of the first \<open>server_name\<close> extension, and nothing when there
  is none. When less than the whole message has arrived it returns nothing.
\<close>

theorem peek_sni_reads_hello:
  assumes "hello_ok ch"
  shows "peek_sni (enc_hello ch @ r) = Done (server_name (ch_exts ch))
    \<and> (k < length (enc_hello ch) \<longrightarrow> peek_sni (take k (enc_hello ch)) = Done None)"
  using peek_sni_enc [OF assms] peek_sni_cut [OF assms] by simp

theorem peek_sni_reads_hello_witness:
  "peek_sni (enc_hello sample_hello @ ''more'') = Done (Some ''api.openai.com'')"
  using peek_sni_reads_hello [OF sample_hello_ok, of "''more''" 0] by (simp add: sample_hello_def)

text \<open>
  Neither reader of untrusted bytes panics: \<open>peek_sni\<close> on any first bytes of a connection,
  \<open>parse_first_a_record\<close> on any datagram, and so \<open>resolve_bypass_hosts\<close> on any network, return.
\<close>

theorem wire_readers_total:
  "(\<exists>s. peek_sni buf = Done s) \<and> (\<exists>a. parse_first_a_record d = Done a)
     \<and> (\<exists>r. resolve_bypass_hosts net h = Done r)"
  by (metis outcome.exhaust peek_sni_no_panic parse_first_a_record_no_panic resolve_loop_no_panic
      resolve_bypass_hosts_def)

text \<open>
  C19. The resolver against two servers that answer the query it builds: for a host name of ordinary
  labels it returns the first A record of the first server that has one, past records of other
  types, owner names written out or as pointers, and additional sections, and
  whatever the transaction id of the reply; a silent server is
  passed over, and it fails only when neither server has an A record.
\<close>

theorem resolve_bypass_hosts_answer:
  assumes "list_all label_ok (split_on (CHR ''.'') h)"
    and "server_ok h (w ''8.8.8.8:53'')" and "server_ok h (w ''1.1.1.1:53'')"
  shows "resolve_bypass_hosts (network_of w) h =
    Done (case (knows (w ''8.8.8.8:53''), knows (w ''1.1.1.1:53'')) of
            (Some ip, _) \<Rightarrow> Inr ip | (None, Some ip) \<Rightarrow> Inr ip | (None, None) \<Rightarrow> Inl (No_a_record h))"
  using resolve_loop_network [OF assms(1), of dns_servers w] assms(2,3)
  by (simp add: resolve_bypass_hosts_def dns_servers_def List.map_filter_def split: option.splits)

definition sample_servers :: "bytes \<Rightarrow> server_state" where
  "sample_servers dns =
     (if dns = ''8.8.8.8:53'' then Silent
      else Answers ''id!!qd'' ''zzzz''
        [\<lparr>rr_name = Pointer (char_of (192 :: nat)) (char_of (12 :: nat)), rr_type = 5, rr_class_ttl = ''class!'', rr_data = ''alias''\<rparr>,
         \<lparr>rr_name = Labels [''alias'', ''com''], rr_type = 1, rr_class_ttl = ''class!'', rr_data = ''abcd''\<rparr>] ''opt'')"

theorem resolve_bypass_hosts_answer_witness:
  "resolve_bypass_hosts (network_of sample_servers) ''api.openai.com'' = Done (Inr (V4 (CHR ''a'') (CHR ''b'') (CHR ''c'') (CHR ''d'')))"
  using resolve_bypass_hosts_answer [of "''api.openai.com''" sample_servers]
  by (simp add: sample_servers_def label_ok_def rr_ok_def is_pointer_iff enc_reply_def build_dns_a_query_def
      enc_rr_def enc_labels_def dns_label_def)

text \<open>
  An owner name that ends in a pointer after some labels (RFC 1035, section 4.1.4) is not
  understood: the pointer byte is read as a label of at least 192 bytes, and the A record behind it is lost.
\<close>

theorem compressed_name_missed:
  assumes "is_pointer a" and "label_ok l" and "list_all label_ok (split_on (CHR ''.'') h)"
    and "length hdr = 6" and "length counts = 4" and "length ct = 6"
  shows "parse_first_a_record (hdr @ be16 1 @ counts @ drop 12 (build_dns_a_query h)
      @ (dns_label l @ [a, b]) @ be16 1 @ ct @ be16 4 @ [w, x, y, z]) = Done None"
proof -
  let ?ls = "split_on (CHR ''.'') h" and ?qt = "map char_of [0, 1, 0, 1 :: nat]"
  let ?rr = "be16 1 @ ct @ be16 4 @ [w, x, y, z]"
  let ?p = "hdr @ be16 1 @ counts @ enc_labels ?ls @ ?qt"
  define resp where "resp = hdr @ be16 1 @ counts @ drop 12 (build_dns_a_query h) @ (dns_label l @ [a, b]) @ ?rr"
  have r1: "resp = hdr @ be16 1 @ counts @ enc_labels ?ls @ ?qt @ dns_label l @ [a, b] @ ?rr"
    using query_question [OF assms(3)] by (simp add: resp_def)
  have r2: "resp = (hdr @ be16 1 @ counts) @ enc_labels ?ls @ ?qt @ dns_label l @ [a, b] @ ?rr"
    unfolding r1 by simp
  let ?c = "char_of (length l mod 256)"
  have r3: "resp = ?p @ ?c # l @ a # b # ?rr"
    unfolding r1 by (simp add: dns_label_def)
  have r4: "resp = (?p @ ?c # l) @ a # b # ?rr"
    using r3 by simp
  have n: "index_u16 resp 6 = Done 1"
    unfolding r1 by (intro index_u16_mid) (simp_all add: assms)
  have s: "skip_question_name resp 12 = Done (Some (12 + length (enc_labels ?ls)))"
    unfolding r2 using skip_question_name_enc [OF assms(3), of "hdr @ be16 1 @ counts" "?qt @ dns_label l @ [a, b] @ ?rr"] assms(4,5)
    by simp
  have lp: "length ?p = 12 + length (enc_labels ?ls) + 4" using assms(4,5) by simp
  have i1: "index resp (length ?p) = Done ?c" unfolding r3 by (rule index_mid) simp
  have i2: "index resp (length ?p + 1 + length l) = Done a"
    unfolding r4 by (rule index_mid) simp
  have len: "length resp = length ?p + 1 + length l + 2 + 14" unfolding r3 using assms(6) by simp
  have big: "192 \<le> byte a" using assms(1) by (simp add: is_pointer_iff)
  have e3: "skip_labels resp (length ?p + 1 + length l + 1 + byte a) = Done None"
    by (subst skip_labels.simps) (use len big in simp)
  have "skip_labels resp (length ?p + 1 + length l) = Done None"
    by (subst skip_labels.simps) (use i2 len big e3 in simp)
  then have "skip_labels resp (length ?p) = Done None"
    by (subst skip_labels.simps) (use i1 len label_first [OF assms(2)] assms(2) in \<open>simp add: label_ok_def\<close>)
  then have "parse_answers resp (Suc 0) (length ?p) = Done None"
    using i1 label_first [OF assms(2)] len by (simp add: try_pos_def)
  then have pa: "parse_answers resp 1 (12 + length (enc_labels ?ls) + 4) = Done None"
    unfolding lp by simp
  then show ?thesis
    using n s len assms(4,5) unfolding parse_first_a_record_def resp_def [symmetric]
    by (simp add: try_pos_def del: parse_answers.simps One_nat_def)
qed

theorem compressed_name_missed_witness:
  "parse_first_a_record (''id!!qd'' @ be16 1 @ ''zzzz'' @ drop 12 (build_dns_a_query ''x.com'')
      @ (dns_label ''www'' @ [char_of (192 :: nat), char_of (12 :: nat)]) @ be16 1 @ ''class!'' @ be16 4 @ ''abcd'') = Done None"
  by (rule compressed_name_missed) (simp_all add: is_pointer_iff label_ok_def)

section \<open>Formatting for the log\<close>

definition intercalate :: "bytes \<Rightarrow> bytes list \<Rightarrow> bytes" where
  "intercalate sep ss = (case ss of [] \<Rightarrow> [] | s # r \<Rightarrow> s @ concat (map (\<lambda>x. sep @ x) r))"

definition fmt_chunk_hex :: "bytes \<Rightarrow> nat \<Rightarrow> bytes" where
  "fmt_chunk_hex d mx =
     (let hex = intercalate '' '' (map (\<lambda>b. zero_pad 2 (show_hex_lower (byte b))) (take (min (length d) mx) d))
      in if mx < length d then hex @ ''...('' @ show_nat (length d) @ '' total bytes)'' else hex)"

definition sensitive_header :: "bytes \<Rightarrow> bool" where
  "sensitive_header key \<longleftrightarrow>
     (let lower = to_lowercase (trim key) in lower = ''authorization'' \<or> lower = ''x-api-key'')"

definition fmt_header_line :: "bytes \<Rightarrow> bytes" where
  "fmt_header_line line =
     (case split_once (CHR '':'') line of
        Some (key, val) \<Rightarrow> if sensitive_header key then trim key @ '': [REDACTED]'' else line
      | None \<Rightarrow> line)"

definition fmt_headers :: "bytes \<Rightarrow> bytes" where
  "fmt_headers s = intercalate [LF] (map fmt_header_line (str_lines s))"

text \<open>Two header blocks that differ in nothing but the values of credential headers.\<close>

inductive same_but_secret :: "bytes \<Rightarrow> bytes \<Rightarrow> bool" where
  same: "same_but_secret l l"
| secret: "sensitive_header k \<Longrightarrow> CHR '':'' \<notin> set k \<Longrightarrow> same_but_secret (k @ CHR '':'' # v) (k @ CHR '':'' # v')"

lemma fmt_header_line_secret: "same_but_secret l l' \<Longrightarrow> fmt_header_line l = fmt_header_line l'"
  by (induction rule: same_but_secret.induct) (simp_all add: fmt_header_line_def split_once_hd)

text \<open>
  \<open>fmt_headers\<close> leaks nothing of a credential: header blocks whose lines differ only in the
  values of \<open>authorization\<close> and \<open>x-api-key\<close> headers, in any case and with blanks around the name,
  are formatted to the same text.
\<close>

theorem fmt_headers_redacts:
  assumes "list_all2 same_but_secret (str_lines a) (str_lines b)"
  shows "fmt_headers a = fmt_headers b"
proof -
  from assms have "map fmt_header_line (str_lines a) = map fmt_header_line (str_lines b)"
    by (induction rule: list_all2_induct) (simp_all add: fmt_header_line_secret)
  then show ?thesis by (simp add: fmt_headers_def)
qed

theorem fmt_headers_redacts_witness:
  "fmt_headers (''X-Api-Key: alpha'' @ [LF] @ ''Accept: *'') = fmt_headers (''X-Api-Key: beta'' @ [LF] @ ''Accept: *'')"
proof (rule fmt_headers_redacts)
  have s: "sensitive_header ''X-Api-Key''"
    by code_simp
  have "same_but_secret (''X-Api-Key'' @ CHR '':'' # '' alpha'') (''X-Api-Key'' @ CHR '':'' # '' beta'')"
    by (rule secret [OF s]) simp
  then show "list_all2 same_but_secret (str_lines (''X-Api-Key: alpha'' @ [LF] @ ''Accept: *''))
      (str_lines (''X-Api-Key: beta'' @ [LF] @ ''Accept: *''))"
    by (simp add: str_lines_def strip_eol_def same_but_secret.same)
qed

end
