(* ===== verification/Config_Model.thy ===== *)
theory Config_Model
  imports Json_Value
begin

text \<open>
  The configuration (\<open>src/src/config.rs\<close>), the commands that change it (\<open>src/src/cmd_config.rs\<close>), and what
  the tray derives from it (\<open>src/src/tray.rs\<close>).

  Reading and writing a \<open>Config\<close> as a JSON value or as TOML is serde's work: \<open>config_codec\<close> gathers
  it as parameters, and the predicate \<open>faithful_codec\<close> states what the code relies on. The home and
  configuration directories, and which paths exist, are parameters too.
\<close>

section \<open>The configuration\<close>

record proxy_config =
  pc_listen :: bytes
  pc_dashboard :: bytes

record logging_config =
  lc_level :: bytes
  lc_format :: bytes
  lc_file :: "bytes option"
  lc_rotation :: bytes

record network_proxy_config =
  np_listen :: bytes
  np_enabled :: bool

record pii_tiers_config =
  tier_regex :: bool
  tier_ner :: bool
  tier_slm :: bool

record pii_ner_config =
  ner_model_path :: bytes
  ner_confidence_threshold :: rat
  ner_timeout_ms :: nat

record pii_slm_config =
  slm_endpoint :: bytes
  slm_timeout_ms :: nat
  slm_threshold :: rat
  slm_model_id :: "bytes option"

record pii_config =
  pii_mode_str :: bytes
  pii_tiers :: pii_tiers_config
  pii_ner :: pii_ner_config
  pii_slm :: pii_slm_config
  vault_ttl_hours :: nat
  pii_locale :: bytes
  models_dir :: bytes

record config =
  cfg_proxy :: proxy_config
  intercept_domains :: "bytes list"
  storage_logs_dir :: bytes
  cfg_logging :: logging_config
  cfg_network_proxy :: network_proxy_config
  cfg_pii :: pii_config

text \<open>The defaults. \<open>dir\<close> is \<open>default_config_dir()\<close>; a single-precision number is its exact value.\<close>

definition path_join :: "bytes \<Rightarrow> bytes \<Rightarrow> bytes" where
  "path_join a b = (if prefix ''/'' b then b else if a = [] \<or> suffix ''/'' a then a @ b else a @ ''/'' @ b)"

definition default_config_dir :: "bytes option \<Rightarrow> bytes" where
  "default_config_dir config_dir = path_join (case config_dir of Some d \<Rightarrow> d | None \<Rightarrow> ''.'') ''privacyclaw''"

definition default_proxy_config :: proxy_config where
  "default_proxy_config = \<lparr>pc_listen = ''127.0.0.1:16440'', pc_dashboard = ''127.0.0.1:16443''\<rparr>"

definition default_domains :: "bytes list" where
  "default_domains = [''api.anthropic.com'', ''api.openai.com'', ''generativelanguage.googleapis.com'',
     ''api.mistral.ai'', ''api.groq.com'']"

definition default_logging_config :: logging_config where
  "default_logging_config = \<lparr>lc_level = ''info'', lc_format = ''text'', lc_file = None, lc_rotation = ''daily''\<rparr>"

definition default_network_proxy_config :: network_proxy_config where
  "default_network_proxy_config = \<lparr>np_listen = ''127.0.0.1:16441'', np_enabled = False\<rparr>"

definition default_tiers :: pii_tiers_config where
  "default_tiers = \<lparr>tier_regex = True, tier_ner = False, tier_slm = False\<rparr>"

definition default_pii_config :: "bytes \<Rightarrow> pii_config" where
  "default_pii_config dir =
     \<lparr>pii_mode_str = ''off'', pii_tiers = default_tiers,
      pii_ner = \<lparr>ner_model_path = path_join dir ''models'', ner_confidence_threshold = 1 / 2, ner_timeout_ms = 500\<rparr>,
      pii_slm = \<lparr>slm_endpoint = ''http://127.0.0.1:16442'', slm_timeout_ms = 5000, slm_threshold = 11744051 / 16777216, slm_model_id = None\<rparr>,
      vault_ttl_hours = 24, pii_locale = ''en-US'', models_dir = path_join dir ''models''\<rparr>"

definition default_config :: "bytes \<Rightarrow> config" where
  "default_config dir =
     \<lparr>cfg_proxy = default_proxy_config, intercept_domains = default_domains,
      storage_logs_dir = path_join dir ''logs'', cfg_logging = default_logging_config,
      cfg_network_proxy = default_network_proxy_config, cfg_pii = default_pii_config dir\<rparr>"

definition is_intercepted :: "config \<Rightarrow> bytes \<Rightarrow> bool" where
  "is_intercepted cfg domain \<longleftrightarrow> list_ex (\<lambda>d. d = domain) (intercept_domains cfg)"

definition expand_tilde :: "bytes option \<Rightarrow> bytes \<Rightarrow> bytes" where
  "expand_tilde home_dir p =
     (case strip_prefix ''~/'' p of
        Some stripped \<Rightarrow> (case home_dir of Some home \<Rightarrow> path_join home stripped | None \<Rightarrow> p)
      | None \<Rightarrow> p)"

definition resolved_logs_dir :: "bytes option \<Rightarrow> config \<Rightarrow> bytes" where
  "resolved_logs_dir home_dir cfg = expand_tilde home_dir (storage_logs_dir cfg)"

definition resolved_models_dir :: "bytes option \<Rightarrow> config \<Rightarrow> bytes" where
  "resolved_models_dir home_dir cfg = expand_tilde home_dir (models_dir (cfg_pii cfg))"

section \<open>Validation and start-up\<close>

datatype config_error = Read_failed bytes | Parse_failed bytes | Serialise_failed | Invalid_after_patch | Tier2_needs_tier1
  | Write_failed bytes | Unknown_level bytes | Expected_assignment bytes

definition set_ner :: "bool \<Rightarrow> config \<Rightarrow> config" where
  "set_ner b cfg = cfg\<lparr>cfg_pii := (cfg_pii cfg)\<lparr>pii_tiers := (pii_tiers (cfg_pii cfg))\<lparr>tier_ner := b\<rparr>\<rparr>\<rparr>"

definition disable_ner_if_model_missing :: "(bytes \<Rightarrow> bool) \<Rightarrow> config \<Rightarrow> config" where
  "disable_ner_if_model_missing path_exists cfg =
     (if pii_mode_str (cfg_pii cfg) = ''replace'' \<and> tier_ner (pii_tiers (cfg_pii cfg))
         \<and> \<not> path_exists (ner_model_path (pii_ner (cfg_pii cfg)))
      then set_ner False cfg else cfg)"

definition validate_pii_tiers :: "pii_tiers_config \<Rightarrow> config_error + unit" where
  "validate_pii_tiers tiers = (if tier_ner tiers \<and> \<not> tier_regex tiers then Inl Tier2_needs_tier1 else Inr ())"

definition is_t3_standalone :: "pii_tiers_config \<Rightarrow> bool" where
  "is_t3_standalone tiers \<longleftrightarrow> tier_slm tiers \<and> \<not> tier_regex tiers \<and> \<not> tier_ner tiers"

definition requires_restart :: "config \<Rightarrow> config \<Rightarrow> bool" where
  "requires_restart old new \<longleftrightarrow>
     pc_listen (cfg_proxy old) \<noteq> pc_listen (cfg_proxy new)
     \<or> pc_dashboard (cfg_proxy old) \<noteq> pc_dashboard (cfg_proxy new)
     \<or> np_listen (cfg_network_proxy old) \<noteq> np_listen (cfg_network_proxy new)"

text \<open>
  \<open>Config::load\<close>: the file system is a function from paths to what reading them gives, \<open>None\<close> for
  no such file and \<open>Some None\<close> for a file that cannot be read.
\<close>

definition config_load :: "(bytes \<Rightarrow> bytes option option) \<Rightarrow> (bytes \<Rightarrow> config option) \<Rightarrow> bytes \<Rightarrow> bytes option
    \<Rightarrow> config_error + config" where
  "config_load files from_toml dir p =
     (let config_path = (case p of Some q \<Rightarrow> q | None \<Rightarrow> path_join dir ''config.toml'') in
      case files config_path of
        None \<Rightarrow> Inr (default_config dir)
      | Some None \<Rightarrow> Inl (Read_failed config_path)
      | Some (Some content) \<Rightarrow>
          (case from_toml content of
             None \<Rightarrow> Inl (Parse_failed config_path)
           | Some cfg \<Rightarrow> Inr (disable_ner_if_model_missing (\<lambda>q. files q \<noteq> None) cfg)))"

section \<open>The merge of a patch\<close>

definition child_path :: "bytes \<Rightarrow> bytes \<Rightarrow> bytes" where
  "child_path p key = (if p = [] then key else p @ ''.'' @ key)"

text \<open>
  The walk over a patch threads the base and the list of changed paths, as the inner \<open>recurse\<close> does
  through its mutable references; \<open>entry(key).or_insert(Null)\<close> is \<open>jindex\<close> followed by \<open>obj_insert\<close>.
\<close>

function recurse :: "json \<Rightarrow> json \<Rightarrow> bytes \<Rightarrow> bytes list \<Rightarrow> json \<times> bytes list"
  and recurse_fields :: "(bytes \<times> json) list \<Rightarrow> (bytes \<times> json) list \<Rightarrow> bytes \<Rightarrow> bytes list
    \<Rightarrow> (bytes \<times> json) list \<times> bytes list" where
  "recurse base patch p changed =
     (case (base, patch) of
        (JObj b, JObj q) \<Rightarrow> (let (b', changed') = recurse_fields b q p changed in (JObj b', changed'))
      | _ \<Rightarrow> if base \<noteq> patch then (patch, changed @ [p]) else (base, changed))"
| "recurse_fields b [] p changed = (b, changed)"
| "recurse_fields b ((key, val) # q) p changed =
     (let (entry, changed') = recurse (jindex (JObj b) key) val (child_path p key) changed
      in recurse_fields (obj_insert key entry b) q p changed')"
  by pat_completeness auto
termination
  by (relation "measure (\<lambda>x. case x of Inl (b, q, p, c) \<Rightarrow> size q | Inr (b, q, p, c) \<Rightarrow> size_list (size_prod (\<lambda>x. 0) size) q)")
    (auto simp: size_list_estimation)

definition json_deep_merge :: "json \<Rightarrow> json \<Rightarrow> json \<times> bytes list" where
  "json_deep_merge base patch = recurse base patch [] []"

section \<open>The configuration manager\<close>

record config_codec =
  to_value :: "config \<Rightarrow> json option"
  from_value :: "json \<Rightarrow> config option"
  to_toml :: "config \<Rightarrow> bytes option"

record patch_result =
  pr_ok :: bool
  restart_required :: bool
  changed_keys :: "bytes list"

record config_manager =
  inner :: config
  config_path :: "bytes option"

definition config_patch :: "config_codec \<Rightarrow> config_manager \<Rightarrow> json \<Rightarrow> config_manager \<times> (config_error + patch_result)" where
  "config_patch codec mgr patch =
     (case to_value codec (inner mgr) of
        None \<Rightarrow> (mgr, Inl Serialise_failed)
      | Some current_json \<Rightarrow>
          let (merged, changed) = json_deep_merge current_json patch in
          (case from_value codec merged of
             None \<Rightarrow> (mgr, Inl Invalid_after_patch)
           | Some new_config \<Rightarrow>
               (case validate_pii_tiers (pii_tiers (cfg_pii new_config)) of
                  Inl e \<Rightarrow> (mgr, Inl e)
                | Inr _ \<Rightarrow>
                    (mgr\<lparr>inner := new_config\<rparr>,
                     Inr \<lparr>pr_ok = True, restart_required = requires_restart (inner mgr) new_config,
                          changed_keys = changed\<rparr>))))"

text \<open>The disk is a map from paths to contents; \<open>writable\<close> says which writes succeed.\<close>

definition save_to_disk :: "config_codec \<Rightarrow> (bytes \<Rightarrow> bool) \<Rightarrow> config_manager \<Rightarrow> (bytes \<rightharpoonup> bytes)
    \<Rightarrow> (bytes \<rightharpoonup> bytes) \<times> (config_error + unit)" where
  "save_to_disk codec writable mgr disk =
     (case config_path mgr of
        None \<Rightarrow> (disk, Inr ())
      | Some p \<Rightarrow>
          (case to_toml codec (inner mgr) of
             None \<Rightarrow> (disk, Inl Serialise_failed)
           | Some toml_str \<Rightarrow> if writable p then (disk(p \<mapsto> toml_str), Inr ()) else (disk, Inl (Write_failed p))))"

section \<open>Commands\<close>

definition tier_patch :: "bytes \<Rightarrow> bool \<Rightarrow> bool \<Rightarrow> bool \<Rightarrow> json" where
  "tier_patch mode regex ner slm =
     json_obj [(''pii'', json_obj [(''mode'', JStr mode),
       (''tiers'', json_obj [(''regex'', JBool regex), (''ner'', JBool ner), (''slm'', JBool slm)])])]"

definition protection_level_to_patch :: "bytes \<Rightarrow> config_error + json" where
  "protection_level_to_patch level =
     (if level = ''off'' then Inr (tier_patch ''off'' False False False)
      else if level = ''detect'' then Inr (tier_patch ''detect-only'' True False False)
      else if level = ''1'' then Inr (tier_patch ''replace'' True False False)
      else if level = ''2'' then Inr (tier_patch ''replace'' True True False)
      else if level = ''3'' then Inr (tier_patch ''replace'' True True True)
      else if level = ''intelligent'' then Inr (tier_patch ''replace'' False False True)
      else Inl (Unknown_level level))"

text \<open>\<open>parse::<bool>\<close>, \<open>parse::<i64>\<close> and the number of a JSON value made from an \<open>i64\<close>.\<close>

definition parse_bool :: "bytes \<Rightarrow> bool option" where
  "parse_bool s = (if s = ''true'' then Some True else if s = ''false'' then Some False else None)"

definition parse_i64 :: "bytes \<Rightarrow> int option" where
  "parse_i64 s =
     (case s of
        c # d # ds \<Rightarrow>
          if c = CHR ''-'' then map_option (\<lambda>n. - int n) (foldl (push_digit 10 (2 ^ 63)) (Some 0) (d # ds))
          else map_option int (parse_uint 10 (2 ^ 63 - 1) s)
      | _ \<Rightarrow> map_option int (parse_uint 10 (2 ^ 63 - 1) s))"

definition json_of_i64 :: "int \<Rightarrow> json" where
  "json_of_i64 n = JNum (if n < 0 then NegInt n else PosInt (nat n))"

definition leaf_value :: "bytes \<Rightarrow> json" where
  "leaf_value raw_val =
     (case parse_bool raw_val of Some b \<Rightarrow> JBool b
      | None \<Rightarrow> (case parse_i64 raw_val of Some n \<Rightarrow> json_of_i64 n | None \<Rightarrow> JStr raw_val))"

definition dot_path_to_json :: "bytes \<Rightarrow> bytes \<Rightarrow> json" where
  "dot_path_to_json key raw_val =
     fold (\<lambda>seg acc. JObj [(seg, acc)]) (rev (split_on (CHR ''.'') key)) (leaf_value raw_val)"

text \<open>\<open>config set KEY=VALUE\<close>: split at the first equals sign, patch, save.\<close>

definition set_config :: "config_codec \<Rightarrow> (bytes \<Rightarrow> bool) \<Rightarrow> config_manager \<Rightarrow> (bytes \<rightharpoonup> bytes) \<Rightarrow> bytes
    \<Rightarrow> config_manager \<times> (bytes \<rightharpoonup> bytes) \<times> (config_error + patch_result)" where
  "set_config codec writable mgr disk assignment =
     (case split_once (CHR ''='') assignment of
        None \<Rightarrow> (mgr, disk, Inl (Expected_assignment assignment))
      | Some (key, raw_val) \<Rightarrow>
          (case config_patch codec mgr (dot_path_to_json key raw_val) of
             (mgr', Inl e) \<Rightarrow> (mgr', disk, Inl e)
           | (mgr', Inr result) \<Rightarrow>
               (case save_to_disk codec writable mgr' disk of
                  (disk', Inl e) \<Rightarrow> (mgr', disk', Inl e)
                | (disk', Inr _) \<Rightarrow> (mgr', disk', Inr result))))"

section \<open>What the tray shows\<close>

definition derive_pii_level :: "bytes \<Rightarrow> bool \<Rightarrow> bool \<Rightarrow> bool \<Rightarrow> bytes" where
  "derive_pii_level mode regex ner slm =
     (if mode = ''off'' then ''off''
      else if mode = ''detect-only'' then ''detect-only''
      else if mode = ''replace'' then
        (if regex \<and> ner \<and> slm then ''3''
         else if regex \<and> ner \<and> \<not> slm then ''2''
         else if regex \<and> \<not> ner \<and> \<not> slm then ''1''
         else if \<not> regex \<and> \<not> ner \<and> slm then ''intelligent''
         else ''off'')
      else ''off'')"

record pii_menu_item =
  item_enabled :: bool
  item_checked :: bool

definition menu_item :: "bytes \<Rightarrow> bytes \<Rightarrow> pii_menu_item" where
  "menu_item level pii_level = \<lparr>item_enabled = (pii_level \<noteq> level), item_checked = (pii_level = level)\<rparr>"

record pii_menu =
  ms_off :: pii_menu_item
  ms_detect :: pii_menu_item
  ms_t1 :: pii_menu_item
  ms_t2 :: pii_menu_item
  ms_t3 :: pii_menu_item
  ms_intelligent :: pii_menu_item

definition pii_menu_states :: "bytes \<Rightarrow> pii_menu" where
  "pii_menu_states pii_level =
     \<lparr>ms_off = menu_item ''off'' pii_level, ms_detect = menu_item ''detect-only'' pii_level,
      ms_t1 = menu_item ''1'' pii_level, ms_t2 = menu_item ''2'' pii_level, ms_t3 = menu_item ''3'' pii_level,
      ms_intelligent = menu_item ''intelligent'' pii_level\<rparr>"

section \<open>Laws of the merge\<close>

declare recurse.simps [simp del]

lemma recurse_obj:
  "recurse (JObj b) (JObj q) p ch = (JObj (fst (recurse_fields b q p ch)), snd (recurse_fields b q p ch))"
  by (subst recurse.simps) (simp add: case_prod_unfold Let_def)

lemma recurse_leaf:
  "\<not> (\<exists>b q. base = JObj b \<and> patch = JObj q) \<Longrightarrow>
     recurse base patch p ch = (patch, ch @ (if base \<noteq> patch then [p] else []))"
  by (subst recurse.simps) (cases base; cases patch; auto)

lemma recurse_fields_Cons:
  "recurse_fields b ((k, v) # q) p ch =
     recurse_fields (obj_insert k (fst (recurse (jindex (JObj b) k) v (child_path p k) ch)) b) q p
       (snd (recurse (jindex (JObj b) k) v (child_path p k) ch))"
  by (simp add: case_prod_unfold Let_def)

declare recurse_fields.simps(2) [simp del]

fun json_ok :: "json \<Rightarrow> bool" where
  "json_ok (JObj m) \<longleftrightarrow> sorted_wrt bytes_less (map fst m) \<and> list_all (\<lambda>kv. json_ok (snd kv)) m"
| "json_ok (JArr xs) \<longleftrightarrow> list_all json_ok xs"
| "json_ok v \<longleftrightarrow> True"

fun is_obj :: "json \<Rightarrow> bool" where
  "is_obj (JObj m) \<longleftrightarrow> True"
| "is_obj v \<longleftrightarrow> False"

lemma is_obj_iff: "is_obj v \<longleftrightarrow> (\<exists>m. v = JObj m)"
  by (cases v) auto

text \<open>
  The reference: the value that results and the key paths at which it was changed, each on its own
  and without accumulators.
\<close>

function overlay :: "json \<Rightarrow> json \<Rightarrow> json"
  and overlay_fields :: "(bytes \<times> json) list \<Rightarrow> (bytes \<times> json) list \<Rightarrow> (bytes \<times> json) list" where
  "overlay base patch =
     (case (base, patch) of (JObj b, JObj q) \<Rightarrow> JObj (overlay_fields b q) | _ \<Rightarrow> patch)"
| "overlay_fields b [] = b"
| "overlay_fields b ((k, v) # q) = overlay_fields (obj_insert k (overlay (jindex (JObj b) k) v) b) q"
  by pat_completeness auto
termination
  by (relation "measure (\<lambda>x. case x of Inl (b, q) \<Rightarrow> size q | Inr (b, q) \<Rightarrow> size_list (size_prod (\<lambda>x. 0) size) q)") auto

function diffs :: "json \<Rightarrow> json \<Rightarrow> bytes list list"
  and diff_fields :: "(bytes \<times> json) list \<Rightarrow> (bytes \<times> json) list \<Rightarrow> bytes list list" where
  "diffs base patch =
     (case (base, patch) of (JObj b, JObj q) \<Rightarrow> diff_fields b q | _ \<Rightarrow> if base \<noteq> patch then [[]] else [])"
| "diff_fields b [] = []"
| "diff_fields b ((k, v) # q) =
     map (Cons k) (diffs (jindex (JObj b) k) v) @ diff_fields (obj_insert k (overlay (jindex (JObj b) k) v) b) q"
  by pat_completeness auto
termination
  by (relation "measure (\<lambda>x. case x of Inl (b, q) \<Rightarrow> size q | Inr (b, q) \<Rightarrow> size_list (size_prod (\<lambda>x. 0) size) q)") auto

declare overlay.simps [simp del] diffs.simps [simp del]

fun dotted :: "bytes \<Rightarrow> bytes list \<Rightarrow> bytes" where
  "dotted p [] = p"
| "dotted p (k # ks) = dotted (child_path p k) ks"

lemma overlay_obj [simp]: "overlay (JObj b) (JObj q) = JObj (overlay_fields b q)"
  by (simp add: overlay.simps)

lemma overlay_leaf: "\<not> (is_obj b \<and> is_obj q) \<Longrightarrow> overlay b q = q"
  by (cases b; cases q) (simp_all add: overlay.simps)

lemma diffs_obj [simp]: "diffs (JObj b) (JObj q) = diff_fields b q"
  by (simp add: diffs.simps)

lemma diffs_leaf: "\<not> (is_obj b \<and> is_obj q) \<Longrightarrow> diffs b q = (if b \<noteq> q then [[]] else [])"
  by (cases b; cases q) (simp_all add: diffs.simps)

lemma recurse_ref:
  "\<forall>p ch. recurse b q p ch = (overlay b q, ch @ map (dotted p) (diffs b q))"
  "\<forall>p ch. recurse_fields m r p ch = (overlay_fields m r, ch @ map (dotted p) (diff_fields m r))"
proof (induction b q and m r rule: overlay_overlay_fields.induct)
  case (1 b q)
  show ?case
  proof (cases "is_obj b \<and> is_obj q")
    case True
    with 1 show ?thesis by (auto simp: is_obj_iff recurse_obj)
  next
    case False
    then show ?thesis by (simp add: recurse_leaf overlay_leaf diffs_leaf is_obj_iff)
  qed
next
  case (3 b k v q)
  then show ?case by (simp add: recurse_fields_Cons comp_def)
qed simp

lemma json_deep_merge_ref: "json_deep_merge b q = (overlay b q, map (dotted []) (diffs b q))"
  by (simp add: json_deep_merge_def recurse_ref(1))

subsection \<open>The merge on key paths\<close>

definition at_path :: "json \<Rightarrow> bytes list \<Rightarrow> json option" where
  "at_path v ks = pointer_get v (map Key ks)"

lemma at_path_simps [simp]:
  "at_path v [] = Some v" "at_path v (k # ks) = obind (jget v k) (\<lambda>w. at_path w ks)"
  by (simp_all add: at_path_def)

text \<open>Does the patch say anything at or above this path?\<close>

fun touches :: "json \<Rightarrow> bytes list \<Rightarrow> bool" where
  "touches (JObj m) (k # ks) \<longleftrightarrow> (case map_of m k of Some v \<Rightarrow> touches v ks | None \<Rightarrow> False)"
| "touches v ks \<longleftrightarrow> True"

lemma bytes_less_irrefl [simp]: "\<not> bytes_less a a"
  by (induction a) auto

lemma sorted_keys_distinct: "sorted_wrt bytes_less ks \<Longrightarrow> distinct ks"
  by (induction ks) auto

lemma json_ok_keys: "json_ok (JObj m) \<Longrightarrow> distinct (map fst m)"
  by (simp add: sorted_keys_distinct)

lemma json_ok_field: "json_ok (JObj m) \<Longrightarrow> map_of m k = Some v \<Longrightarrow> json_ok v"
  by (fastforce simp: list_all_iff dest: map_of_SomeD)

lemma jindex_insert: "k' \<noteq> k \<Longrightarrow> jindex (JObj (obj_insert k v m)) k' = jindex (JObj m) k'"
  by (simp add: jindex_def map_of_obj_insert)

lemma map_of_overlay_fields:
  "distinct (map fst q) \<Longrightarrow> map_of (overlay_fields b q) k =
     (case map_of q k of None \<Rightarrow> map_of b k | Some v \<Rightarrow> Some (overlay (jindex (JObj b) k) v))"
proof (induction q arbitrary: b)
  case (Cons kv q)
  obtain k0 v0 where kv: "kv = (k0, v0)" by fastforce
  have d: "distinct (map fst q)" "map_of q k0 = None"
    using Cons.prems by (auto simp: kv map_of_eq_None_iff)
  show ?case
  proof (cases "k = k0")
    case True
    then show ?thesis using Cons.IH [OF d(1)] d(2) by (simp add: kv map_of_obj_insert)
  next
    case False
    then show ?thesis using Cons.IH [OF d(1)] by (simp add: kv map_of_obj_insert jindex_insert split: option.split)
  qed
qed simp

lemma set_diff_fields:
  "distinct (map fst q) \<Longrightarrow> ks \<in> set (diff_fields b q) \<longleftrightarrow>
     (\<exists>k v js. map_of q k = Some v \<and> ks = k # js \<and> js \<in> set (diffs (jindex (JObj b) k) v))"
proof (induction q arbitrary: b)
  case (Cons kv q)
  obtain k0 v0 where kv: "kv = (k0, v0)" by fastforce
  have d: "distinct (map fst q)" "map_of q k0 = None"
    using Cons.prems by (auto simp: kv map_of_eq_None_iff)
  let ?b = "obj_insert k0 (overlay (jindex (JObj b) k0) v0) b"
  have "ks \<in> set (diff_fields ?b q) \<longleftrightarrow>
      (\<exists>k v js. map_of q k = Some v \<and> ks = k # js \<and> js \<in> set (diffs (jindex (JObj ?b) k) v))"
    by (rule Cons.IH [OF d(1)])
  moreover have "map_of q k = Some v \<Longrightarrow> jindex (JObj ?b) k = jindex (JObj b) k" for k v
    using d(2) by (intro jindex_insert) auto
  moreover have "map_of (kv # q) k = Some v \<longleftrightarrow> k = k0 \<and> v = v0 \<or> map_of q k = Some v" for k v
    using d(2) by (auto simp: kv)
  moreover have "set (diff_fields b (kv # q)) = Cons k0 ` set (diffs (jindex (JObj b) k0) v0) \<union> set (diff_fields ?b q)"
    by (simp add: kv)
  ultimately show ?case by (auto simp del: map_of.simps)
qed simp

lemma overlay_patched_leaf:
  "json_ok q \<Longrightarrow> at_path q ks = Some x \<Longrightarrow> \<not> is_obj x \<Longrightarrow> at_path (overlay b q) ks = Some x"
proof (induction ks arbitrary: b q)
  case Nil
  then show ?case by (simp add: overlay_leaf)
next
  case (Cons k ks)
  then obtain m v where q: "q = JObj m" "map_of m k = Some v" "at_path v ks = Some x"
    by (cases q) (auto simp: obind_Some_iff)
  show ?case
  proof (cases "is_obj b")
    case True
    then obtain n where b: "b = JObj n" by (auto simp: is_obj_iff)
    have "at_path (overlay (jindex b k) v) ks = Some x"
      using Cons.IH [OF json_ok_field q(3)] Cons.prems q by blast
    then show ?thesis using map_of_overlay_fields [OF json_ok_keys] Cons.prems(1) q b by simp
  next
    case False
    then show ?thesis using Cons.prems(2) by (simp add: overlay_leaf)
  qed
qed

lemma untouched_none: "\<not> touches q ks \<Longrightarrow> at_path q ks = None"
  by (induction q ks rule: touches.induct) (auto split: option.splits)

lemma overlay_frame:
  "json_ok q \<Longrightarrow> \<not> touches q ks \<Longrightarrow> at_path (overlay b q) ks = at_path b ks"
proof (induction ks arbitrary: b q)
  case Nil
  then show ?case by (cases q) simp_all
next
  case (Cons k ks)
  then obtain m where q: "q = JObj m" by (cases q) auto
  show ?case
  proof (cases b)
    case (JObj n)
    show ?thesis
    proof (cases "map_of m k")
      case None
      then show ?thesis using map_of_overlay_fields [OF json_ok_keys, of m n k] Cons.prems(1) q JObj by simp
    next
      case (Some v)
      have nt: "\<not> touches v ks" using Cons.prems(2) q Some by simp
      have IH: "at_path (overlay w v) ks = at_path w ks" for w
        using Cons.IH [OF json_ok_field nt] Cons.prems(1) q Some by blast
      have "at_path JNull ks = None" if "map_of n k = None"
        using nt by (cases ks) simp_all
      then show ?thesis
        using map_of_overlay_fields [OF json_ok_keys, of m n k] Cons.prems(1) q JObj Some IH
        by (cases "map_of n k") (simp_all add: jindex_def)
    qed
  qed (use untouched_none [OF Cons.prems(2)] in \<open>simp_all add: overlay_leaf\<close>)
qed

lemma diffs_changed:
  "json_ok q \<Longrightarrow> ks \<in> set (diffs b q) \<Longrightarrow> at_path (overlay b q) ks \<noteq> at_path b ks"
proof (induction ks arbitrary: b q)
  case Nil
  have "\<not> (is_obj b \<and> is_obj q)"
    using Nil set_diff_fields [OF json_ok_keys] by (auto simp: is_obj_iff)
  with Nil show ?case by (simp add: overlay_leaf diffs_leaf split: if_splits)
next
  case (Cons k ks)
  then obtain n m where bq: "b = JObj n" "q = JObj m"
    by (cases "is_obj b \<and> is_obj q") (auto simp: is_obj_iff diffs_leaf split: if_splits)
  then obtain v where v: "map_of m k = Some v" "ks \<in> set (diffs (jindex b k) v)"
    using Cons.prems set_diff_fields [OF json_ok_keys] by auto
  have "at_path (overlay (jindex b k) v) ks \<noteq> at_path (jindex b k) ks"
    using Cons.IH [OF json_ok_field v(2)] Cons.prems(1) bq v(1) by blast
  moreover have "at_path JNull ks = None" if "ks \<noteq> []" using that by (cases ks) simp_all
  moreover have "at_path (overlay JNull v) ks \<noteq> None" if "ks = []" using that by simp
  ultimately show ?case
    using map_of_overlay_fields [OF json_ok_keys, of m n k] Cons.prems(1) bq v(1)
    by (cases "map_of n k"; cases "ks = []") (auto simp: jindex_def)
qed

lemma diffs_complete:
  assumes "json_ok q" and "at_path (overlay b q) ks = Some x" and "\<not> is_obj x"
  shows "at_path b ks = Some x \<or> x = JNull \<and> at_path b ks = None \<or> (\<exists>js\<in>set (diffs b q). prefix js ks)"
  using assms
proof (induction ks arbitrary: b q)
  case Nil
  then have "\<not> (is_obj b \<and> is_obj q)" by (auto simp: is_obj_iff)
  with Nil show ?case by (simp add: overlay_leaf diffs_leaf)
next
  case (Cons k ks)
  show ?case
  proof (cases "is_obj b \<and> is_obj q")
    case False
    then show ?thesis using Cons.prems by (auto simp: overlay_leaf diffs_leaf)
  next
    case True
    then obtain n m where bq: "b = JObj n" "q = JObj m" by (auto simp: is_obj_iff)
    note look = map_of_overlay_fields [OF json_ok_keys, of m n k]
    show ?thesis
    proof (cases "map_of m k")
      case None
      then show ?thesis using look Cons.prems bq by simp
    next
      case (Some v)
      have "at_path (overlay (jindex b k) v) ks = Some x" using look Cons.prems bq Some by simp
      then have IH: "at_path (jindex b k) ks = Some x \<or> x = JNull \<and> at_path (jindex b k) ks = None
          \<or> (\<exists>js\<in>set (diffs (jindex b k) v). prefix js ks)"
        using Cons.IH [OF json_ok_field [OF Cons.prems(1) [unfolded bq(2)] Some]] Cons.prems(3) by simp
      have deeper: "\<exists>js\<in>set (diffs b q). prefix js (k # ks)" if "js \<in> set (diffs (jindex b k) v)" "prefix js ks" for js
        using that set_diff_fields [OF json_ok_keys, of m "k # js" n] Cons.prems(1) bq Some
        by (intro bexI [of _ "k # js"]) auto
      have "at_path JNull ks = (if ks = [] then Some JNull else None)" by (cases ks) simp_all
      with IH deeper show ?thesis
        by (cases "map_of n k"; cases "ks = []") (auto simp: bq jindex_def)
    qed
  qed
qed

text \<open>
  C20. A patch changes what it names and nothing else, and says so. For a patch \<open>q\<close> the merge gives
  a value \<open>v\<close> and the dotted forms of key paths \<open>ds\<close> such that every value that is not an object in
  the patch is in \<open>v\<close> at the same path; a path the patch does not touch has in \<open>v\<close> what it has in
  the base; at every reported path \<open>v\<close> differs from the base; and where \<open>v\<close> has another value than
  the base, the path or one above it is reported, with one exception: a \<open>null\<close> for a key that the
  base does not have is inserted silently.
\<close>

theorem json_deep_merge_spec:
  assumes "json_ok q"
  shows "\<exists>ds. snd (json_deep_merge b q) = map (dotted []) ds
    \<and> (\<forall>ks x. at_path q ks = Some x \<and> \<not> is_obj x \<longrightarrow> at_path (fst (json_deep_merge b q)) ks = Some x)
    \<and> (\<forall>ks. \<not> touches q ks \<longrightarrow> at_path (fst (json_deep_merge b q)) ks = at_path b ks)
    \<and> (\<forall>ks\<in>set ds. at_path (fst (json_deep_merge b q)) ks \<noteq> at_path b ks)
    \<and> (\<forall>ks x. at_path (fst (json_deep_merge b q)) ks = Some x \<and> \<not> is_obj x \<longrightarrow>
         at_path b ks = Some x \<or> x = JNull \<and> at_path b ks = None \<or> (\<exists>js\<in>set ds. prefix js ks))"
  using overlay_patched_leaf [OF assms] overlay_frame [OF assms] diffs_changed [OF assms] diffs_complete [OF assms]
  by (intro exI [of _ "diffs b q"]) (simp add: json_deep_merge_ref)

definition sample_base :: json where
  "sample_base = json_obj [(''pii'', json_obj [(''mode'', JStr ''off''), (''locale'', JStr ''en-US'')])]"

definition sample_patch :: json where
  "sample_patch = json_obj [(''pii'', json_obj [(''mode'', JStr ''replace'')])]"

theorem json_deep_merge_spec_witness:
  "at_path (fst (json_deep_merge sample_base sample_patch)) [''pii'', ''mode''] = Some (JStr ''replace'')"
proof -
  have "json_ok sample_patch" "at_path sample_patch [''pii'', ''mode''] = Some (JStr ''replace'')"
    by (simp_all add: sample_patch_def json_obj_def)
  with json_deep_merge_spec [of sample_patch sample_base] show ?thesis by fastforce
qed

section \<open>The manager keeps its tiers valid\<close>

definition tiers_valid :: "config \<Rightarrow> bool" where
  "tiers_valid cfg \<longleftrightarrow> (tier_ner (pii_tiers (cfg_pii cfg)) \<longrightarrow> tier_regex (pii_tiers (cfg_pii cfg)))"

lemma validate_pii_tiers_iff: "validate_pii_tiers (pii_tiers (cfg_pii cfg)) = Inr () \<longleftrightarrow> tiers_valid cfg"
  by (simp add: validate_pii_tiers_def tiers_valid_def)

lemma config_patch_cases:
  obtains (err) e where "config_patch codec mgr patch = (mgr, Inl e)"
  | (ok) v cfg where "to_value codec (inner mgr) = Some v"
      "from_value codec (fst (json_deep_merge v patch)) = Some cfg" "tiers_valid cfg"
      "config_patch codec mgr patch = (mgr\<lparr>inner := cfg\<rparr>,
         Inr \<lparr>pr_ok = True, restart_required = requires_restart (inner mgr) cfg,
              changed_keys = snd (json_deep_merge v patch)\<rparr>)"
proof (cases "to_value codec (inner mgr)")
  case None
  then show ?thesis using err by (simp add: config_patch_def)
next
  case v: (Some v)
  show ?thesis
  proof (cases "from_value codec (fst (json_deep_merge v patch))")
    case None
    then show ?thesis using v err by (simp add: config_patch_def case_prod_unfold Let_def)
  next
    case (Some cfg)
    show ?thesis
    proof (cases "tiers_valid cfg")
      case True
      then have "validate_pii_tiers (pii_tiers (cfg_pii cfg)) = Inr ()" by (simp add: validate_pii_tiers_iff)
      then show ?thesis using v Some True ok by (simp add: config_patch_def case_prod_unfold Let_def)
    next
      case False
      then have "validate_pii_tiers (pii_tiers (cfg_pii cfg)) = Inl Tier2_needs_tier1"
        by (auto simp: validate_pii_tiers_def tiers_valid_def)
      then show ?thesis using v Some err by (simp add: config_patch_def case_prod_unfold Let_def)
    qed
  qed
qed

text \<open>The managers that a series of patches, accepted or refused, can lead to.\<close>

inductive patched :: "config_codec \<Rightarrow> config_manager \<Rightarrow> config_manager \<Rightarrow> bool" for codec where
  start: "patched codec mgr mgr"
| patch: "patched codec mgr mgr' \<Longrightarrow> patched codec mgr (fst (config_patch codec mgr' q))"


section \<open>Protection levels\<close>

text \<open>What the code relies on of serde, for the fields the protection levels write.\<close>

definition set_mode :: "bytes \<Rightarrow> config \<Rightarrow> config" where
  "set_mode m cfg = cfg\<lparr>cfg_pii := (cfg_pii cfg)\<lparr>pii_mode_str := m\<rparr>\<rparr>"

definition set_regex :: "bool \<Rightarrow> config \<Rightarrow> config" where
  "set_regex b cfg = cfg\<lparr>cfg_pii := (cfg_pii cfg)\<lparr>pii_tiers := (pii_tiers (cfg_pii cfg))\<lparr>tier_regex := b\<rparr>\<rparr>\<rparr>"

definition set_slm :: "bool \<Rightarrow> config \<Rightarrow> config" where
  "set_slm b cfg = cfg\<lparr>cfg_pii := (cfg_pii cfg)\<lparr>pii_tiers := (pii_tiers (cfg_pii cfg))\<lparr>tier_slm := b\<rparr>\<rparr>\<rparr>"

definition field_law :: "config_codec \<Rightarrow> bytes list \<Rightarrow> (config \<Rightarrow> 'a) \<Rightarrow> ('a \<Rightarrow> config \<Rightarrow> config) \<Rightarrow> ('a \<Rightarrow> json) \<Rightarrow> bool" where
  "field_law codec ks get put enc \<longleftrightarrow>
     (\<forall>cfg v x. to_value codec cfg = Some v \<longrightarrow> at_path v ks = Some (enc (get cfg))
        \<and> to_value codec (put x cfg) = Some (pointer_set (map Key ks) (enc x) v))"

definition faithful_codec :: "config_codec \<Rightarrow> bool" where
  "faithful_codec codec \<longleftrightarrow>
     (\<forall>cfg. \<exists>v. to_value codec cfg = Some v \<and> json_ok v \<and> from_value codec v = Some cfg)
     \<and> field_law codec [''pii'', ''mode''] (\<lambda>c. pii_mode_str (cfg_pii c)) set_mode JStr
     \<and> field_law codec [''pii'', ''tiers'', ''ner''] (\<lambda>c. tier_ner (pii_tiers (cfg_pii c))) set_ner JBool
     \<and> field_law codec [''pii'', ''tiers'', ''regex''] (\<lambda>c. tier_regex (pii_tiers (cfg_pii c))) set_regex JBool
     \<and> field_law codec [''pii'', ''tiers'', ''slm''] (\<lambda>c. tier_slm (pii_tiers (cfg_pii c))) set_slm JBool"

text \<open>A patch with one leaf is an assignment at its path, one with several is a sequence of them.\<close>

fun nest :: "bytes list \<Rightarrow> json \<Rightarrow> json" where
  "nest [] x = x"
| "nest (k # ks) x = JObj [(k, nest ks x)]"

lemma bytes_less_trans: "bytes_less a b \<Longrightarrow> bytes_less b c \<Longrightarrow> bytes_less a c"
  by (induction a b arbitrary: c rule: bytes_less.induct) (case_tac c; auto)+

lemma bytes_less_asym: "bytes_less a b \<Longrightarrow> \<not> bytes_less b a"
  using bytes_less_trans bytes_less_irrefl by blast

lemma obj_insert_present:
  "sorted_wrt bytes_less (map fst m) \<Longrightarrow> map_of m k = Some w \<Longrightarrow> obj_insert k (f w) m = map_entry k f m"
proof (induction m)
  case (Cons kv m)
  obtain k0 v0 where kv: "kv = (k0, v0)" by fastforce
  show ?case
  proof (cases "k = k0")
    case True
    then show ?thesis using Cons.prems by (simp add: kv)
  next
    case False
    then have k: "map_of m k = Some w" using Cons.prems by (simp add: kv)
    then have "bytes_less k0 k" using Cons.prems(1) by (force simp: kv dest: map_of_SomeD)
    then have "\<not> bytes_less k k0" by (rule bytes_less_asym)
    with False k Cons show ?thesis by (simp add: kv)
  qed
qed simp

lemma overlay_nest_leaf:
  "json_ok v \<Longrightarrow> at_path v ks = Some w \<Longrightarrow> \<not> is_obj x \<Longrightarrow>
     overlay v (nest ks x) = pointer_set (map Key ks) x v
     \<and> diffs v (nest ks x) = (if w \<noteq> x then [ks] else [])"
proof (induction ks arbitrary: v)
  case Nil
  then show ?case by (simp add: overlay_leaf diffs_leaf)
next
  case (Cons k ks)
  then obtain m u where m: "v = JObj m" "map_of m k = Some u" "at_path u ks = Some w"
    by (cases v) (auto simp: obind_Some_iff)
  have IH: "overlay u (nest ks x) = pointer_set (map Key ks) x u" "diffs u (nest ks x) = (if w \<noteq> x then [ks] else [])"
    using Cons.IH [OF json_ok_field m(3)] Cons.prems m by blast+
  show ?case
    using IH m Cons.prems(1) obj_insert_present [of m k u "pointer_set (map Key ks) x"] by (simp add: jindex_def)
qed

lemma obj_insert_twice: "obj_insert k b (obj_insert k a m) = obj_insert k b m"
  by (induction m) auto

lemma overlay_nest_Cons:
  "at_path v ks = Some (JObj m) \<Longrightarrow>
     overlay v (nest ks (JObj ((k, x) # q))) = overlay (overlay v (nest (ks @ [k]) x)) (nest ks (JObj q))
     \<and> diffs v (nest ks (JObj ((k, x) # q)))
        = diffs v (nest (ks @ [k]) x) @ diffs (overlay v (nest (ks @ [k]) x)) (nest ks (JObj q))"
proof (induction ks arbitrary: v)
  case Nil
  then show ?case by simp
next
  case (Cons k0 ks)
  then obtain n u where n: "v = JObj n" "map_of n k0 = Some u" "at_path u ks = Some (JObj m)"
    by (cases v) (auto simp: obind_Some_iff)
  show ?case
    using Cons.IH [OF n(3)] by (simp add: n jindex_def map_of_obj_insert obj_insert_twice)
qed

lemma json_ok_map_entry:
  "json_ok (JObj m) \<Longrightarrow> (\<And>u. map_of m k = Some u \<Longrightarrow> json_ok (f u)) \<Longrightarrow> json_ok (JObj (map_entry k f m))"
proof -
  have keys: "map fst (map_entry k f m) = map fst m" by (induction m) auto
  assume a: "json_ok (JObj m)" "\<And>u. map_of m k = Some u \<Longrightarrow> json_ok (f u)"
  have "list_all (\<lambda>kv. json_ok (snd kv)) m \<Longrightarrow> (\<And>u. map_of m k = Some u \<Longrightarrow> json_ok (f u)) \<Longrightarrow>
      list_all (\<lambda>kv. json_ok (snd kv)) (map_entry k f m)"
    by (induction m) auto
  with a show ?thesis by (simp add: keys)
qed

lemma json_ok_pointer_set: "json_ok v \<Longrightarrow> json_ok x \<Longrightarrow> json_ok (pointer_set (map Key ks) x v)"
proof (induction ks arbitrary: v)
  case (Cons k ks)
  then show ?case
  proof (cases v)
    case (JObj m)
    then show ?thesis using Cons json_ok_map_entry [of m k] json_ok_field [of m k] by simp
  qed simp_all
qed simp

lemma at_path_append: "at_path v (ks @ js) = obind (at_path v ks) (\<lambda>w. at_path w js)"
proof (induction ks arbitrary: v)
  case (Cons k ks)
  then show ?case by (cases "jget v k") simp_all
qed simp

lemma at_path_parent: "at_path v (ks @ [k]) = Some w \<Longrightarrow> \<exists>m. at_path v ks = Some (JObj m)"
proof -
  assume "at_path v (ks @ [k]) = Some w"
  then obtain u where u: "at_path v ks = Some u" "jget u k = Some w" by (auto simp: at_path_append obind_Some_iff)
  then show ?thesis by (cases u) simp_all
qed

lemma nest_snoc: "nest ks (JObj [(k, x)]) = nest (ks @ [k]) x"
  by (induction ks) simp_all

lemma field_law_step:
  assumes "field_law codec (ks @ [k]) get put enc" and "to_value codec cfg = Some v" and "json_ok v"
    and "\<not> is_obj (enc x)" and "json_ok (enc x)" and "inj enc"
  obtains v' where "to_value codec (put x cfg) = Some v'" and "json_ok v'"
    and "overlay v (nest ks (JObj ((k, enc x) # q))) = overlay v' (nest ks (JObj q))"
    and "diffs v (nest ks (JObj ((k, enc x) # q)))
       = (if get cfg \<noteq> x then [ks @ [k]] else []) @ diffs v' (nest ks (JObj q))"
    and "overlay v (nest ks (JObj [(k, enc x)])) = v'"
    and "diffs v (nest ks (JObj [(k, enc x)])) = (if get cfg \<noteq> x then [ks @ [k]] else [])"
proof -
  let ?v' = "pointer_set (map Key (ks @ [k])) (enc x) v"
  have at: "at_path v (ks @ [k]) = Some (enc (get cfg))" and put: "to_value codec (put x cfg) = Some ?v'"
    using assms(1,2) by (simp_all add: field_law_def)
  obtain m where m: "at_path v ks = Some (JObj m)" using at_path_parent [OF at] by blast
  note leaf = overlay_nest_leaf [OF assms(3) at assms(4)]
  have eq: "enc (get cfg) \<noteq> enc x \<longleftrightarrow> get cfg \<noteq> x" using assms(6) by (auto dest: injD)
  show ?thesis
    using that [OF put json_ok_pointer_set [OF assms(3,5)]] leaf overlay_nest_Cons [OF m, of k "enc x" q]
    by (simp add: nest_snoc eq)
qed

definition level_keys :: "config \<Rightarrow> bytes \<Rightarrow> bool \<Rightarrow> bool \<Rightarrow> bool \<Rightarrow> bytes list" where
  "level_keys cfg m r n s =
     (if pii_mode_str (cfg_pii cfg) \<noteq> m then [''pii.mode''] else [])
     @ (if tier_ner (pii_tiers (cfg_pii cfg)) \<noteq> n then [''pii.tiers.ner''] else [])
     @ (if tier_regex (pii_tiers (cfg_pii cfg)) \<noteq> r then [''pii.tiers.regex''] else [])
     @ (if tier_slm (pii_tiers (cfg_pii cfg)) \<noteq> s then [''pii.tiers.slm''] else [])"

definition with_level :: "config \<Rightarrow> bytes \<Rightarrow> bool \<Rightarrow> bool \<Rightarrow> bool \<Rightarrow> config" where
  "with_level cfg m r n s = cfg\<lparr>cfg_pii := (cfg_pii cfg)\<lparr>pii_mode_str := m,
     pii_tiers := \<lparr>tier_regex = r, tier_ner = n, tier_slm = s\<rparr>\<rparr>\<rparr>"

lemma with_level_steps: "with_level cfg m r n s = set_slm s (set_regex r (set_ner n (set_mode m cfg)))"
  by (simp add: with_level_def set_slm_def set_regex_def set_ner_def set_mode_def)

lemma tier_patch_nest:
  "tier_patch m r n s = nest [''pii''] (JObj [(''mode'', JStr m),
     (''tiers'', JObj [(''ner'', JBool n), (''regex'', JBool r), (''slm'', JBool s)])])"
  by (simp add: tier_patch_def json_obj_def byte_def)

lemma inj_leaf: "inj JStr" "inj JBool"
  by (simp_all add: inj_def)

lemma merge_tier_patch:
  assumes "faithful_codec codec" and "to_value codec cfg = Some v"
  shows "from_value codec (fst (json_deep_merge v (tier_patch m r n s))) = Some (with_level cfg m r n s)"
    and "snd (json_deep_merge v (tier_patch m r n s)) = level_keys cfg m r n s"
proof -
  have law: "\<exists>v. to_value codec cfg = Some v \<and> json_ok v \<and> from_value codec v = Some cfg" for cfg
    using assms(1) by (simp add: faithful_codec_def)
  have ok: "json_ok v" using law [of cfg] assms(2) by simp
  have f: "field_law codec ([''pii''] @ [''mode'']) (\<lambda>c. pii_mode_str (cfg_pii c)) set_mode JStr"
    "field_law codec ([''pii'', ''tiers''] @ [''ner'']) (\<lambda>c. tier_ner (pii_tiers (cfg_pii c))) set_ner JBool"
    "field_law codec ([''pii'', ''tiers''] @ [''regex'']) (\<lambda>c. tier_regex (pii_tiers (cfg_pii c))) set_regex JBool"
    "field_law codec ([''pii'', ''tiers''] @ [''slm'']) (\<lambda>c. tier_slm (pii_tiers (cfg_pii c))) set_slm JBool"
    using assms(1) by (simp_all add: faithful_codec_def)
  let ?T = "[(''ner'', JBool n), (''regex'', JBool r), (''slm'', JBool s)]"
  obtain v1 where v1: "to_value codec (set_mode m cfg) = Some v1" "json_ok v1"
    "overlay v (nest [''pii''] (JObj ((''mode'', JStr m) # [(''tiers'', JObj ?T)]))) = overlay v1 (nest [''pii''] (JObj [(''tiers'', JObj ?T)]))"
    "diffs v (nest [''pii''] (JObj ((''mode'', JStr m) # [(''tiers'', JObj ?T)])))
       = (if pii_mode_str (cfg_pii cfg) \<noteq> m then [[''pii''] @ [''mode'']] else []) @ diffs v1 (nest [''pii''] (JObj [(''tiers'', JObj ?T)]))"
    by (rule field_law_step [OF f(1) assms(2) ok, of m]) (simp_all add: inj_leaf)
  let ?c1 = "set_mode m cfg" and ?c2 = "set_ner n (set_mode m cfg)" and ?ks = "[''pii'', ''tiers'']"
  obtain v2 where v2: "to_value codec ?c2 = Some v2" "json_ok v2"
    "overlay v1 (nest ?ks (JObj ?T)) = overlay v2 (nest ?ks (JObj (tl ?T)))"
    "diffs v1 (nest ?ks (JObj ?T)) = (if tier_ner (pii_tiers (cfg_pii ?c1)) \<noteq> n then [?ks @ [''ner'']] else []) @ diffs v2 (nest ?ks (JObj (tl ?T)))"
    by (rule field_law_step [OF f(2) v1(1,2), of n "tl ?T"]) (simp_all add: inj_leaf)
  obtain v3 where v3: "to_value codec (set_regex r ?c2) = Some v3" "json_ok v3"
    "overlay v2 (nest ?ks (JObj (tl ?T))) = overlay v3 (nest ?ks (JObj (tl (tl ?T))))"
    "diffs v2 (nest ?ks (JObj (tl ?T))) = (if tier_regex (pii_tiers (cfg_pii ?c2)) \<noteq> r then [?ks @ [''regex'']] else []) @ diffs v3 (nest ?ks (JObj (tl (tl ?T))))"
    by (rule field_law_step [OF f(3) v2(1,2), of r "tl (tl ?T)"]) (simp_all add: inj_leaf)
  obtain v4 where v4: "to_value codec (set_slm s (set_regex r ?c2)) = Some v4" "json_ok v4"
    "overlay v3 (nest ?ks (JObj (tl (tl ?T)))) = v4"
    "diffs v3 (nest ?ks (JObj (tl (tl ?T)))) = (if tier_slm (pii_tiers (cfg_pii (set_regex r ?c2))) \<noteq> s then [?ks @ [''slm'']] else [])"
    by (rule field_law_step [OF f(4) v3(1,2), of s "[]"]) (simp_all add: inj_leaf)
  have join: "nest [''pii''] (JObj [(''tiers'', JObj ?T)]) = nest ?ks (JObj ?T)" by simp
  have "overlay v (tier_patch m r n s) = v4"
    unfolding tier_patch_nest v1(3) join v2(3) v3(3) v4(3) ..
  moreover have "from_value codec v4 = Some (with_level cfg m r n s)"
    using law [of "with_level cfg m r n s"] v4(1) by (simp add: with_level_steps)
  ultimately show "from_value codec (fst (json_deep_merge v (tier_patch m r n s))) = Some (with_level cfg m r n s)"
    by (simp add: json_deep_merge_ref)
  show "snd (json_deep_merge v (tier_patch m r n s)) = level_keys cfg m r n s"
    unfolding json_deep_merge_ref snd_conv tier_patch_nest v1(4) join v2(4) v3(4) v4(4)
    by (simp add: level_keys_def child_path_def set_mode_def set_ner_def set_regex_def set_slm_def)
qed

lemma config_patch_level:
  assumes "faithful_codec codec" and "n \<longrightarrow> r"
  shows "config_patch codec mgr (tier_patch m r n s) =
    (mgr\<lparr>inner := with_level (inner mgr) m r n s\<rparr>,
     Inr \<lparr>pr_ok = True, restart_required = False, changed_keys = level_keys (inner mgr) m r n s\<rparr>)"
proof -
  obtain v where v: "to_value codec (inner mgr) = Some v"
    using assms(1) by (auto simp: faithful_codec_def)
  have "validate_pii_tiers (pii_tiers (cfg_pii (with_level (inner mgr) m r n s))) = Inr ()"
    using assms(2) by (auto simp: validate_pii_tiers_def with_level_def)
  then show ?thesis
    using v merge_tier_patch [OF assms(1) v, of m r n s]
    by (simp add: config_patch_def case_prod_unfold Let_def requires_restart_def with_level_def)
qed

text \<open>The label that the tray shows for a protection level.\<close>

definition level_label :: "bytes \<Rightarrow> bytes" where
  "level_label level = (if level = ''detect'' then ''detect-only'' else level)"

lemma protection_levels:
  assumes "protection_level_to_patch level = Inr q"
  obtains m r n s where "q = tier_patch m r n s" and "n \<longrightarrow> r" and "derive_pii_level m r n s = level_label level"
proof -
  consider "level = ''off''" "q = tier_patch ''off'' False False False"
    | "level = ''detect''" "q = tier_patch ''detect-only'' True False False"
    | "level = ''1''" "q = tier_patch ''replace'' True False False"
    | "level = ''2''" "q = tier_patch ''replace'' True True False"
    | "level = ''3''" "q = tier_patch ''replace'' True True True"
    | "level = ''intelligent''" "q = tier_patch ''replace'' False False True"
    using assms by (auto simp: protection_level_to_patch_def split: if_splits)
  then show ?thesis
    by cases (rule that, assumption, simp, simp add: derive_pii_level_def level_label_def)+
qed

text \<open>
  \<open>config --protection-level\<close> and the tray agree: for every level the command knows, its patch
  is accepted by any configuration, sets the mode and the three tiers and nothing else, asks for no
  restart, and the level that the tray derives from the new configuration is the one that was set.
\<close>

theorem protection_level_shown:
  assumes "faithful_codec codec" and "protection_level_to_patch level = Inr q"
  shows "\<exists>m r n s keys.
      config_patch codec mgr q = (mgr\<lparr>inner := with_level (inner mgr) m r n s\<rparr>,
        Inr \<lparr>pr_ok = True, restart_required = False, changed_keys = keys\<rparr>)
      \<and> derive_pii_level m r n s = level_label level"
proof -
  obtain m r n s where "q = tier_patch m r n s" "n \<longrightarrow> r" "derive_pii_level m r n s = level_label level"
    using protection_levels [OF assms(2)] .
  then show ?thesis using config_patch_level [OF assms(1), of n r mgr m s] by blast
qed

text \<open>A codec with these laws: the value that serde derives for the structures.\<close>

definition proxy_json :: "proxy_config \<Rightarrow> json" where
  "proxy_json c = JObj [(''dashboard'', JStr (pc_dashboard c)), (''listen'', JStr (pc_listen c))]"

definition logging_json :: "logging_config \<Rightarrow> json" where
  "logging_json c = JObj [(''file'', case lc_file c of None \<Rightarrow> JNull | Some f \<Rightarrow> JStr f), (''format'', JStr (lc_format c)),
     (''level'', JStr (lc_level c)), (''rotation'', JStr (lc_rotation c))]"

definition network_json :: "network_proxy_config \<Rightarrow> json" where
  "network_json c = JObj [(''enabled'', JBool (np_enabled c)), (''listen'', JStr (np_listen c))]"

definition tiers_json :: "pii_tiers_config \<Rightarrow> json" where
  "tiers_json c = JObj [(''ner'', JBool (tier_ner c)), (''regex'', JBool (tier_regex c)), (''slm'', JBool (tier_slm c))]"

definition ner_json :: "pii_ner_config \<Rightarrow> json" where
  "ner_json c = JObj [(''confidence_threshold'', JNum (Float (ner_confidence_threshold c))), (''model_path'', JStr (ner_model_path c)),
     (''timeout_ms'', JNum (PosInt (ner_timeout_ms c)))]"

definition slm_json :: "pii_slm_config \<Rightarrow> json" where
  "slm_json c = JObj [(''confidence_threshold'', JNum (Float (slm_threshold c))), (''endpoint'', JStr (slm_endpoint c)),
     (''model_id'', case slm_model_id c of None \<Rightarrow> JNull | Some f \<Rightarrow> JStr f), (''timeout_ms'', JNum (PosInt (slm_timeout_ms c)))]"

definition pii_json :: "pii_config \<Rightarrow> json" where
  "pii_json c = JObj [(''locale'', JStr (pii_locale c)), (''mode'', JStr (pii_mode_str c)), (''models_dir'', JStr (models_dir c)),
     (''ner'', ner_json (pii_ner c)), (''slm'', slm_json (pii_slm c)), (''tiers'', tiers_json (pii_tiers c)),
     (''vault_ttl_hours'', JNum (PosInt (vault_ttl_hours c)))]"

definition config_json :: "config \<Rightarrow> json" where
  "config_json c = JObj [(''intercept'', JObj [(''domains'', JArr (map JStr (intercept_domains c)))]), (''logging'', logging_json (cfg_logging c)),
     (''network_proxy'', network_json (cfg_network_proxy c)), (''pii'', pii_json (cfg_pii c)), (''proxy'', proxy_json (cfg_proxy c)),
     (''storage'', JObj [(''logs_dir'', JStr (storage_logs_dir c))])]"

text \<open>Reading the structures back, field by field.\<close>

definition str_field :: "json \<Rightarrow> bytes \<Rightarrow> bytes option" where
  "str_field v k = obind (jget v k) as_str"

definition opt_str_field :: "json \<Rightarrow> bytes \<Rightarrow> bytes option option" where
  "opt_str_field v k = (case jget v k of None \<Rightarrow> Some None | Some JNull \<Rightarrow> Some None | Some (JStr s) \<Rightarrow> Some (Some s) | _ \<Rightarrow> None)"

definition bool_field :: "json \<Rightarrow> bytes \<Rightarrow> bool option" where
  "bool_field v k = (case jget v k of Some (JBool b) \<Rightarrow> Some b | _ \<Rightarrow> None)"

definition u64_field :: "json \<Rightarrow> bytes \<Rightarrow> nat option" where
  "u64_field v k = (case jget v k of Some (JNum (PosInt n)) \<Rightarrow> Some n | _ \<Rightarrow> None)"

definition f32_field :: "json \<Rightarrow> bytes \<Rightarrow> rat option" where
  "f32_field v k = (case jget v k of Some (JNum (Float r)) \<Rightarrow> Some r | _ \<Rightarrow> None)"

definition strs_field :: "json \<Rightarrow> bytes \<Rightarrow> bytes list option" where
  "strs_field v k = obind (obind (jget v k) as_array) (\<lambda>xs. those (map as_str xs))"

definition sub_field :: "(json \<Rightarrow> 'a option) \<Rightarrow> json \<Rightarrow> bytes \<Rightarrow> 'a option" where
  "sub_field rd v k = obind (jget v k) rd"

definition read_proxy :: "json \<Rightarrow> proxy_config option" where
  "read_proxy v =
     obind (str_field v ''listen'') (\<lambda>x0. obind (str_field v ''dashboard'') (\<lambda>x1. 
     Some \<lparr>pc_listen = x0, pc_dashboard = x1\<rparr>))"

definition read_logging :: "json \<Rightarrow> logging_config option" where
  "read_logging v =
     obind (str_field v ''level'') (\<lambda>x0. obind (str_field v ''format'') (\<lambda>x1. 
     obind (opt_str_field v ''file'') (\<lambda>x2. obind (str_field v ''rotation'') (\<lambda>x3. 
     Some \<lparr>lc_level = x0, lc_format = x1, lc_file = x2, lc_rotation = x3\<rparr>))))"

definition read_network :: "json \<Rightarrow> network_proxy_config option" where
  "read_network v =
     obind (str_field v ''listen'') (\<lambda>x0. obind (bool_field v ''enabled'') (\<lambda>x1. 
     Some \<lparr>np_listen = x0, np_enabled = x1\<rparr>))"

definition read_tiers :: "json \<Rightarrow> pii_tiers_config option" where
  "read_tiers v =
     obind (bool_field v ''regex'') (\<lambda>x0. obind (bool_field v ''ner'') (\<lambda>x1. 
     obind (bool_field v ''slm'') (\<lambda>x2. Some \<lparr>tier_regex = x0, tier_ner = x1, tier_slm = x2\<rparr>)))"

definition read_ner :: "json \<Rightarrow> pii_ner_config option" where
  "read_ner v =
     obind (str_field v ''model_path'') (\<lambda>x0. obind (f32_field v ''confidence_threshold'') (\<lambda>x1. 
     obind (u64_field v ''timeout_ms'') (\<lambda>x2. Some \<lparr>ner_model_path = x0, ner_confidence_threshold = x1, ner_timeout_ms = x2\<rparr>)))"

definition read_slm :: "json \<Rightarrow> pii_slm_config option" where
  "read_slm v =
     obind (str_field v ''endpoint'') (\<lambda>x0. obind (u64_field v ''timeout_ms'') (\<lambda>x1. 
     obind (f32_field v ''confidence_threshold'') (\<lambda>x2. obind (opt_str_field v ''model_id'') (\<lambda>x3. 
     Some \<lparr>slm_endpoint = x0, slm_timeout_ms = x1, slm_threshold = x2, slm_model_id = x3\<rparr>))))"

definition read_pii :: "json \<Rightarrow> pii_config option" where
  "read_pii v =
     obind (str_field v ''mode'') (\<lambda>x0. obind (sub_field read_tiers v ''tiers'') (\<lambda>x1. 
     obind (sub_field read_ner v ''ner'') (\<lambda>x2. obind (sub_field read_slm v ''slm'') (\<lambda>x3. 
     obind (u64_field v ''vault_ttl_hours'') (\<lambda>x4. obind (str_field v ''locale'') (\<lambda>x5. 
     obind (str_field v ''models_dir'') (\<lambda>x6. Some \<lparr>pii_mode_str = x0, pii_tiers = x1, pii_ner = x2, pii_slm = x3, vault_ttl_hours = x4, pii_locale = x5, models_dir = x6\<rparr>)))))))"

definition read_config :: "json \<Rightarrow> config option" where
  "read_config v =
     obind (sub_field read_proxy v ''proxy'') (\<lambda>x0. obind (sub_field (\<lambda>w. strs_field w ''domains'') v ''intercept'') (\<lambda>x1. 
     obind (sub_field (\<lambda>w. str_field w ''logs_dir'') v ''storage'') (\<lambda>x2. obind (sub_field read_logging v ''logging'') (\<lambda>x3. 
     obind (sub_field read_network v ''network_proxy'') (\<lambda>x4. obind (sub_field read_pii v ''pii'') (\<lambda>x5. 
     Some \<lparr>cfg_proxy = x0, intercept_domains = x1, storage_logs_dir = x2, cfg_logging = x3, cfg_network_proxy = x4, cfg_pii = x5\<rparr>))))))"

lemmas read_defs = str_field_def opt_str_field_def bool_field_def u64_field_def f32_field_def strs_field_def sub_field_def

lemma those_map_as_str: "those (map as_str (map JStr xs)) = Some xs"
  by (induction xs) simp_all

lemma read_parts:
  "read_proxy (proxy_json pc) = Some pc" "read_logging (logging_json lc) = Some lc"
  "read_network (network_json nc) = Some nc" "read_tiers (tiers_json tc) = Some tc"
  "read_ner (ner_json ec) = Some ec" "read_slm (slm_json sc) = Some sc"
  by (simp_all add: read_proxy_def proxy_json_def read_logging_def logging_json_def read_network_def network_json_def
      read_tiers_def tiers_json_def read_ner_def ner_json_def read_slm_def slm_json_def read_defs split: option.split)

lemma read_pii_json: "read_pii (pii_json c) = Some c"
  by (simp add: read_pii_def pii_json_def read_parts read_defs)

lemma read_config_json: "read_config (config_json c) = Some c"
  using those_map_as_str [of "intercept_domains c"]
  by (simp add: read_config_def config_json_def read_parts read_pii_json read_defs comp_def)

definition derived_codec :: config_codec where
  "derived_codec = \<lparr>to_value = (\<lambda>c. Some (config_json c)), from_value = read_config, to_toml = (\<lambda>c. Some [])\<rparr>"

lemmas json_defs = config_json_def logging_json_def network_json_def pii_json_def proxy_json_def ner_json_def slm_json_def tiers_json_def

lemma json_ok_config: "json_ok (config_json c)"
  by (simp add: json_defs byte_def list_all_iff split: option.split)

lemma derived_codec_faithful: "faithful_codec derived_codec"
proof -
  have "field_law derived_codec [''pii'', ''mode''] (\<lambda>c. pii_mode_str (cfg_pii c)) set_mode JStr"
    by (simp add: field_law_def derived_codec_def config_json_def pii_json_def set_mode_def)
  moreover have "field_law derived_codec [''pii'', ''tiers'', ''ner''] (\<lambda>c. tier_ner (pii_tiers (cfg_pii c))) set_ner JBool"
    by (simp add: field_law_def derived_codec_def config_json_def pii_json_def tiers_json_def set_ner_def)
  moreover have "field_law derived_codec [''pii'', ''tiers'', ''regex''] (\<lambda>c. tier_regex (pii_tiers (cfg_pii c))) set_regex JBool"
    by (simp add: field_law_def derived_codec_def config_json_def pii_json_def tiers_json_def set_regex_def)
  moreover have "field_law derived_codec [''pii'', ''tiers'', ''slm''] (\<lambda>c. tier_slm (pii_tiers (cfg_pii c))) set_slm JBool"
    by (simp add: field_law_def derived_codec_def config_json_def pii_json_def tiers_json_def set_slm_def)
  moreover have "\<forall>cfg. \<exists>v. to_value derived_codec cfg = Some v \<and> json_ok v \<and> from_value derived_codec v = Some cfg"
    by (simp add: derived_codec_def json_ok_config read_config_json)
  ultimately show ?thesis by (simp add: faithful_codec_def)
qed

definition sample_manager :: config_manager where
  "sample_manager = \<lparr>inner = default_config ''/home/u/.config/privacyclaw'', config_path = Some ''/home/u/c.toml''\<rparr>"


theorem protection_level_shown_witness:
  "\<exists>m r n s keys.
      config_patch derived_codec sample_manager (tier_patch ''replace'' True True True)
        = (sample_manager\<lparr>inner := with_level (inner sample_manager) m r n s\<rparr>,
          Inr \<lparr>pr_ok = True, restart_required = False, changed_keys = keys\<rparr>)
      \<and> derive_pii_level m r n s = ''3''"
  using protection_level_shown [OF derived_codec_faithful, of "''3''" "tier_patch ''replace'' True True True" sample_manager]
  by (simp add: protection_level_to_patch_def level_label_def)

section \<open>Setting one key\<close>

lemma dot_path_nest: "dot_path_to_json key raw_val = nest (split_on (CHR ''.'') key) (leaf_value raw_val)"
proof -
  have "fold (\<lambda>seg acc. JObj [(seg, acc)]) (rev ks) x = nest ks x" for ks x
    by (induction ks) simp_all
  then show ?thesis by (simp add: dot_path_to_json_def)
qed

lemma leaf_not_obj: "\<not> is_obj (leaf_value raw_val)" "json_ok (leaf_value raw_val)"
  by (simp_all add: leaf_value_def json_of_i64_def split: option.split)

text \<open>
  \<open>config set KEY=VALUE\<close> on a key that the configuration has: the value at that key, typed as
  a boolean, an integer or a string, is assigned, the other keys are left alone, and the key is
  reported when its value changed. The command changes and saves the configuration when the result
  is a configuration with valid tiers, and otherwise changes neither it nor the disk.
\<close>

theorem set_config_assigns:
  assumes "to_value codec (inner mgr) = Some v" and "json_ok v"
    and "CHR ''='' \<notin> set key" and "at_path v (split_on (CHR ''.'') key) = Some w"
    and "config_path mgr = Some p" and "writable p" and "\<forall>c. to_toml codec c \<noteq> None"
  shows "set_config codec writable mgr disk (key @ CHR ''='' # raw_val) =
    (case from_value codec (pointer_set (map Key (split_on (CHR ''.'') key)) (leaf_value raw_val) v) of
       None \<Rightarrow> (mgr, disk, Inl Invalid_after_patch)
     | Some cfg \<Rightarrow>
         if tiers_valid cfg then
           (mgr\<lparr>inner := cfg\<rparr>, disk(p \<mapsto> the (to_toml codec cfg)),
            Inr \<lparr>pr_ok = True, restart_required = requires_restart (inner mgr) cfg,
                 changed_keys = (if w \<noteq> leaf_value raw_val then [dotted [] (split_on (CHR ''.'') key)] else [])\<rparr>)
         else (mgr, disk, Inl Tier2_needs_tier1))"
proof -
  let ?ks = "split_on (CHR ''.'') key" and ?x = "leaf_value raw_val"
  have m: "json_deep_merge v (dot_path_to_json key raw_val)
      = (pointer_set (map Key ?ks) ?x v, if w \<noteq> ?x then [dotted [] ?ks] else [])"
    using overlay_nest_leaf [OF assms(2,4) leaf_not_obj(1), of raw_val]
    by (simp add: json_deep_merge_ref dot_path_nest)
  show ?thesis
  proof (cases "from_value codec (pointer_set (map Key ?ks) ?x v)")
    case None
    then show ?thesis
      using assms(1,3) m by (simp add: set_config_def split_once_hd config_patch_def)
  next
    case (Some cfg)
    obtain t where "to_toml codec cfg = Some t" using assms(7) by blast
    then show ?thesis
      using Some assms(1,3,5,6) m
      by (auto simp: set_config_def split_once_hd config_patch_def save_to_disk_def validate_pii_tiers_def tiers_valid_def)
  qed
qed

lemma faithful_reads_back:
  assumes "faithful_codec codec" and "to_value codec c = Some v"
  shows "from_value codec v = Some c"
proof -
  have "\<exists>v. to_value codec c = Some v \<and> json_ok v \<and> from_value codec v = Some c"
    using assms(1) by (simp add: faithful_codec_def)
  then show ?thesis using assms(2) by auto
qed

lemma sample_manager_mode:
  "at_path (config_json (inner sample_manager)) [''pii'', ''mode''] = Some (JStr ''off'')"
  by (simp add: sample_manager_def default_config_def default_pii_config_def config_json_def pii_json_def)

theorem set_config_assigns_witness:
  "snd (snd (set_config derived_codec (\<lambda>p. True) sample_manager Map.empty (''pii.mode'' @ CHR ''='' # ''replace'')))
    = Inr \<lparr>pr_ok = True, restart_required = False, changed_keys = [''pii.mode'']\<rparr>"
proof -
  let ?v = "config_json (inner sample_manager)"
  have leaf: "leaf_value ''replace'' = JStr ''replace''"
    by (simp add: leaf_value_def parse_bool_def parse_i64_def parse_uint_def push_digit_def digit_val_def byte_def)
  have split: "split_on (CHR ''.'') ''pii.mode'' = [''pii'', ''mode'']" by simp
  have ser: "to_value derived_codec (inner sample_manager) = Some ?v" by (simp add: derived_codec_def)
  have "to_value derived_codec (set_mode ''replace'' (inner sample_manager))
      = Some (pointer_set (map Key [''pii'', ''mode'']) (JStr ''replace'') ?v)"
    using derived_codec_faithful ser by (simp add: faithful_codec_def field_law_def)
  then have de: "from_value derived_codec (pointer_set (map Key [''pii'', ''mode'']) (JStr ''replace'') ?v)
      = Some (set_mode ''replace'' (inner sample_manager))"
    by (rule faithful_reads_back [OF derived_codec_faithful])
  have "tiers_valid (set_mode ''replace'' (inner sample_manager))"
    by (simp add: tiers_valid_def set_mode_def sample_manager_def default_config_def default_pii_config_def default_tiers_def)
  then show ?thesis
    using set_config_assigns [of derived_codec sample_manager ?v "''pii.mode''" "JStr ''off''" "''/home/u/c.toml''" "\<lambda>p. True" Map.empty "''replace''"]
      ser json_ok_config sample_manager_mode de leaf split
    by (simp add: derived_codec_def sample_manager_def requires_restart_def set_mode_def child_path_def)
qed

lemma leaf_decimal: "leaf_value ''0.8'' = JStr ''0.8''"
  by (simp add: leaf_value_def parse_bool_def parse_i64_def parse_uint_def push_digit_def digit_val_def byte_def)

text \<open>Loading a file does not check the tiers: only \<open>patch\<close> does.\<close>

lemma config_load_unchecked:
  assumes "files p = Some (Some content)" and "from_toml content = Some cfg"
    and "pii_mode_str (cfg_pii cfg) \<noteq> ''replace''"
  shows "config_load files from_toml dir (Some p) = Inr cfg"
  using assms by (simp add: config_load_def disable_ner_if_model_missing_def)

end
