(* ===== verification/Connect.thy ===== *)
theory Connect
  imports Network Config_Model
begin

text \<open>
  The connection handlers of the two listeners: \<open>connect::handle\<close> with \<open>passthrough\<close> and \<open>mitm\<close>
  (\<open>src/src/proxy/connect.rs\<close>), and \<open>network::handle\<close> with \<open>passthrough_raw\<close> (\<open>src/src/proxy/network.rs\<close>).

  A handler is a function from what the client sends and what the outside does (\<open>net_env\<close>: the
  resolver's network, TCP connects, TLS handshakes, certificates) to the list of its effects, in
  order, and its result. The relays that \<open>Run_intercept\<close> starts are the subject of the theories
  on requests and responses.
\<close>

section \<open>Reading lines from the client\<close>

text \<open>
  A read of the socket returns bytes, none at the end of the stream; a line that does not complete
  within its thirty seconds ends in \<open>Timed_out\<close>. The state is the \<open>BufReader\<close>'s unread bytes and the
  reads still to come.
\<close>

datatype net_read = Data bytes | Timed_out | Read_error bytes

datatype line_result = Line bytes | Line_timeout | Line_error net_error

fun read_line :: "bytes \<Rightarrow> net_read list \<Rightarrow> line_result \<times> bytes \<times> net_read list" where
  "read_line buf [] =
     (if LF \<in> set buf
      then let l = takeWhile (\<lambda>c. c \<noteq> LF) buf @ [LF] in
           ((if utf8_valid l then Line l else Line_error (Io ''stream did not contain valid UTF-8'')), drop (length l) buf, [])
      else ((if utf8_valid buf then Line buf else Line_error (Io ''stream did not contain valid UTF-8'')), [], []))"
| "read_line buf (r # rs) =
     (if LF \<in> set buf
      then let l = takeWhile (\<lambda>c. c \<noteq> LF) buf @ [LF] in
           ((if utf8_valid l then Line l else Line_error (Io ''stream did not contain valid UTF-8'')), drop (length l) buf, r # rs)
      else case r of
        Timed_out \<Rightarrow> (Line_timeout, buf, rs)
      | Read_error e \<Rightarrow> (Line_error (Io e), buf, rs)
      | Data d \<Rightarrow>
          if d = [] then ((if utf8_valid buf then Line buf else Line_error (Io ''stream did not contain valid UTF-8'')), [], rs)
          else read_line (buf @ d) rs)"

fun read_size :: "net_read \<Rightarrow> nat" where
  "read_size (Data d) = Suc (length d)"
| "read_size r = 1"

lemma takeWhile_line: "LF \<in> set buf \<Longrightarrow> length (takeWhile (\<lambda>c. c \<noteq> LF) buf @ [LF]) \<le> length buf"
  by (induction buf) auto

lemma read_line_shrinks:
  "read_line buf rs = (Line l, buf', rs') \<Longrightarrow> l \<noteq> [] \<Longrightarrow>
     length buf' + sum_list (map read_size rs') < length buf + sum_list (map read_size rs)"
proof (induction buf rs rule: read_line.induct)
  case (1 buf)
  then show ?case using takeWhile_line [of buf] by (auto simp: Let_def split: if_splits)
next
  case (2 buf r rs)
  show ?case
  proof (cases "LF \<in> set buf")
    case True
    then show ?thesis using 2(2,3) takeWhile_line [of buf] by (auto simp: Let_def split: if_splits)
  next
    case False
    then show ?thesis using 2 by (cases r) (auto split: if_splits)
  qed
qed

text \<open>The headers after the request line, read and dropped up to the blank line.\<close>

function drain_headers :: "bytes \<Rightarrow> net_read list \<Rightarrow> line_result \<times> net_read list" where
  "drain_headers buf rs =
     (case read_line buf rs of
        (Line line, buf', rs') \<Rightarrow>
          if line = crlf \<or> line = [LF] \<or> line = [] then (Line buf', rs') else drain_headers buf' rs'
      | (e, buf', rs') \<Rightarrow> (e, rs'))"
  by pat_completeness auto
termination
  by (relation "measure (\<lambda>(buf, rs). length buf + sum_list (map read_size rs))") (auto dest: read_line_shrinks [OF sym])

declare drain_headers.simps [simp del]

section \<open>The CONNECT line\<close>

text \<open>\<open>splitn(3, ' ')\<close>: at most three pieces, the last one unsplit.\<close>

definition parse_connect :: "bytes \<Rightarrow> (bytes \<times> nat) option" where
  "parse_connect line =
     (case split_once (CHR '' '') line of
        None \<Rightarrow> None
      | Some (method, rest) \<Rightarrow>
          if method \<noteq> ''CONNECT'' then None
          else
            let hostport = (case split_once (CHR '' '') rest of Some (hp, _) \<Rightarrow> hp | None \<Rightarrow> rest) in
            obind (rsplit_once (CHR '':'') hostport) (\<lambda>(host, port_str).
              map_option (\<lambda>port. (host, port)) (parse_uint 10 65535 port_str)))"

section \<open>The handlers\<close>

datatype endpoint = Addr ip_addr | Named bytes

datatype net_effect =
    Write_client bytes
  | Tcp_connect endpoint nat
  | Upstream_tls bytes
  | Client_tls bytes
  | Bridge "net_read list"
  | Run_intercept bytes

record net_env =
  udp :: "bytes \<Rightarrow> bytes \<Rightarrow> udp_result"
  tcp :: "endpoint \<Rightarrow> nat \<Rightarrow> net_error option"
  valid_server_name :: "bytes \<Rightarrow> bool"
  upstream_handshake :: "bytes \<Rightarrow> net_error option"
  client_handshake :: "bytes \<Rightarrow> net_error option"
  leaf_cert :: "bytes \<Rightarrow> net_error option"
  client_write :: "net_error option"
  bridge :: "net_error option"
  intercept_result :: "net_error + unit"

type_synonym run = "net_effect list \<times> (net_error + unit)"

text \<open>One fallible step: its effect, then the rest unless it fails (the \<open>?\<close> operator).\<close>

definition step :: "net_effect list \<Rightarrow> net_error option \<Rightarrow> run outcome \<Rightarrow> run outcome" where
  "step es r k = (case r of Some e \<Rightarrow> Done (es, Inl e) | None \<Rightarrow> and_then k (\<lambda>(es', res). Done (es @ es', res)))"

definition established :: bytes where
  "established = ''HTTP/1.1 200 Connection established'' @ crlf @ crlf"

definition passthrough :: "net_env \<Rightarrow> net_read list \<Rightarrow> bytes \<Rightarrow> nat \<Rightarrow> run outcome" where
  "passthrough env stream host port =
     step [Tcp_connect (Named host) port] (tcp env (Named host) port)
       (step [Write_client established] (client_write env)
         (step [Bridge stream] (bridge env) (Done ([], Inr ()))))"

definition mitm :: "net_env \<Rightarrow> net_read list \<Rightarrow> bytes \<Rightarrow> nat \<Rightarrow> run outcome" where
  "mitm env stream host port =
     and_then (resolve_bypass_hosts (udp env) host) (\<lambda>r.
       case r of
         Inl e \<Rightarrow> Done ([], Inl e)
       | Inr ip \<Rightarrow>
           step [Tcp_connect (Addr ip) port] (tcp env (Addr ip) port)
             (step [] (if valid_server_name env host then None else Some (Bad_server_name host))
               (step [Upstream_tls host] (upstream_handshake env host)
                 (step [Write_client established] (client_write env)
                   (step [] (leaf_cert env host)
                     (step [Client_tls host] (client_handshake env host)
                       (Done ([Run_intercept host], intercept_result env))))))))"

definition connect_handle :: "net_env \<Rightarrow> config \<Rightarrow> net_read list \<Rightarrow> run outcome" where
  "connect_handle env cfg reads =
     (case read_line [] reads of
        (Line_timeout, _, _) \<Rightarrow> Done ([], Inr ())
      | (Line_error e, _, _) \<Rightarrow> Done ([], Inl e)
      | (Line l, buf, rs) \<Rightarrow>
          (case drain_headers buf rs of
             (Line_timeout, _) \<Rightarrow> Done ([], Inr ())
           | (Line_error e, _) \<Rightarrow> Done ([], Inl e)
           | (Line buffered, stream) \<Rightarrow>
               (case parse_connect (trim l) of
                  None \<Rightarrow> Done ([], Inl (Bad_connect_line (trim l)))
                | Some (host, port) \<Rightarrow>
                    if is_intercepted cfg host then mitm env stream host port
                    else passthrough env stream host port)))"

text \<open>
  \<open>network::handle\<close>: \<open>peeked\<close> is what the one \<open>peek\<close> of at most 4096 bytes saw; the bytes stay in the
  socket. \<open>passthrough_raw\<close> drops a loopback address and a failed resolution without an error.
\<close>

definition passthrough_raw :: "net_env \<Rightarrow> net_read list \<Rightarrow> bytes \<Rightarrow> run outcome" where
  "passthrough_raw env stream host =
     and_then (resolve_bypass_hosts (udp env) host) (\<lambda>r.
       case r of
         Inl e \<Rightarrow> Done ([], Inr ())
       | Inr ip \<Rightarrow>
           if is_loopback ip then Done ([], Inr ())
           else step [Tcp_connect (Addr ip) 443] (tcp env (Addr ip) 443)
                  (step [Bridge stream] (bridge env) (Done ([], Inr ()))))"

definition network_handle :: "net_env \<Rightarrow> config \<Rightarrow> net_error + bytes \<Rightarrow> net_read list \<Rightarrow> run outcome" where
  "network_handle env cfg peeked stream =
     (case peeked of
        Inl e \<Rightarrow> Done ([], Inl e)
      | Inr seen \<Rightarrow>
          if seen = [] then Done ([], Inr ())
          else and_then (peek_sni (take 4096 seen)) (\<lambda>sni.
            case sni of
              None \<Rightarrow> Done ([], Inr ())
            | Some host \<Rightarrow>
                if \<not> is_intercepted cfg host then passthrough_raw env stream host
                else
                  step [Client_tls host] (client_handshake env host)
                    (and_then (resolve_bypass_hosts (udp env) host) (\<lambda>r.
                       case r of
                         Inl e \<Rightarrow> Done ([], Inl e)
                       | Inr ip \<Rightarrow>
                           step [Tcp_connect (Addr ip) 443] (tcp env (Addr ip) 443)
                             (step [] (if valid_server_name env host then None else Some (Bad_server_name host))
                               (step [Upstream_tls host] (upstream_handshake env host)
                                 (Done ([Run_intercept host], intercept_result env))))))))"

section \<open>Routing\<close>

lemma step_Done_iff:
  "step es r k = Done (es', res) \<longleftrightarrow>
     (case r of Some e \<Rightarrow> es' = es \<and> res = Inl e | None \<Rightarrow> \<exists>es2. k = Done (es2, res) \<and> es' = es @ es2)"
  by (cases r; cases k) (auto simp: step_def split: prod.splits)

lemma step_Panic_iff: "step es r k = Panic \<longleftrightarrow> r = None \<and> k = Panic"
  by (cases r; cases k) (auto simp: step_def split: prod.splits)

lemma resolve_no_panic: "resolve_bypass_hosts net h \<noteq> Panic"
  by (simp add: resolve_bypass_hosts_def resolve_loop_no_panic)

lemma handlers_no_panic:
  "passthrough env s h p \<noteq> Panic" "mitm env s h p \<noteq> Panic" "passthrough_raw env s h \<noteq> Panic"
  "connect_handle env cfg reads \<noteq> Panic" "network_handle env cfg peeked s \<noteq> Panic"
proof -
  show p: "passthrough env s h p \<noteq> Panic" for s h p by (simp add: passthrough_def step_Panic_iff)
  show m: "mitm env s h p \<noteq> Panic" for s h p
    by (simp add: mitm_def step_Panic_iff and_then_Panic_iff resolve_no_panic split: sum.split)
  show r: "passthrough_raw env s h \<noteq> Panic" for h
    by (simp add: passthrough_raw_def step_Panic_iff and_then_Panic_iff resolve_no_panic split: sum.split)
  show "connect_handle env cfg reads \<noteq> Panic"
    by (simp add: connect_handle_def p m split: prod.split line_result.split option.split)
  show "network_handle env cfg peeked s \<noteq> Panic"
    by (auto simp: network_handle_def r step_Panic_iff and_then_Panic_iff resolve_no_panic peek_sni_no_panic
        split: sum.splits option.splits)
qed

text \<open>What the effects of a run may be, given the host it is for.\<close>

definition intercepts :: "bytes \<Rightarrow> net_effect list \<Rightarrow> bool" where
  "intercepts h es \<longleftrightarrow> (\<forall>e\<in>set es. case e of
       Client_tls h' \<Rightarrow> h' = h | Run_intercept h' \<Rightarrow> h' = h | Upstream_tls h' \<Rightarrow> h' = h | Bridge s \<Rightarrow> False | _ \<Rightarrow> True)
     \<and> (Run_intercept h \<in> set es \<longrightarrow> Client_tls h \<in> set es \<and> Upstream_tls h \<in> set es)"

definition bridges :: "net_effect list \<Rightarrow> bool" where
  "bridges es \<longleftrightarrow> (\<forall>e\<in>set es. case e of
       Client_tls h' \<Rightarrow> False | Run_intercept h' \<Rightarrow> False | Upstream_tls h' \<Rightarrow> False | _ \<Rightarrow> True)"

lemma bridgesD: "bridges es \<Longrightarrow> Client_tls h \<notin> set es \<and> Run_intercept h \<notin> set es"
  by (auto simp: bridges_def)

lemma interceptsD:
  assumes "intercepts h es"
  shows "Client_tls h' \<in> set es \<Longrightarrow> h' = h" and "Run_intercept h' \<in> set es \<Longrightarrow> h' = h"
    and "Run_intercept h' \<in> set es \<Longrightarrow> Client_tls h' \<in> set es \<and> Upstream_tls h' \<in> set es"
proof -
  show c: "Client_tls h' \<in> set es \<Longrightarrow> h' = h" using assms by (fastforce simp: intercepts_def)
  show r: "Run_intercept h' \<in> set es \<Longrightarrow> h' = h" using assms by (fastforce simp: intercepts_def)
  then show "Run_intercept h' \<in> set es \<Longrightarrow> Client_tls h' \<in> set es \<and> Upstream_tls h' \<in> set es"
    using assms by (auto simp: intercepts_def)
qed

lemma intercepts_no_bridge: "intercepts h es \<Longrightarrow> Bridge b \<notin> set es"
  by (auto simp: intercepts_def)

text \<open>Every answer of success to the client comes after a connection upstream.\<close>

fun connected_first :: "bool \<Rightarrow> net_effect list \<Rightarrow> bool" where
  "connected_first up [] \<longleftrightarrow> True"
| "connected_first up (Tcp_connect e p # es) \<longleftrightarrow> connected_first True es"
| "connected_first up (Write_client b # es) \<longleftrightarrow> up \<and> connected_first up es"
| "connected_first up (e # es) \<longleftrightarrow> connected_first up es"

lemma passthrough_bridges: "passthrough env s h p = Done (es, r) \<Longrightarrow> bridges es \<and> connected_first False es"
  by (auto simp: passthrough_def step_Done_iff bridges_def split: option.splits)

lemma resolve_Done: obtains x where "resolve_bypass_hosts net h = Done x"
  using resolve_no_panic by (metis outcome.exhaust)

lemma passthrough_raw_bridges:
  assumes "passthrough_raw env s h = Done (es, r)"
  shows "bridges es \<and> (\<forall>ip p. Tcp_connect (Addr ip) p \<in> set es \<longrightarrow> \<not> is_loopback ip)"
proof -
  obtain x where "resolve_bypass_hosts (udp env) h = Done x" by (rule resolve_Done)
  with assms show ?thesis
    by (cases x) (auto simp: passthrough_raw_def step_Done_iff bridges_def split: option.splits if_splits)
qed

lemma mitm_intercepts:
  assumes "mitm env s h p = Done (es, r)"
  shows "intercepts h es \<and> connected_first False es"
proof -
  obtain x where "resolve_bypass_hosts (udp env) h = Done x" by (rule resolve_Done)
  with assms show ?thesis
    by (cases x) (auto simp: mitm_def step_Done_iff intercepts_def split: option.splits if_splits)
qed

lemma connect_handle_effects:
  assumes "connect_handle env cfg reads = Done (es, r)"
  shows "connected_first False es \<and> (bridges es \<or> (\<exists>h. is_intercepted cfg h \<and> intercepts h es))"
proof -
  have e: "bridges []" by (simp add: bridges_def)
  obtain l b rs where "read_line [] reads = (l, b, rs)" by (cases "read_line [] reads") auto
  moreover obtain d s where "drain_headers b rs = (d, s)" by (cases "drain_headers b rs") auto
  ultimately have "es = [] \<or> (\<exists>h p. passthrough env s h p = Done (es, r))
      \<or> (\<exists>h p. is_intercepted cfg h \<and> mitm env s h p = Done (es, r))"
    using assms by (auto simp: connect_handle_def split: line_result.splits option.splits if_splits) blast
  then show ?thesis using e passthrough_bridges mitm_intercepts by fastforce
qed

lemma network_handle_effects:
  assumes "network_handle env cfg peeked s = Done (es, r)"
  shows "(bridges es \<and> (\<forall>ip p. Tcp_connect (Addr ip) p \<in> set es \<longrightarrow> \<not> is_loopback ip))
    \<or> (\<exists>h. is_intercepted cfg h \<and> intercepts h es)"
proof (cases "\<exists>seen h. peeked = Inr seen \<and> seen \<noteq> [] \<and> peek_sni (take 4096 seen) = Done (Some h)")
  case False
  then have "es = []" using assms
    by (auto simp: network_handle_def and_then_Done_iff split: sum.splits option.splits if_splits)
  then show ?thesis by (simp add: bridges_def)
next
  case True
  then obtain seen h where h: "peeked = Inr seen" "seen \<noteq> []" "peek_sni (take 4096 seen) = Done (Some h)" by blast
  obtain x where x: "resolve_bypass_hosts (udp env) h = Done x" by (rule resolve_Done)
  show ?thesis
  proof (cases "is_intercepted cfg h")
    case True
    have "intercepts h es"
      using assms h x True
      by (cases x) (auto simp: network_handle_def step_Done_iff intercepts_def split: option.splits if_splits)
    with True show ?thesis by blast
  next
    case False
    then have "passthrough_raw env s h = Done (es, r)" using assms h by (simp add: network_handle_def)
    then show ?thesis using passthrough_raw_bridges by blast
  qed
qed


section \<open>A CONNECT request in any pieces\<close>

lemma read_line_here:
  "LF \<notin> set l \<Longrightarrow> utf8_valid (l @ [LF]) \<Longrightarrow> read_line (l @ LF # rest) rs = (Line (l @ [LF]), rest, rs)"
proof -
  assume l: "LF \<notin> set l" "utf8_valid (l @ [LF])"
  have "takeWhile (\<lambda>c. c \<noteq> LF) (l @ LF # rest) = l" using l(1) by (induction l) auto
  with l show ?thesis by (cases rs) (simp_all add: Let_def)
qed

lemma read_line_chunks:
  assumes "LF \<notin> set l" and "utf8_valid (l @ [LF])" and "buf @ concat ds = l @ LF # rest" and "[] \<notin> set ds"
  shows "\<exists>ds1 ds2. ds = ds1 @ ds2 \<and> length l < length (buf @ concat ds1)
    \<and> read_line buf (map Data ds @ later) = (Line (l @ [LF]), drop (Suc (length l)) (buf @ concat ds1), map Data ds2 @ later)"
  using assms(3,4)
proof (induction ds arbitrary: buf)
  case Nil
  then show ?case using read_line_here [OF assms(1,2)] by (intro exI [of _ "[]"]) simp
next
  case (Cons d ds)
  show ?case
  proof (cases "length l < length buf")
    case True
    then obtain r where r: "buf = l @ LF # r"
      using Cons.prems(1) by (auto simp: append_eq_append_conv2 append_eq_Cons_conv)
    have "read_line buf (map Data (d # ds) @ later) = (Line (l @ [LF]), r, map Data (d # ds) @ later)"
      unfolding r by (rule read_line_here [OF assms(1,2)])
    then have "d # ds = [] @ (d # ds) \<and> length l < length (buf @ concat [])
        \<and> read_line buf (map Data (d # ds) @ later) = (Line (l @ [LF]), drop (Suc (length l)) (buf @ concat []), map Data (d # ds) @ later)"
      using r by simp
    then show ?thesis by blast
  next
    case False
    have "buf = take (length buf) (l @ LF # rest)" using Cons.prems(1) by (metis append_eq_conv_conj)
    then have "buf = take (length buf) l" using False by simp
    then have n: "LF \<notin> set buf" using assms(1) by (metis in_set_takeD)
    obtain ds1 ds2 where "ds = ds1 @ ds2" "length l < length ((buf @ d) @ concat ds1)"
      "read_line (buf @ d) (map Data ds @ later) = (Line (l @ [LF]), drop (Suc (length l)) ((buf @ d) @ concat ds1), map Data ds2 @ later)"
      using Cons.IH [of "buf @ d"] Cons.prems by auto
    then show ?thesis using n Cons.prems(2) by (intro exI [of _ "d # ds1"] exI [of _ ds2]) auto
  qed
qed

definition header_line_ok :: "bytes \<Rightarrow> bool" where
  "header_line_ok h \<longleftrightarrow> h \<noteq> [] \<and> LF \<notin> set h \<and> utf8_valid h"

definition header_lines :: "bytes list \<Rightarrow> bytes" where
  "header_lines hs = concat (map (\<lambda>h. h @ crlf) hs) @ crlf"

lemma utf8_line: "utf8_valid h \<Longrightarrow> utf8_valid ((h @ [CR]) @ [LF])"
  by (intro utf8_valid_append) (simp_all add: ascii_literal byte_def)

lemma drain_headers_chunks:
  assumes "list_all header_line_ok hs" and "buf @ concat ds = header_lines hs @ rest" and "[] \<notin> set ds"
  shows "\<exists>ds1 ds2. ds = ds1 @ ds2 \<and> length (header_lines hs) \<le> length (buf @ concat ds1)
    \<and> drain_headers buf (map Data ds @ later) = (Line (drop (length (header_lines hs)) (buf @ concat ds1)), map Data ds2 @ later)"
  using assms
proof (induction hs arbitrary: buf ds)
  case Nil
  have "buf @ concat ds = [CR] @ LF # rest" using Nil.prems(2) by (simp add: header_lines_def crlf_def)
  then obtain ds1 ds2 where "ds = ds1 @ ds2" "length [CR] < length (buf @ concat ds1)"
    "read_line buf (map Data ds @ later) = (Line ([CR] @ [LF]), drop (Suc (length [CR])) (buf @ concat ds1), map Data ds2 @ later)"
    using read_line_chunks [of "[CR]" buf ds rest later] Nil.prems(3) utf8_line [of "[]"] by auto
  then show ?case
    by (intro exI [of _ ds1] exI [of _ ds2]) (auto simp: drain_headers.simps [of buf] header_lines_def crlf_def)
next
  case (Cons h hs)
  have h: "h \<noteq> []" "LF \<notin> set h" "utf8_valid h" using Cons.prems(1) by (simp_all add: header_line_ok_def)
  have eq: "buf @ concat ds = (h @ [CR]) @ LF # (header_lines hs @ rest)"
    using Cons.prems(2) by (simp add: header_lines_def crlf_def)
  obtain ds1 ds2 where 1: "ds = ds1 @ ds2" "length (h @ [CR]) < length (buf @ concat ds1)"
    "read_line buf (map Data ds @ later) = (Line ((h @ [CR]) @ [LF]), drop (Suc (length (h @ [CR]))) (buf @ concat ds1), map Data ds2 @ later)"
    using read_line_chunks [of "h @ [CR]" buf ds "header_lines hs @ rest" later] eq Cons.prems(3) h(2) utf8_line [OF h(3)] by auto
  let ?buf = "drop (Suc (length (h @ [CR]))) (buf @ concat ds1)"
  have "(buf @ concat ds1) @ concat ds2 = ((h @ [CR]) @ [LF]) @ header_lines hs @ rest"
    using eq 1(1) by simp
  then have eq2: "?buf @ concat ds2 = header_lines hs @ rest"
    using 1(2) by (metis Suc_leI append_eq_conv_conj diff_is_0_eq drop0 drop_append length_append_singleton)
  then obtain ds3 ds4 where 2: "ds2 = ds3 @ ds4" "length (header_lines hs) \<le> length (?buf @ concat ds3)"
    "drain_headers ?buf (map Data ds2 @ later) = (Line (drop (length (header_lines hs)) (?buf @ concat ds3)), map Data ds4 @ later)"
    using Cons.IH [of ?buf ds2] Cons.prems 1(1) by auto
  have len: "length (header_lines (h # hs)) = Suc (length (h @ [CR])) + length (header_lines hs)"
    by (simp add: header_lines_def crlf_def)
  have "drain_headers buf (map Data ds @ later) = drain_headers ?buf (map Data ds2 @ later)"
    by (subst drain_headers.simps) (use 1(3) h(1) in \<open>simp add: crlf_def\<close>)
  moreover have "drop (length (header_lines hs)) (?buf @ concat ds3)
      = drop (length (header_lines (h # hs))) (buf @ concat (ds1 @ ds3))"
  proof -
    have "?buf @ concat ds3 = drop (Suc (length (h @ [CR]))) ((buf @ concat ds1) @ concat ds3)"
      using 1(2) by (subst drop_append) simp
    then show ?thesis unfolding len by (simp add: add.commute del: drop_append)
  qed
  ultimately show ?case
    using 1(1,2) 2 len by (intro exI [of _ "ds1 @ ds3"] exI [of _ ds4]) auto
qed

definition connect_line :: "bytes \<Rightarrow> nat \<Rightarrow> bytes" where
  "connect_line host port = ''CONNECT '' @ host @ '':'' @ show_nat port @ '' HTTP/1.1''"

definition connect_request :: "bytes \<Rightarrow> nat \<Rightarrow> bytes list \<Rightarrow> bytes" where
  "connect_request host port hs = connect_line host port @ crlf @ header_lines hs"

definition host_ok :: "bytes \<Rightarrow> bool" where
  "host_ok h \<longleftrightarrow> ascii h \<and> CHR '' '' \<notin> set h \<and> LF \<notin> set h"

lemma parse_connect_line:
  assumes "CHR '' '' \<notin> set host" and "port < 65536"
  shows "parse_connect (connect_line host port) = Some (host, port)"
proof -
  have s: "CHR '' '' \<notin> set (show_nat port)" "CHR '':'' \<notin> set (show_nat port)"
    by (simp_all add: show_nat_no_char byte_def)
  have 1: "split_once (CHR '' '') (connect_line host port) = Some (''CONNECT'', host @ '':'' @ show_nat port @ '' HTTP/1.1'')"
    using split_once_hd [of "CHR '' ''" "''CONNECT''"] by (simp add: connect_line_def)
  have 2: "split_once (CHR '' '') (host @ '':'' @ show_nat port @ '' HTTP/1.1'') = Some (host @ CHR '':'' # show_nat port, ''HTTP/1.1'')"
    using split_once_hd [of "CHR '' ''" "host @ CHR '':'' # show_nat port" "''HTTP/1.1''"] assms s by simp
  show ?thesis
    using assms(2) 2 by (simp add: parse_connect_def 1 rsplit_once_last [OF s(2)] parse_show_nat)
qed

lemma ascii_append [simp]: "ascii (a @ b) \<longleftrightarrow> ascii a \<and> ascii b"
  by (auto simp: ascii_iff)

lemma trim_line:
  assumes "ascii s" and "s \<noteq> []" and "\<not> blank (hd s)" and "\<not> blank (last s)"
  shows "trim (s @ crlf) = s"
proof -
  have b: "blank CR" "blank LF" by (simp_all add: blank_byte byte_def)
  have a: "ascii (s @ crlf)" using assms(1) by (simp add: crlf_def byte_def)
  have d: "dropWhile blank (s @ crlf) = s @ crlf" using assms(2,3) by (cases s) simp_all
  have "dropWhile blank (rev s) = rev s"
    using assms(2,4) by (simp add: dropWhile_eq_self_iff hd_rev)
  then show ?thesis using b unfolding trim_ascii [OF a] d by (simp add: crlf_def)
qed

lemma connect_request_handled:
  assumes "host_ok host" and "port < 65536" and "list_all header_line_ok hs"
    and "concat ds = connect_request host port hs @ early" and "[] \<notin> set ds"
    and "length (concat (butlast ds)) < length (connect_request host port hs)"
  shows "connect_handle env cfg (map Data ds @ later) =
    (if is_intercepted cfg host then mitm env later host port else passthrough env later host port)"
proof -
  let ?l = "connect_line host port" and ?req = "connect_request host port hs"
  have asc: "ascii ?l" using assms(1) by (simp add: connect_line_def host_ok_def byte_def)
  have nl: "LF \<notin> set (?l @ [CR])"
    using assms(1) show_nat_no_char [of LF port] by (simp add: connect_line_def host_ok_def byte_def)
  have eq: "[] @ concat ds = (?l @ [CR]) @ LF # (header_lines hs @ early)"
    using assms(4) by (simp add: connect_request_def crlf_def)
  obtain ds1 ds2 where 1: "ds = ds1 @ ds2" "length (?l @ [CR]) < length ([] @ concat ds1)"
    "read_line [] (map Data ds @ later) = (Line ((?l @ [CR]) @ [LF]), drop (Suc (length (?l @ [CR]))) ([] @ concat ds1), map Data ds2 @ later)"
    using read_line_chunks [OF nl utf8_line [OF ascii_utf8 [OF asc]] eq assms(5), of later] by blast
  let ?buf = "drop (Suc (length (?l @ [CR]))) (concat ds1)"
  have "concat ds1 @ concat ds2 = ((?l @ [CR]) @ [LF]) @ header_lines hs @ early"
    using eq 1(1) by simp
  then have eq2: "?buf @ concat ds2 = header_lines hs @ early"
    using 1(2) by (metis Suc_leI append_Nil append_eq_conv_conj diff_is_0_eq drop0 drop_append length_append_singleton)
  have ne: "[] \<notin> set ds2" using assms(5) 1(1) by simp
  obtain ds3 ds4 where 2: "ds2 = ds3 @ ds4" "length (header_lines hs) \<le> length (?buf @ concat ds3)"
    "drain_headers ?buf (map Data ds2 @ later) = (Line (drop (length (header_lines hs)) (?buf @ concat ds3)), map Data ds4 @ later)"
    using drain_headers_chunks [OF assms(3) eq2 ne, of later] by blast
  have "length ?req = Suc (length (?l @ [CR])) + length (header_lines hs)"
    by (simp add: connect_request_def crlf_def)
  then have "length ?req \<le> length (concat (ds1 @ ds3))" using 1(2) 2(2) by simp
  moreover have "length (concat (ds1 @ ds3)) \<le> length (concat (butlast ds))" if "ds4 \<noteq> []"
    using that 1(1) 2(1) by (simp add: butlast_append)
  ultimately have ds4: "ds4 = []" using assms(6) by linarith
  have "hd ?l = CHR ''C''" "last ?l = CHR ''1''" "?l \<noteq> []" by (simp_all add: connect_line_def)
  then have "trim (?l @ crlf) = ?l" by (intro trim_line [OF asc]) (simp_all add: blank_byte byte_def)
  then have t: "trim ((?l @ [CR]) @ [LF]) = ?l" by (simp add: crlf_def)
  have p: "parse_connect ?l = Some (host, port)"
    using assms(1,2) by (intro parse_connect_line) (simp_all add: host_ok_def)
  show ?thesis
    using 1(3) 2(3) ds4 p unfolding connect_handle_def by (simp add: t [simplified])
qed

text \<open>
  C22. A CONNECT request is served as it arrives, in whatever pieces the network delivers it. With
  \<open>ds\<close> the reads up to the one that completes the blank line: a host that is not in the list gets the
  upstream connection, the answer, and the bridge; one in the list gets resolution past the hosts
  file, TLS to the upstream, the answer, TLS to the client, and the relays. In both cases the tunnel
  starts with the read after \<open>ds\<close>: what the client sent behind the blank line in the same read
  (\<open>early\<close>) stays in the reader's buffer and is lost.
\<close>

theorem connect_opens_tunnel:
  assumes "host_ok host" and "port < 65536" and "list_all header_line_ok hs"
    and "concat ds = connect_request host port hs @ early" and "[] \<notin> set ds"
    and "length (concat (butlast ds)) < length (connect_request host port hs)"
    and "tcp env (Named host) port = None" and "resolve_bypass_hosts (udp env) host = Done (Inr ip)"
    and "tcp env (Addr ip) port = None" and "valid_server_name env host" and "upstream_handshake env host = None"
    and "client_write env = None" and "leaf_cert env host = None" and "client_handshake env host = None"
    and "bridge env = None"
  shows "connect_handle env cfg (map Data ds @ later) = Done (
    if host \<in> set (intercept_domains cfg)
    then ([Tcp_connect (Addr ip) port, Upstream_tls host, Write_client established, Client_tls host, Run_intercept host],
          intercept_result env)
    else ([Tcp_connect (Named host) port, Write_client established, Bridge later], Inr ()))"
  unfolding connect_request_handled [OF assms(1-6)]
  using assms(7-) by (simp add: is_intercepted_def list_ex_iff mitm_def passthrough_def step_def)

definition sample_net :: net_env where
  "sample_net = \<lparr>udp = network_of sample_servers, tcp = (\<lambda>e p. None), valid_server_name = (\<lambda>h. True),
     upstream_handshake = (\<lambda>h. None), client_handshake = (\<lambda>h. None), leaf_cert = (\<lambda>h. None), client_write = None,
     bridge = None, intercept_result = Inr ()\<rparr>"

definition sample_reads :: "bytes list" where
  "sample_reads = [''CONNECT api.ope'', ''nai.com:443 HTTP/1.1'' @ crlf @ ''Host: x'' @ crlf @ crlf @ ''early'']"

lemma sample_resolves:
  "resolve_bypass_hosts (udp sample_net) ''api.openai.com'' = Done (Inr (V4 (CHR ''a'') (CHR ''b'') (CHR ''c'') (CHR ''d'')))"
  using resolve_loop_network [of "''api.openai.com''" dns_servers sample_servers]
  by (simp add: sample_net_def resolve_bypass_hosts_def dns_servers_def sample_servers_def label_ok_def rr_ok_def is_pointer_iff
      enc_reply_def build_dns_a_query_def enc_rr_def enc_labels_def dns_label_def List.map_filter_def)

lemma show_443: "show_nat 443 = ''443''"
  by code_simp

lemma sample_reads_ok:
  "host_ok ''api.openai.com''" "list_all header_line_ok [''Host: x'']"
  "concat sample_reads = connect_request ''api.openai.com'' 443 [''Host: x''] @ ''early''"
  "[] \<notin> set sample_reads" "length (concat (butlast sample_reads)) < length (connect_request ''api.openai.com'' 443 [''Host: x''])"
  by (simp_all add: host_ok_def byte_def header_line_ok_def ascii_literal sample_reads_def connect_request_def connect_line_def
      header_lines_def show_443 crlf_def)

theorem connect_opens_tunnel_witness:
  "connect_handle sample_net (default_config ''d'') (map Data sample_reads @ [Data ''hello'']) =
    Done ([Tcp_connect (Addr (V4 (CHR ''a'') (CHR ''b'') (CHR ''c'') (CHR ''d''))) 443, Upstream_tls ''api.openai.com'',
           Write_client established, Client_tls ''api.openai.com'', Run_intercept ''api.openai.com''], Inr ())"
  using connect_opens_tunnel [OF sample_reads_ok(1) _ sample_reads_ok(2-5) _ sample_resolves, of "default_config ''d''" "[Data ''hello'']"]
  by (simp add: sample_net_def default_config_def default_domains_def)

lemma sample_connect_run:
  "connect_handle sample_net (default_config ''d'') (map Data sample_reads @ [Data ''hello'']) =
    Done ([Tcp_connect (Addr (V4 (CHR ''a'') (CHR ''b'') (CHR ''c'') (CHR ''d''))) 443, Upstream_tls ''api.openai.com'',
           Write_client established, Client_tls ''api.openai.com'', Run_intercept ''api.openai.com''], Inr ())"
  unfolding connect_request_handled [OF sample_reads_ok(1) _ sample_reads_ok(2-5), simplified]
  using sample_resolves
  by (simp add: sample_net_def default_config_def default_domains_def mitm_def step_def is_intercepted_def)


text \<open>Names are compared byte by byte, although host names are the same in either case of letters.\<close>

lemma upper_case_host_bridged: "\<not> is_intercepted (default_config dir) ''API.OPENAI.COM''"
  by (simp add: is_intercepted_def default_config_def default_domains_def)

end
