(* ===== verification/Models.thy ===== *)
theory Models
  imports Config_Model
begin

text \<open>
  The language-model files (\<open>src/src/models/mod.rs\<close>) and the start-up step that fetches one
  (\<open>ensure_slm_model\<close> of \<open>src/src/main.rs\<close>): the catalog, the tracker of running downloads, and the three
  download routines, over a disk that maps paths to contents.

  The server's answer, the file operations that may fail, the digest and the floating-point percentage
  are parameters (\<open>fetch_env\<close>).
\<close>

section \<open>The catalog\<close>

record model_info =
  mi_id :: bytes
  mi_name :: bytes
  mi_description :: bytes
  mi_url :: bytes
  mi_sha256 :: bytes
  mi_size_mb :: nat

definition catalog :: "model_info list" where
  "catalog =
     [\<lparr>mi_id = ''smollm2-135m'', mi_name = ''SmolLM2-135M-Instruct'',
       mi_description = ''Smallest SLM for PII disambiguation (~105 MB, ~300 MB RAM)'',
       mi_url = ''https://huggingface.co/bartowski/SmolLM2-135M-Instruct-GGUF/resolve/main/SmolLM2-135M-Instruct-Q4_K_M.gguf'',
       mi_sha256 = ''2e8040ceae7815abe0dcb3540b9995eaa1fa0d2ca9e797d0a635ae4433c68c2d'', mi_size_mb = 105\<rparr>,
      \<lparr>mi_id = ''qwen2.5-0.5b'', mi_name = ''Qwen2.5-0.5B-Instruct'',
       mi_description = ''Compact SLM for PII disambiguation (~400 MB, ~800 MB RAM)'',
       mi_url = ''https://huggingface.co/Qwen/Qwen2.5-0.5B-Instruct-GGUF/resolve/main/qwen2.5-0.5b-instruct-q4_k_m.gguf'',
       mi_sha256 = ''a0ee18ee2bcb22c2b6c95360b292c2c40a2d7a03'', mi_size_mb = 400\<rparr>,
      \<lparr>mi_id = ''llama-3.2-1b'', mi_name = ''Llama-3.2-1B-Instruct'',
       mi_description = ''Balanced SLM for PII disambiguation (~700 MB, ~1.2 GB RAM)'',
       mi_url = ''https://huggingface.co/bartowski/Llama-3.2-1B-Instruct-GGUF/resolve/main/Llama-3.2-1B-Instruct-Q4_K_M.gguf'',
       mi_sha256 = ''ca7732416a22ac248814aadae1fb22505e475a92'', mi_size_mb = 700\<rparr>,
      \<lparr>mi_id = ''phi-3-mini-3.8b'', mi_name = ''Phi-3-mini-4k-instruct'',
       mi_description = ''High-accuracy SLM for PII disambiguation (~2.3 GB, ~3.5 GB RAM)'',
       mi_url = ''https://huggingface.co/microsoft/Phi-3-mini-4k-instruct-gguf/resolve/main/Phi-3-mini-4k-instruct-q4.gguf'',
       mi_sha256 = ''c72c1922442b8e09192da8d5e497a2738dec9d1b'', mi_size_mb = 2300\<rparr>]"

type_synonym disk = "bytes \<rightharpoonup> bytes"

definition model_path :: "disk \<Rightarrow> bytes \<Rightarrow> bytes \<Rightarrow> bytes" where
  "model_path disk dir i =
     (let gguf = path_join dir (i @ ''.gguf'') in
      if disk gguf \<noteq> None then gguf else path_join dir (i @ ''.onnx''))"

definition is_downloaded :: "disk \<Rightarrow> bytes \<Rightarrow> bytes \<Rightarrow> bool" where
  "is_downloaded disk dir i \<longleftrightarrow>
     disk (path_join dir (i @ ''.gguf'')) \<noteq> None \<or> disk (path_join dir (i @ ''.onnx'')) \<noteq> None"

section \<open>The tracker of downloads\<close>

text \<open>
  The map holds the sending half of a one-shot channel; dropping it fires the receiving half. A
  channel is a number, and an operation returns the channels whose sender it drops.
\<close>

record download_tracker =
  running :: "(bytes, nat) hashmap"
  next_channel :: nat

definition tracker_new :: download_tracker where
  "tracker_new = \<lparr>running = [], next_channel = 0\<rparr>"

definition dropped :: "(bytes, nat) hashmap \<Rightarrow> bytes \<Rightarrow> nat list" where
  "dropped m i = (case hm_get m i of None \<Rightarrow> [] | Some ch \<Rightarrow> [ch])"

definition tracker_register :: "bytes \<Rightarrow> download_tracker \<Rightarrow> nat \<times> nat list \<times> download_tracker" where
  "tracker_register i t =
     (next_channel t, dropped (running t) i,
      \<lparr>running = hm_insert i (next_channel t) (running t), next_channel = Suc (next_channel t)\<rparr>)"

definition tracker_cancel :: "bytes \<Rightarrow> download_tracker \<Rightarrow> nat list \<times> download_tracker" where
  "tracker_cancel i t = (dropped (running t) i, t\<lparr>running := hm_remove i (running t)\<rparr>)"

definition is_downloading :: "download_tracker \<Rightarrow> bytes \<Rightarrow> bool" where
  "is_downloading t i \<longleftrightarrow> hm_contains (running t) i"

definition tracker_complete :: "bytes \<Rightarrow> download_tracker \<Rightarrow> nat list \<times> download_tracker" where
  "tracker_complete i t = (dropped (running t) i, t\<lparr>running := hm_remove i (running t)\<rparr>)"

record model_entry =
  me_info :: model_info
  me_downloaded :: bool
  me_active :: bool
  me_progress :: "rat option"

definition get_api_entries :: "disk \<Rightarrow> bytes \<Rightarrow> bytes option \<Rightarrow> download_tracker option \<Rightarrow> model_entry list" where
  "get_api_entries disk dir active_model_id tracker =
     map (\<lambda>info.
       let downloaded = is_downloaded disk dir (mi_id info) in
       \<lparr>me_info = info, me_downloaded = downloaded,
        me_active = (case active_model_id of Some i \<Rightarrow> i = mi_id info | None \<Rightarrow> False),
        me_progress = (if \<not> downloaded
                       then obind tracker (\<lambda>t. if is_downloading t (mi_id info) then Some (- 1) else None)
                       else None)\<rparr>) catalog"

section \<open>Downloads\<close>

datatype chunk_read = Chunk bytes | Chunk_error bytes

datatype fetch_result = Fetch_error bytes | Bad_status nat | Body "nat option" "chunk_read list"

datatype model_error = Not_in_catalog bytes | No_url bytes | Network_error bytes | Server_status nat | Io_error bytes
  | Checksum_mismatch bytes bytes | Cancelled

record fetch_env =
  fetch :: "bytes \<Rightarrow> fetch_result"
  digest :: "bytes \<Rightarrow> bytes"
  can_create :: "bytes \<Rightarrow> bool"
  can_rename :: "bytes \<Rightarrow> bool"
  percent :: "nat \<Rightarrow> nat \<Rightarrow> int"

record progress_event =
  pe_model_id :: bytes
  pe_progress :: int
  pe_downloaded :: nat
  pe_total :: "nat option"

text \<open>\<open>url.split('/').next_back().filter(|s| !s.is_empty()).unwrap_or(..)\<close>.\<close>

definition url_filename :: "bytes \<Rightarrow> bytes \<Rightarrow> bytes" where
  "url_filename url fallback = (let s = List.last (split_on (CHR ''/'') url) in if s \<noteq> [] then s else fallback)"

text \<open>
  The copying loop: the bytes so far (they are hashed and written as they come), the last report,
  and the events. A failed read of the body or
  write of the file leaves what was written. The routines that print to the terminal run the same loop
  and drop its events.
\<close>

fun copy_loop :: "fetch_env \<Rightarrow> bytes \<Rightarrow> nat \<Rightarrow> nat option \<Rightarrow> nat \<Rightarrow> bytes \<Rightarrow> chunk_read list
    \<Rightarrow> bytes \<times> progress_event list \<times> (model_error + unit)" where
  "copy_loop env i threshold tot last_reported got [] = (got, [], Inr ())"
| "copy_loop env i threshold tot last_reported got (Chunk_error e # cs) = (got, [], Inl (Network_error e))"
| "copy_loop env i threshold tot last_reported got (Chunk b # cs) =
     (let got' = got @ b; downloaded = length got' in
      if threshold \<le> downloaded - last_reported
      then let progress = (case tot of Some t \<Rightarrow> if 0 < t then percent env downloaded t else - 1 | None \<Rightarrow> - 1);
               (out, evs, r) = copy_loop env i threshold tot downloaded got' cs
           in (out, \<lparr>pe_model_id = i, pe_progress = progress, pe_downloaded = downloaded, pe_total = tot\<rparr> # evs, r)
      else copy_loop env i threshold tot last_reported got' cs)"

definition checksum_ok :: "fetch_env \<Rightarrow> model_info \<Rightarrow> bytes \<Rightarrow> bool" where
  "checksum_ok env info content \<longleftrightarrow> mi_sha256 info = [] \<or> digest env content = mi_sha256 info"

definition download_with_progress :: "fetch_env \<Rightarrow> bytes \<Rightarrow> bytes \<Rightarrow> disk
    \<Rightarrow> disk \<times> progress_event list \<times> (model_error + unit)" where
  "download_with_progress env i dir disk =
     (case List.find (\<lambda>m. mi_id m = i) catalog of
        None \<Rightarrow> (disk, [], Inl (Not_in_catalog i))
      | Some info \<Rightarrow>
          if mi_url info = [] then (disk, [], Inl (No_url i))
          else if \<not> can_create env dir then (disk, [], Inl (Io_error dir))
          else
            let dest = path_join dir (url_filename (mi_url info) i) in
            (case fetch env (mi_url info) of
               Fetch_error e \<Rightarrow> (disk, [], Inl (Network_error e))
             | Bad_status s \<Rightarrow> (disk, [], Inl (Server_status s))
             | Body tot chunks \<Rightarrow>
                 if \<not> can_create env dest then (disk, [], Inl (Io_error dest))
                 else
                   let threshold = max (mi_size_mb info * 1024 * 1024 div 50) (4 * 1024 * 1024);
                       (content, evs, r) = copy_loop env i threshold tot 0 [] chunks;
                       disk' = disk(dest \<mapsto> content)
                   in case r of
                        Inl e \<Rightarrow> (disk', evs, Inl e)
                      | Inr _ \<Rightarrow>
                          if checksum_ok env info content
                          then (disk', evs @ [\<lparr>pe_model_id = i, pe_progress = 100, pe_downloaded = length content,
                                               pe_total = tot\<rparr>], Inr ())
                          else (disk', evs, Inl (Checksum_mismatch (mi_sha256 info) (digest env content)))))"

text \<open>
  The end of a background task: whether the download or the cancellation finished first is an
  argument. The registration under the model's id is removed, and after a failure the two files
  named after the id.
\<close>

definition remove_file :: "bytes \<Rightarrow> disk \<Rightarrow> disk" where
  "remove_file p disk = disk(p := None)"

definition background_finish :: "bytes \<Rightarrow> bytes \<Rightarrow> (model_error + unit) \<Rightarrow> download_tracker \<Rightarrow> disk
    \<Rightarrow> nat list \<times> download_tracker \<times> disk \<times> (bytes \<times> model_error) option" where
  "background_finish i dir result t disk =
     (let (fired, t') = tracker_complete i t in
      case result of
        Inr _ \<Rightarrow> (fired, t', disk, None)
      | Inl e \<Rightarrow> (fired, t', remove_file (path_join dir (i @ ''.onnx'')) (remove_file (path_join dir (i @ ''.gguf'')) disk),
                   Some (i, e)))"

definition download_to_file :: "fetch_env \<Rightarrow> model_info \<Rightarrow> bytes \<Rightarrow> disk \<Rightarrow> disk \<times> (model_error + unit)" where
  "download_to_file env info dest disk =
     (case fetch env (mi_url info) of
        Fetch_error e \<Rightarrow> (disk, Inl (Network_error e))
      | Bad_status s \<Rightarrow> (disk, Inl (Server_status s))
      | Body tot chunks \<Rightarrow>
          if \<not> can_create env dest then (disk, Inl (Io_error dest))
          else
            let (content, evs, r) = copy_loop env (mi_id info) 0 tot 0 [] chunks;
                disk' = disk(dest \<mapsto> content)
            in case r of
                 Inl e \<Rightarrow> (disk', Inl e)
               | Inr _ \<Rightarrow> if checksum_ok env info content then (disk', Inr ())
                         else (disk', Inl (Checksum_mismatch (mi_sha256 info) (digest env content))))"

definition model_install :: "fetch_env \<Rightarrow> bytes \<Rightarrow> bytes \<Rightarrow> disk \<Rightarrow> disk \<times> (model_error + unit)" where
  "model_install env name dir disk =
     (case List.find (\<lambda>m. mi_id m = name \<or> mi_name m = name) catalog of
        None \<Rightarrow> (disk, Inl (Not_in_catalog name))
      | Some info \<Rightarrow>
          if mi_url info = [] then (disk, Inl (No_url name))
          else if \<not> can_create env dir then (disk, Inl (Io_error dir))
          else
            let dest = path_join dir (url_filename (mi_url info) name) in
            (case download_to_file env info dest disk of
               (disk', Inr _) \<Rightarrow> (disk', Inr ())
             | (disk', Inl e) \<Rightarrow> (remove_file dest disk', Inl e)))"

text \<open>\<open>Path::with_extension\<close> on a file name: a leading dot does not begin an extension.\<close>

definition with_extension :: "bytes \<Rightarrow> bytes \<Rightarrow> bytes" where
  "with_extension name ext =
     (case rsplit_once (CHR ''.'') name of
        Some (stem, _) \<Rightarrow> if stem = [] then name @ ''.'' @ ext else stem @ ''.'' @ ext
      | None \<Rightarrow> name @ ''.'' @ ext)"

definition download_with_bar :: "fetch_env \<Rightarrow> model_info \<Rightarrow> bytes \<Rightarrow> disk \<Rightarrow> disk \<times> (model_error + unit)" where
  "download_with_bar env info dir disk =
     (if \<not> can_create env dir then (disk, Inl (Io_error dir))
      else
        let filename = List.last (split_on (CHR ''/'') (mi_url info));
            dest = path_join dir filename;
            tmp = path_join dir (with_extension filename ''tmp'') in
        (case fetch env (mi_url info) of
           Fetch_error e \<Rightarrow> (disk, Inl (Network_error e))
         | Bad_status s \<Rightarrow> (disk, Inl (Server_status s))
         | Body tot chunks \<Rightarrow>
             if \<not> can_create env tmp then (disk, Inl (Io_error tmp))
             else
               let (content, evs, r) = copy_loop env (mi_id info) 0 tot 0 [] chunks;
                   disk' = disk(tmp \<mapsto> content)
               in case r of
                    Inl e \<Rightarrow> (disk', Inl e)
                  | Inr _ \<Rightarrow>
                      if \<not> checksum_ok env info content
                      then (remove_file tmp disk', Inl (Checksum_mismatch (mi_sha256 info) (digest env content)))
                      else if \<not> can_rename env dest then (disk', Inl (Io_error dest))
                      else ((remove_file tmp disk')(dest \<mapsto> content), Inr ())))"

section \<open>Fetching a model at start-up\<close>

definition set_model_id :: "bytes option \<Rightarrow> config \<Rightarrow> config" where
  "set_model_id i cfg = cfg\<lparr>cfg_pii := (cfg_pii cfg)\<lparr>pii_slm := (pii_slm (cfg_pii cfg))\<lparr>slm_model_id := i\<rparr>\<rparr>\<rparr>"

text \<open>\<open>start_sidecar\<close> says whether the sidecar comes up with a model file. The result holds that file.\<close>

definition ensure_slm_model :: "fetch_env \<Rightarrow> config_codec \<Rightarrow> (bytes \<Rightarrow> bool) \<Rightarrow> bytes option \<Rightarrow> (disk \<Rightarrow> bytes \<Rightarrow> bool)
    \<Rightarrow> config \<Rightarrow> config_manager \<Rightarrow> disk \<Rightarrow> config \<times> config_manager \<times> disk \<times> bytes option" where
  "ensure_slm_model env codec writable home start_sidecar cfg mgr disk =
     (if \<not> tier_slm (pii_tiers (cfg_pii cfg)) then (cfg, mgr, disk, None)
      else
        let dir = resolved_models_dir home cfg in
        if (case slm_model_id (pii_slm (cfg_pii cfg)) of Some i \<Rightarrow> i \<noteq> [] \<and> is_downloaded disk dir i | None \<Rightarrow> False)
        then (cfg, mgr, disk, None)
        else
          (case download_with_bar env (hd catalog) dir disk of
             (disk', Inl e) \<Rightarrow> (set_slm False cfg, mgr, disk', None)
           | (disk', Inr _) \<Rightarrow>
               let cfg' = set_model_id (Some ''smollm2-135m'') cfg;
                   (mgr', r) = config_patch codec mgr
                     (json_obj [(''pii'', json_obj [(''slm'', json_obj [(''model_id'', JStr ''smollm2-135m'')])])]);
                   disk'' = (case r of Inl e \<Rightarrow> disk' | Inr _ \<Rightarrow> fst (save_to_disk codec writable mgr' disk'));
                   model_file = path_join dir ''smollm2-135m-instruct-q4_k_m.gguf''
               in if start_sidecar disk'' model_file then (cfg', mgr', disk'', Some model_file)
                  else (set_slm False cfg', mgr', disk'', None)))"

section \<open>Where the files go\<close>

lemma path_join_inj:
  "\<not> prefix ''/'' a \<Longrightarrow> \<not> prefix ''/'' b \<Longrightarrow> path_join dir a = path_join dir b \<longleftrightarrow> a = b"
  by (auto simp: path_join_def)

lemma copy_loop_content:
  "copy_loop env i th tot n got cs = (out, evs, r) \<Longrightarrow>
     (r = Inr () \<longrightarrow> (\<exists>bs. cs = map Chunk bs \<and> out = got @ concat bs))"
proof (induction env i th tot n got cs arbitrary: out evs r rule: copy_loop.induct)
  case (3 env i th tot n got b cs)
  obtain out' evs' where "copy_loop env i th tot (if th \<le> length (got @ b) - n then length (got @ b) else n) (got @ b) cs = (out', evs', r)"
    and "out' = out"
    using 3(3) by (auto simp: Let_def case_prod_unfold split: if_splits) (metis prod.collapse)+
  then have "r = Inr () \<longrightarrow> (\<exists>bs. cs = map Chunk bs \<and> out = (got @ b) @ concat bs)"
    using 3(1,2) by (auto simp: Let_def split: if_splits)
  then show ?case by (auto intro: exI [of _ "b # _"])
qed auto

definition catalog_file :: "model_info \<Rightarrow> bytes" where
  "catalog_file info = List.last (split_on (CHR ''/'') (mi_url info))"

text \<open>The catalog, file by file: no file name is that of an identifier, and the staging name is another.\<close>

definition id_files :: "model_info \<Rightarrow> bytes list" where
  "id_files m = [mi_id m @ ''.gguf'', mi_id m @ ''.onnx'']"

definition own_files :: "model_info \<Rightarrow> bytes list" where
  "own_files info = [catalog_file info, with_extension (catalog_file info) ''tmp'']"

definition relative :: "bytes \<Rightarrow> bool" where
  "relative p \<longleftrightarrow> \<not> prefix ''/'' p"

lemma catalog_checked:
  "list_all (\<lambda>info. catalog_file info \<noteq> [] \<and> distinct (own_files info) \<and> list_all relative (own_files info)
     \<and> list_all relative (id_files info)) catalog"
  "list_all (\<lambda>info. list_all (\<lambda>m. list_all (\<lambda>f. f \<notin> set (id_files m)) (own_files info)) catalog) catalog"
  by code_simp+

lemma catalog_files:
  assumes "info \<in> set catalog"
  shows "catalog_file info \<noteq> []" and "with_extension (catalog_file info) ''tmp'' \<noteq> catalog_file info"
    and "f \<in> set (own_files info) \<Longrightarrow> \<not> prefix ''/'' f"
    and "m \<in> set catalog \<Longrightarrow> f \<in> set (own_files info) \<Longrightarrow> g \<in> set (id_files m) \<Longrightarrow> f \<noteq> g \<and> \<not> prefix ''/'' g"
proof -
  note c = catalog_checked [unfolded list_all_iff relative_def, rule_format]
  show "catalog_file info \<noteq> []" "with_extension (catalog_file info) ''tmp'' \<noteq> catalog_file info"
    using c(1) [OF assms] by (auto simp: own_files_def)
  show "f \<in> set (own_files info) \<Longrightarrow> \<not> prefix ''/'' f" using c(1) [OF assms] by blast
  show "m \<in> set catalog \<Longrightarrow> f \<in> set (own_files info) \<Longrightarrow> g \<in> set (id_files m) \<Longrightarrow> f \<noteq> g \<and> \<not> prefix ''/'' g"
    using c(1) [of m] c(2) [OF assms, of m f] by blast
qed

lemma is_downloaded_files: "is_downloaded disk dir (mi_id m) \<longleftrightarrow> (\<exists>g\<in>set (id_files m). disk (path_join dir g) \<noteq> None)"
  by (simp add: is_downloaded_def id_files_def)

definition same_but :: "bytes list \<Rightarrow> disk \<Rightarrow> disk \<Rightarrow> bool" where
  "same_but ps disk disk' \<longleftrightarrow> (\<forall>p. p \<notin> set ps \<longrightarrow> disk' p = disk p)"

lemma own_files_change_nothing:
  assumes "info \<in> set catalog" and "m \<in> set catalog" and "same_but (map (path_join dir) (own_files info)) disk disk'"
  shows "is_downloaded disk' dir (mi_id m) = is_downloaded disk dir (mi_id m)"
proof -
  have "disk' (path_join dir g) = disk (path_join dir g)" if "g \<in> set (id_files m)" for g
  proof -
    have "path_join dir g \<noteq> path_join dir f" if f: "f \<in> set (own_files info)" for f
      using catalog_files(3) [OF assms(1) f] catalog_files(4) [OF assms(1,2) f \<open>g \<in> set (id_files m)\<close>] path_join_inj by metis
    then show ?thesis using assms(3) by (auto simp: same_but_def)
  qed
  then show ?thesis by (auto simp: is_downloaded_files)
qed

lemma find_catalog: "List.find P catalog = Some info \<Longrightarrow> info \<in> set catalog"
  by (metis find_Some_iff nth_mem)

lemma url_filename_catalog: "info \<in> set catalog \<Longrightarrow> url_filename (mi_url info) i = catalog_file info"
  using catalog_files(1) [of info] by (simp add: url_filename_def catalog_file_def)

lemma download_with_progress_files:
  assumes "download_with_progress env i dir disk = (disk', evs, r)"
  shows "disk' = disk \<or> (\<exists>info\<in>set catalog. mi_id info = i \<and> same_but [path_join dir (catalog_file info)] disk disk')"
proof (cases "List.find (\<lambda>m. mi_id m = i) catalog")
  case None
  then show ?thesis using assms by (simp add: download_with_progress_def)
next
  case (Some info)
  have "info \<in> set catalog" "mi_id info = i" using Some by (auto simp: find_Some_iff)
  then show ?thesis
    using assms Some url_filename_catalog [of info i]
    by (auto simp: download_with_progress_def Let_def case_prod_unfold same_but_def
        split: if_splits fetch_result.splits sum.splits)
qed

lemma download_with_bar_cases:
  assumes "info \<in> set catalog" and "download_with_bar env info dir disk = (disk', r)"
  defines "dest \<equiv> path_join dir (catalog_file info)" and "tmp \<equiv> path_join dir (with_extension (catalog_file info) ''tmp'')"
  shows "tmp \<noteq> dest" and "r = Inr () \<Longrightarrow> \<exists>bs tot. fetch env (mi_url info) = Body tot (map Chunk bs)
      \<and> checksum_ok env info (concat bs) \<and> disk' = disk(tmp := None, dest \<mapsto> concat bs)"
    and "r \<noteq> Inr () \<Longrightarrow> same_but [tmp] disk disk'"
proof -
  have own: "with_extension (catalog_file info) ''tmp'' \<in> set (own_files info)" "catalog_file info \<in> set (own_files info)"
    by (simp_all add: own_files_def)
  show "tmp \<noteq> dest"
    unfolding tmp_def dest_def using catalog_files(2,3) [OF assms(1)] own path_join_inj by metis
  show "same_but [tmp] disk disk'" if "r \<noteq> Inr ()"
    using assms(2) that
    by (auto simp: download_with_bar_def Let_def case_prod_unfold same_but_def tmp_def catalog_file_def remove_file_def
        split: if_splits fetch_result.splits sum.splits)
  show "\<exists>bs tot. fetch env (mi_url info) = Body tot (map Chunk bs)
      \<and> checksum_ok env info (concat bs) \<and> disk' = disk(tmp := None, dest \<mapsto> concat bs)" if r: "r = Inr ()"
  proof -
    obtain tot cs where f: "fetch env (mi_url info) = Body tot cs"
      using assms(2) r by (cases "fetch env (mi_url info)") (auto simp: download_with_bar_def Let_def split: if_splits)
    obtain out evs q where c: "copy_loop env (mi_id info) 0 tot 0 [] cs = (out, evs, q)" using prod_cases3 by blast
    have q: "q = Inr ()" "checksum_ok env info out" "disk' = disk(tmp := None, dest \<mapsto> out)"
      using assms(2) r f c
      by (auto simp: download_with_bar_def Let_def tmp_def dest_def catalog_file_def remove_file_def fun_upd_def
          split: if_splits sum.splits)
    then obtain bs where "cs = map Chunk bs" "out = concat bs" using copy_loop_content [OF c] by auto
    with f q show ?thesis by blast
  qed
qed

text \<open>
  C33. \<open>download_with_bar\<close> stages into a temporary file: for every model of the catalog, a download
  that fails (no answer, a bad status, a broken body, a wrong checksum, a failed rename) leaves every
  file but the temporary one as it was, so never a partial model; one that succeeds has put exactly
  the bytes of the body, with the right checksum, in place, and removed the temporary file.
\<close>

theorem download_with_bar_atomic:
  assumes "info \<in> set catalog"
  shows "case download_with_bar env info dir disk of
      (disk', Inl e) \<Rightarrow> \<forall>p. p \<noteq> path_join dir (with_extension (catalog_file info) ''tmp'') \<longrightarrow> disk' p = disk p
    | (disk', Inr _) \<Rightarrow> \<exists>bs tot. fetch env (mi_url info) = Body tot (map Chunk bs) \<and> checksum_ok env info (concat bs)
        \<and> disk' = disk(path_join dir (with_extension (catalog_file info) ''tmp'') := None,
                       path_join dir (catalog_file info) \<mapsto> concat bs)"
proof -
  obtain disk' r where d: "download_with_bar env info dir disk = (disk', r)" by fastforce
  show ?thesis using download_with_bar_cases(2,3) [OF assms d] by (cases r) (auto simp: d same_but_def)
qed

text \<open>
  No downloaded model is ever recognised: the routines save under the last segment of the URL,
  the rest of the program looks for the model's identifier. After any of them, successful or not,
  \<open>is_downloaded\<close> says of every model of the catalog what it said before.
\<close>

theorem download_not_recognised:
  assumes "info \<in> set catalog" and "m \<in> set catalog"
  shows "is_downloaded (fst (download_with_bar env info dir disk)) dir (mi_id m) = is_downloaded disk dir (mi_id m)
    \<and> is_downloaded (fst (download_with_progress env i dir disk)) dir (mi_id m) = is_downloaded disk dir (mi_id m)"
proof
  obtain disk' r where d: "download_with_bar env info dir disk = (disk', r)" by fastforce
  have "same_but (map (path_join dir) (own_files info)) disk disk'"
    using download_with_bar_cases(2,3) [OF assms(1) d] by (cases r) (auto simp: same_but_def own_files_def)
  then show "is_downloaded (fst (download_with_bar env info dir disk)) dir (mi_id m) = is_downloaded disk dir (mi_id m)"
    using own_files_change_nothing [OF assms] by (simp add: d)
  obtain disk'' evs q where p: "download_with_progress env i dir disk = (disk'', evs, q)" using prod_cases3 by blast
  from download_with_progress_files [OF p]
  show "is_downloaded (fst (download_with_progress env i dir disk)) dir (mi_id m) = is_downloaded disk dir (mi_id m)"
  proof
    assume "\<exists>info\<in>set catalog. mi_id info = i \<and> same_but [path_join dir (catalog_file info)] disk disk''"
    then obtain n where n: "n \<in> set catalog" "same_but [path_join dir (catalog_file n)] disk disk''" by blast
    then have "same_but (map (path_join dir) (own_files n)) disk disk''" by (simp add: same_but_def own_files_def)
    then show ?thesis using own_files_change_nothing [OF n(1) assms(2)] by (simp add: p)
  qed (simp add: p)
qed

lemma find_by_key: "distinct (map f xs) \<Longrightarrow> x \<in> set xs \<Longrightarrow> List.find (\<lambda>m. f m = f x) xs = Some x"
  by (induction xs) auto

definition sample_fetch :: fetch_env where
  "sample_fetch = \<lparr>fetch = (\<lambda>u. Body (Some 4) [Chunk ''GG'', Chunk ''UF'']),
     digest = (\<lambda>c. ''2e8040ceae7815abe0dcb3540b9995eaa1fa0d2ca9e797d0a635ae4433c68c2d''),
     can_create = (\<lambda>p. True), can_rename = (\<lambda>p. True), percent = (\<lambda>d t. int (100 * d div t))\<rparr>"

lemma hd_catalog: "hd catalog \<in> set catalog" "mi_sha256 (hd catalog) = ''2e8040ceae7815abe0dcb3540b9995eaa1fa0d2ca9e797d0a635ae4433c68c2d''"
  "mi_id (hd catalog) = ''smollm2-135m''"
  by (simp_all add: catalog_def)

lemma sample_download:
  "snd (download_with_bar sample_fetch (hd catalog) ''/m'' Map.empty) = Inr ()"
  by (simp add: download_with_bar_def sample_fetch_def Let_def checksum_ok_def hd_catalog)

theorem download_with_bar_atomic_witness:
  "\<exists>bs tot. fetch sample_fetch (mi_url (hd catalog)) = Body tot (map Chunk bs) \<and> checksum_ok sample_fetch (hd catalog) (concat bs)
     \<and> fst (download_with_bar sample_fetch (hd catalog) ''/m'' Map.empty)
       = Map.empty(path_join ''/m'' (with_extension (catalog_file (hd catalog)) ''tmp'') := None,
                   path_join ''/m'' (catalog_file (hd catalog)) \<mapsto> concat bs)"
  using download_with_bar_atomic [OF hd_catalog(1), where env = sample_fetch and dir = "''/m''" and disk = Map.empty] sample_download
  by (auto simp: case_prod_unfold split: sum.splits)

theorem download_not_recognised_witness:
  "snd (download_with_bar sample_fetch (hd catalog) ''/m'' Map.empty) = Inr ()
    \<and> \<not> is_downloaded (fst (download_with_bar sample_fetch (hd catalog) ''/m'' Map.empty)) ''/m'' ''smollm2-135m''"
  using download_not_recognised [OF hd_catalog(1) hd_catalog(1), where env = sample_fetch and dir = "''/m''" and disk = Map.empty]
    sample_download
  by (simp add: hd_catalog is_downloaded_def)

text \<open>
  Three of the four models can never be installed: a SHA-256 digest in hexadecimal has 64 digits,
  and the catalog gives 40 for every model but the first, so with any content the checksum fails.
\<close>

theorem checksum_never_matches:
  assumes "\<forall>c. length (digest env c) = 64" and "info \<in> set (tl catalog)"
  shows "snd (download_with_bar env info dir disk) \<noteq> Inr () \<and> snd (snd (download_with_progress env (mi_id info) dir disk)) \<noteq> Inr ()"
proof -
  have "\<forall>m\<in>set (tl catalog). length (mi_sha256 m) = 40" by (simp add: catalog_def)
  then have len: "length (mi_sha256 info) = 40" using assms(2) by blast
  have "digest env c \<noteq> mi_sha256 info" for c
  proof
    assume "digest env c = mi_sha256 info"
    then have "length (digest env c) = 40" using len by simp
    then show False using assms(1) by simp
  qed
  then have bad: "\<not> checksum_ok env info c" for c using len by (auto simp: checksum_ok_def)
  have i: "info \<in> set catalog" using assms(2) by (simp add: catalog_def)
  have "distinct (map mi_id catalog)" by (simp add: catalog_def)
  then have f: "List.find (\<lambda>m. mi_id m = mi_id info) catalog = Some info"
    using i by (rule find_by_key)
  have b: "snd (download_with_bar env info dir disk) \<noteq> Inr ()"
    using download_with_bar_cases(2) [OF i, of env dir disk] bad by (metis prod.collapse)
  have "snd (snd (download_with_progress env (mi_id info) dir disk)) \<noteq> Inr ()"
    using bad by (simp add: download_with_progress_def f Let_def case_prod_unfold split: fetch_result.split sum.split)
  with b show ?thesis by blast
qed

theorem checksum_never_matches_witness:
  "snd (download_with_bar sample_fetch (catalog ! 3) ''/m'' Map.empty) \<noteq> Inr ()"
proof -
  have "\<forall>c. length (digest sample_fetch c) = 64" by (simp add: sample_fetch_def)
  moreover have "catalog ! 3 \<in> set (tl catalog)" by (simp add: catalog_def)
  ultimately show ?thesis using checksum_never_matches [of sample_fetch "catalog ! 3" "''/m''" Map.empty] by blast
qed

text \<open>
  A download that was cancelled takes the next one of the same model down with it: cancel,
  start again before the first task has ended, and when it ends its \<open>complete\<close> removes the
  registration of the second download, whose channel fires although nobody cancelled it.
\<close>

theorem complete_cancels_successor:
  "(let (a, f0, t1) = tracker_register i t; (f1, t2) = tracker_cancel i t1; (b, f2, t3) = tracker_register i t2;
        (f3, t4, d, err) = background_finish i dir (Inl Cancelled) t3 disk
    in a \<noteq> b \<and> f1 = [a] \<and> f3 = [b] \<and> \<not> is_downloading t4 i)"
  by (simp add: tracker_register_def tracker_cancel_def background_finish_def tracker_complete_def dropped_def
      is_downloading_def hm_contains_def hm_get_def hm_insert_def hm_remove_def update_conv' delete_conv')

text \<open>What the tracker is for holds when the tasks do not overlap.\<close>

lemma tracker_laws:
  assumes "hm_ok (running t)"
  shows "is_downloading (snd (snd (tracker_register i t))) j \<longleftrightarrow> j = i \<or> is_downloading t j"
    and "is_downloading (snd (tracker_cancel i t)) j \<longleftrightarrow> j \<noteq> i \<and> is_downloading t j"
    and "is_downloading (snd (tracker_complete i t)) j \<longleftrightarrow> j \<noteq> i \<and> is_downloading t j"
  using assms
  by (auto simp: tracker_register_def tracker_cancel_def tracker_complete_def is_downloading_def hm_contains_def
      hm.get_put hm.get_del split: if_splits)

text \<open>
  At start-up the sidecar is given a file name that the download did not write: the catalog's file in
  lower case. Where the two differ, the third tier is off for the session although the download succeeded.
\<close>

lemma save_to_disk_other:
  "config_path mgr \<noteq> Some p \<Longrightarrow> fst (save_to_disk codec writable mgr disk) p = disk p"
  by (auto simp: save_to_disk_def split: option.split)

lemma config_patch_path: "config_path (fst (config_patch codec mgr q)) = config_path mgr"
  by (cases rule: config_patch_cases [of codec mgr q]) simp_all

lemma smollm_file: "catalog_file (hd catalog) = ''SmolLM2-135M-Instruct-Q4_K_M.gguf''"
  by code_simp

lemma ensure_slm_model_disables:
  assumes "tier_slm (pii_tiers (cfg_pii cfg))" and "slm_model_id (pii_slm (cfg_pii cfg)) = None"
    and "disk model_file = None" and "\<forall>d p. start_sidecar d p \<longrightarrow> d p \<noteq> None" and "config_path mgr \<noteq> Some model_file"
    and "model_file = path_join (resolved_models_dir home cfg) ''smollm2-135m-instruct-q4_k_m.gguf''"
  shows "\<not> tier_slm (pii_tiers (cfg_pii (fst (ensure_slm_model env codec writable home start_sidecar cfg mgr disk))))"
proof -
  let ?dir = "resolved_models_dir home cfg"
  obtain disk' r where d: "download_with_bar env (hd catalog) ?dir disk = (disk', r)" by fastforce
  show ?thesis
  proof (cases r)
    case (Inl e)
    then show ?thesis using assms(1,2) d by (simp add: ensure_slm_model_def Let_def set_slm_def)
  next
    case (Inr u)
    then have "r = Inr ()" by simp
    then obtain bs where bs: "disk' = disk(path_join ?dir (with_extension (catalog_file (hd catalog)) ''tmp'') := None,
        path_join ?dir (catalog_file (hd catalog)) \<mapsto> concat bs)"
      using download_with_bar_cases(2) [OF hd_catalog(1) d] by blast
    have "path_join ?dir (catalog_file (hd catalog)) \<noteq> model_file"
      unfolding assms(6) smollm_file by (subst path_join_inj) auto
    then have absent: "disk' model_file = None" using bs assms(3) by simp
    let ?q = "json_obj [(''pii'', json_obj [(''slm'', json_obj [(''model_id'', JStr ''smollm2-135m'')])])]"
    obtain mgr' res where m: "config_patch codec mgr ?q = (mgr', res)" by fastforce
    have "fst (save_to_disk codec writable mgr' disk') model_file = None"
      using save_to_disk_other [of mgr' model_file] config_patch_path [of codec mgr ?q] assms(5) absent by (simp add: m)
    then have "\<not> start_sidecar (case res of Inl e \<Rightarrow> disk' | Inr _ \<Rightarrow> fst (save_to_disk codec writable mgr' disk')) model_file"
      using assms(4) absent by (cases res) fastforce+
    then show ?thesis
      using assms(1,2) d Inr m unfolding assms(6) by (simp add: ensure_slm_model_def Let_def set_slm_def)
  qed
qed

end
