(* ===== verification/Dashboard.thy ===== *)
theory Dashboard
  imports Storage Models
begin

text \<open>
  The dashboard's HTTP interface (\<open>src/src/dashboard/mod.rs\<close>): \<open>dispatch\<close> from the request line and headers,
  \<open>handle_http\<close> with one definition per endpoint, in the order the code tests them, and the replies as
  bytes. The WebSocket stream that follows an upgrade is not modelled beyond the decision to upgrade.

  Parameters (\<open>dash_env\<close>): serde's texts of the values that are sent, the embedded assets, the version
  numbers of the build, and whether the language-model sidecar comes up with a file.
\<close>

section \<open>Data\<close>

datatype dash_event = ConfigChanged "bytes list" bool | ProxyStatus bool bytes

record dash_env =
  de_store :: codec
  de_codec :: config_codec
  de_writable :: "bytes \<Rightarrow> bool"
  de_home :: "bytes option"
  json_print :: "json \<Rightarrow> bytes"
  json_parse :: "bytes \<Rightarrow> json option"
  conv_json :: "conversation \<Rightarrow> json"
  msg_json :: "stored_message \<Rightarrow> json"
  det_json :: "message_detection \<Rightarrow> json"
  entry_json :: "model_entry \<Rightarrow> json"
  config_text :: "config \<Rightarrow> bytes option"
  result_text :: "patch_result \<Rightarrow> bytes"
  error_text :: "config_error \<Rightarrow> bytes"
  assets :: "bytes \<Rightarrow> bytes option"
  version_json :: json
  sidecar_starts :: "disk \<Rightarrow> bytes \<Rightarrow> bool"

record dash_state =
  d_store :: store
  d_mgr :: config_manager
  d_disk :: disk
  d_running :: bool
  d_shutdown :: bool
  d_pid_file :: bool
  d_tracker :: download_tracker
  d_downloads :: "(bytes \<times> nat) list"
  d_sidecar :: "bytes option"
  d_events :: "dash_event list"

section \<open>Replies\<close>

definition json_type :: bytes where
  "json_type = ''application/json''"

definition response_head :: "nat \<Rightarrow> bytes \<Rightarrow> nat \<Rightarrow> bytes" where
  "response_head status content_type len =
     ''HTTP/1.1 '' @ show_nat status @ crlf @ ''Content-Type: '' @ content_type @ crlf
     @ ''Content-Length: '' @ show_nat len @ crlf @ ''Access-Control-Allow-Origin: *'' @ crlf
     @ ''Connection: close'' @ crlf @ crlf"

definition send_response :: "nat \<Rightarrow> bytes \<Rightarrow> bytes \<Rightarrow> bytes" where
  "send_response status content_type body = response_head status content_type (length body) @ body"

text \<open>The two interfaces of a conversation write their own head.\<close>

definition ok_response :: "bytes \<Rightarrow> bytes" where
  "ok_response body =
     ''HTTP/1.1 200 OK'' @ crlf @ ''Content-Type: application/json'' @ crlf
     @ ''Content-Length: '' @ show_nat (length body) @ crlf @ ''Access-Control-Allow-Origin: *'' @ crlf @ crlf @ body"

definition preflight_response :: bytes where
  "preflight_response =
     ''HTTP/1.1 204'' @ crlf @ ''Access-Control-Allow-Origin: *'' @ crlf
     @ ''Access-Control-Allow-Methods: GET, POST, PATCH, DELETE, OPTIONS'' @ crlf
     @ ''Access-Control-Allow-Headers: Content-Type'' @ crlf @ ''Connection: close'' @ crlf @ crlf"

definition json_reply :: "dash_env \<Rightarrow> nat \<Rightarrow> json \<Rightarrow> bytes" where
  "json_reply env status v = send_response status json_type (json_print env v)"

definition refusal :: "dash_env \<Rightarrow> bytes \<Rightarrow> bytes" where
  "refusal env msg = json_reply env 409 (json_obj [(''ok'', JBool False), (''error'', JStr msg)])"

section \<open>Queries and paths\<close>

definition parse_query_limit :: "bytes \<Rightarrow> nat option" where
  "parse_query_limit p =
     obind (split_once (CHR ''?'') p) (\<lambda>(_, qs).
       obind (List.find (\<lambda>pair. prefix ''limit='' pair) (split_on (CHR ''&'') qs)) (\<lambda>pair.
         parse_uint 10 usize_max (drop (length ''limit='') pair)))"

definition strip_suffix :: "bytes \<Rightarrow> bytes \<Rightarrow> bytes option" where
  "strip_suffix x s = (if suffix x s then Some (take (length s - length x) s) else None)"

function trim_start_matches :: "bytes \<Rightarrow> bytes \<Rightarrow> bytes" where
  "trim_start_matches p s = (if p \<noteq> [] \<and> prefix p s then trim_start_matches p (drop (length p) s) else s)"
  by pat_completeness auto
termination
  by (relation "measure (\<lambda>(p, s). length s)") (auto simp: prefix_def)

declare trim_start_matches.simps [simp del]

definition or_default :: "bytes option \<Rightarrow> bytes" where
  "or_default x = (case x of Some s \<Rightarrow> s | None \<Rightarrow> [])"

definition CONVERSATIONS :: bytes where
  "CONVERSATIONS = ''/api/conversations/''"

definition MODELS :: bytes where
  "MODELS = ''/api/models/''"

text \<open>The identifier in \<open>/api/models/:id/download\<close> and \<open>/api/models/:id/activate\<close>.\<close>

definition model_action :: "bytes \<Rightarrow> bytes \<Rightarrow> bytes option" where
  "model_action act p = obind (strip_prefix MODELS p) (strip_suffix (CHR ''/'' # act))"

section \<open>Conversations\<close>

text \<open>Entity types are ASCII words; their upper case is that of ASCII.\<close>

definition vault_record_json :: "stored_vault_record \<Rightarrow> json" where
  "vault_record_json r = json_obj
     [(''type'', JStr (sv_pii_type r)), (''original'', JStr (sv_original r)),
      (''original_masked'', JStr (''['' @ map ascii_upper (sv_pii_type r) @ '']'')),
      (''synthetic'', JStr (sv_synthetic r)),
      (''tier'', case sv_tier r of Some n \<Rightarrow> JNum (PosInt n) | None \<Rightarrow> JNull),
      (''confidence'', case sv_confidence r of Some c \<Rightarrow> JNum (Float c) | None \<Rightarrow> JNull)]"

definition handle_vault_api :: "dash_env \<Rightarrow> bytes \<Rightarrow> dash_state \<Rightarrow> dash_state \<times> bytes" where
  "handle_vault_api env conv_id st =
     (let (r, s) = load_vault (de_store env) conv_id (d_store st);
          vault_data = (case r of Inr (Some (_, records)) \<Rightarrow> map vault_record_json records | _ \<Rightarrow> [])
      in (st\<lparr>d_store := s\<rparr>, ok_response (json_print env (JArr vault_data))))"

definition handle_detections_api :: "dash_env \<Rightarrow> bytes \<Rightarrow> bytes option \<Rightarrow> dash_state \<Rightarrow> dash_state \<times> bytes" where
  "handle_detections_api env conv_id message_id st =
     (let (r, s) = load_detections (de_store env) conv_id message_id (d_store st);
          detections = (case r of Inr ds \<Rightarrow> ds | Inl _ \<Rightarrow> [])
      in (st\<lparr>d_store := s\<rparr>, ok_response (json_print env (JArr (map (det_json env) detections)))))"

definition detections_query :: "bytes \<Rightarrow> (bytes \<times> bytes option) option" where
  "detections_query p =
     (if prefix CONVERSATIONS p \<and> sublist ''/detections'' p then
        let after_prefix = or_default (strip_prefix CONVERSATIONS p);
            (path_part, query_part) =
              (case split_once (CHR ''?'') after_prefix of Some pq \<Rightarrow> pq | None \<Rightarrow> (after_prefix, []))
        in obind (strip_suffix ''/detections'' path_part) (\<lambda>conv_id.
             Some (conv_id, map_option (\<lambda>pair. drop (length ''message_id='') pair)
               (List.find (\<lambda>pair. prefix ''message_id='' pair) (split_on (CHR ''&'') query_part))))
      else None)"

section \<open>Configuration and proxy control\<close>

definition save_config :: "dash_env \<Rightarrow> dash_state \<Rightarrow> dash_state" where
  "save_config env st = st\<lparr>d_disk := fst (save_to_disk (de_codec env) (de_writable env) (d_mgr st) (d_disk st))\<rparr>"

definition patch_config :: "dash_env \<Rightarrow> json \<Rightarrow> dash_state \<Rightarrow> dash_state \<times> (config_error + patch_result)" where
  "patch_config env q st = (let (m, r) = config_patch (de_codec env) (d_mgr st) q in (st\<lparr>d_mgr := m\<rparr>, r))"

definition handle_patch_config :: "dash_env \<Rightarrow> bytes \<Rightarrow> dash_state \<Rightarrow> dash_state \<times> bytes" where
  "handle_patch_config env body_bytes st =
     (case json_parse env body_bytes of
        None \<Rightarrow> (st, send_response 400 json_type (''{'' @ [QUOTE] @ ''error'' @ [QUOTE] @ '':'' @ [QUOTE] @ ''invalid JSON'' @ [QUOTE] @ ''}''))
      | Some patch_val \<Rightarrow>
          (case patch_config env patch_val st of
             (st1, Inl e) \<Rightarrow> (st1, json_reply env 422 (json_obj [(''error'', JStr (error_text env e))]))
           | (st1, Inr result) \<Rightarrow>
               let st2 = save_config env st1 in
               (st2\<lparr>d_events := d_events st2 @ [ConfigChanged (changed_keys result) (restart_required result)]\<rparr>,
                send_response 200 json_type (result_text env result))))"

definition handle_status :: "dash_env \<Rightarrow> dash_state \<Rightarrow> bytes" where
  "handle_status env st =
     (let cfg = inner (d_mgr st) in
      json_reply env 200 (json_obj
        [(''running'', JBool (d_running st)), (''pii_mode'', JStr (pii_mode_str (cfg_pii cfg))),
         (''http_proxy'', JStr (pc_listen (cfg_proxy cfg))), (''network_proxy'', JStr (np_listen (cfg_network_proxy cfg)))]))"

definition ok_json :: bytes where
  "ok_json = ''{'' @ [QUOTE] @ ''ok'' @ [QUOTE] @ '':true}''"

definition proxy_status :: "bool \<Rightarrow> dash_state \<Rightarrow> dash_state" where
  "proxy_status b st =
     st\<lparr>d_running := b, d_events := d_events st @ [ProxyStatus b (pii_mode_str (cfg_pii (inner (d_mgr st))))]\<rparr>"

definition handle_proxy_start :: "dash_state \<Rightarrow> dash_state \<times> bytes" where
  "handle_proxy_start st = (proxy_status True st, send_response 200 json_type ok_json)"

definition handle_proxy_stop :: "dash_state \<Rightarrow> dash_state \<times> bytes" where
  "handle_proxy_stop st =
     ((proxy_status False st)\<lparr>d_shutdown := True, d_pid_file := False\<rparr>, send_response 200 json_type ok_json)"

section \<open>Models\<close>

abbreviation models_of :: "dash_env \<Rightarrow> dash_state \<Rightarrow> bytes" where
  "models_of env st \<equiv> resolved_models_dir (de_home env) (inner (d_mgr st))"

definition handle_models :: "dash_env \<Rightarrow> dash_state \<Rightarrow> bytes" where
  "handle_models env st =
     json_reply env 200 (JArr (map (entry_json env)
       (get_api_entries (d_disk st) (models_of env st) (slm_model_id (pii_slm (cfg_pii (inner (d_mgr st))))) (Some (d_tracker st)))))"

text \<open>A started download is its identifier and channel; the task itself runs on its own.\<close>

definition handle_download :: "dash_env \<Rightarrow> bytes \<Rightarrow> dash_state \<Rightarrow> dash_state \<times> bytes" where
  "handle_download env i st =
     (if is_downloaded (d_disk st) (models_of env st) i then (st, refusal env ''already downloaded'')
      else if is_downloading (d_tracker st) i then (st, refusal env ''download already in progress'')
      else
        let (ch, fired, t) = tracker_register i (d_tracker st) in
        (st\<lparr>d_tracker := t, d_downloads := (i, ch) # d_downloads st\<rparr>,
         send_response 202 json_type
           (''{'' @ [QUOTE] @ ''ok'' @ [QUOTE] @ '':true,'' @ [QUOTE] @ ''status'' @ [QUOTE] @ '':'' @ [QUOTE] @ ''downloading'' @ [QUOTE] @ ''}'')))"

definition handle_cancel :: "bytes \<Rightarrow> dash_state \<Rightarrow> dash_state \<times> bytes" where
  "handle_cancel i st =
     (st\<lparr>d_tracker := snd (tracker_cancel i (d_tracker st))\<rparr>, send_response 200 json_type ok_json)"

definition apply_patch :: "dash_env \<Rightarrow> json \<Rightarrow> dash_state \<Rightarrow> dash_state" where
  "apply_patch env q st = (case patch_config env q st of (st1, Inl e) \<Rightarrow> st1 | (st1, Inr r) \<Rightarrow> save_config env st1)"

definition handle_deactivate :: "dash_env \<Rightarrow> dash_state \<Rightarrow> dash_state \<times> bytes" where
  "handle_deactivate env st =
     (apply_patch env (json_obj [(''pii'', json_obj [(''slm'', json_obj [(''model_id'', JNull)]),
        (''tiers'', json_obj [(''slm'', JBool False)])])]) (st\<lparr>d_sidecar := None\<rparr>),
      send_response 200 json_type ok_json)"

definition handle_activate :: "dash_env \<Rightarrow> bytes \<Rightarrow> dash_state \<Rightarrow> dash_state \<times> bytes" where
  "handle_activate env i st =
     (if \<not> is_downloaded (d_disk st) (models_of env st) i then (st, refusal env ''model not downloaded'')
      else
        let model_file = model_path (d_disk st) (models_of env st) i;
            st1 = st\<lparr>d_sidecar := (if sidecar_starts env (d_disk st) model_file then Some model_file else None)\<rparr>
        in (apply_patch env (json_obj [(''pii'', json_obj [(''slm'', json_obj [(''model_id'', JStr i)])])]) st1,
            json_reply env 200 (json_obj [(''ok'', JBool True)])))"

text \<open>\<open>any\<close> stops at the first file that is removed; removing an existing file succeeds.\<close>

definition delete_model :: "bytes \<Rightarrow> bytes \<Rightarrow> disk \<Rightarrow> disk \<times> bool" where
  "delete_model dir i disk =
     (let onnx = path_join dir (i @ ''.onnx''); gguf = path_join dir (i @ ''.gguf'') in
      if disk onnx \<noteq> None then (remove_file onnx disk, True)
      else if disk gguf \<noteq> None then (remove_file gguf disk, True) else (disk, False))"

definition handle_delete_model :: "dash_env \<Rightarrow> bytes \<Rightarrow> dash_state \<Rightarrow> dash_state \<times> bytes" where
  "handle_delete_model env p st =
     (let i = trim_start_matches MODELS p in
      if slm_model_id (pii_slm (cfg_pii (inner (d_mgr st)))) = Some i
      then (st, refusal env ''deactivate model before deleting'')
      else
        let (disk', deleted) = delete_model (models_of env st) i (d_disk st) in
        (st\<lparr>d_disk := disk'\<rparr>, json_reply env 200 (json_obj [(''ok'', JBool deleted)])))"

section \<open>Pages and the remaining reads\<close>

definition serve_asset :: "dash_env \<Rightarrow> bytes \<Rightarrow> nat \<times> bytes \<times> bytes" where
  "serve_asset env name =
     (case assets env name of
        Some dat \<Rightarrow>
          let ext = List.last (split_on (CHR ''.'') name);
              ct = (if ext = ''html'' then ''text/html; charset=utf-8''
                    else if ext = ''css'' then ''text/css''
                    else if ext = ''js'' then ''application/javascript''
                    else ''application/octet-stream'')
          in (200, ct, dat)
      | None \<Rightarrow> (404, ''text/plain'', ''Not Found''))"

definition list_page :: "dash_env \<Rightarrow> bytes \<Rightarrow> dash_state \<Rightarrow> bytes" where
  "list_page env p st =
     (let limit = min (case parse_query_limit p of Some n \<Rightarrow> n | None \<Rightarrow> 50) 200
      in json_print env (JArr (map (conv_json env) (list_conversations (de_store env) limit (d_store st)))))"

definition conversation_page :: "dash_env \<Rightarrow> bytes \<Rightarrow> dash_state \<Rightarrow> dash_state \<times> bytes" where
  "conversation_page env p st =
     (let i = trim_start_matches CONVERSATIONS p;
          (conv, s1) = get_conversation_by_id (de_store env) i (d_store st);
          (msgs, s2) = get_messages (de_store env) i s1
      in (st\<lparr>d_store := s2\<rparr>,
          json_print env (json_obj
            [(''conversation'', case conv of Some c \<Rightarrow> conv_json env c | None \<Rightarrow> JNull),
             (''messages'', JArr (map (msg_json env) (case msgs of Inr ms \<Rightarrow> ms | Inl _ \<Rightarrow> [])))])))"

definition handle_page :: "dash_env \<Rightarrow> bytes \<Rightarrow> dash_state \<Rightarrow> dash_state \<times> bytes" where
  "handle_page env p st =
     (let (st', status, content_type, body) =
        (if p = ''/'' \<or> p = ''/index.html'' then (st, serve_asset env ''index.html'')
         else if p = ''/style.css'' then (st, serve_asset env ''style.css'')
         else if p = ''/app.js'' then (st, serve_asset env ''app.js'')
         else if p = ''/api/conversations'' \<or> prefix ''/api/conversations?'' p then (st, 200, json_type, list_page env p st)
         else if prefix CONVERSATIONS p
              then (fst (conversation_page env p st), 200, json_type, snd (conversation_page env p st))
         else if p = ''/api/version'' then (st, 200, json_type, json_print env (version_json env))
         else if p = ''/api/config''
              then (st, case config_text env (inner (d_mgr st)) of
                      Some body \<Rightarrow> (200, json_type, body)
                    | None \<Rightarrow> (500, json_type,
                        ''{'' @ [QUOTE] @ ''error'' @ [QUOTE] @ '':'' @ [QUOTE] @ ''serialisation failed'' @ [QUOTE] @ ''}''))
         else (st, 404, ''text/plain'', ''Not Found''))
      in (st', send_response status content_type body))"

section \<open>Routing\<close>

definition deletes_model :: "bytes \<Rightarrow> bytes \<Rightarrow> bool" where
  "deletes_model p meth \<longleftrightarrow> prefix MODELS p \<and> \<not> sublist ''/download'' p \<and> \<not> sublist ''/activate'' p
     \<and> \<not> sublist ''/deactivate'' p \<and> meth = ''DELETE''"

definition handle_http :: "dash_env \<Rightarrow> bytes \<Rightarrow> bytes \<Rightarrow> bytes option \<Rightarrow> dash_state \<Rightarrow> dash_state \<times> bytes" where
  "handle_http env p meth req_body st =
     (case detections_query p of
        Some (conv_id, message_id) \<Rightarrow> handle_detections_api env conv_id message_id st
      | None \<Rightarrow>
      if prefix CONVERSATIONS p \<and> suffix ''/vault'' p
      then handle_vault_api env
             (or_default (strip_suffix ''/vault'' (or_default (strip_prefix CONVERSATIONS p)))) st
      else if p = ''/api/config'' \<and> meth = ''PATCH'' then handle_patch_config env (or_default req_body) st
      else if p = ''/api/proxy/status'' \<and> meth = ''GET'' then (st, handle_status env st)
      else if meth = ''OPTIONS'' then (st, preflight_response)
      else if p = ''/api/proxy/start'' \<and> meth = ''POST'' then handle_proxy_start st
      else if p = ''/api/proxy/stop'' \<and> meth = ''POST'' then handle_proxy_stop st
      else if p = ''/api/models'' \<and> meth = ''GET'' then (st, handle_models env st)
      else if model_action ''download'' p \<noteq> None \<and> meth = ''POST'' then handle_download env (the (model_action ''download'' p)) st
      else if model_action ''download'' p \<noteq> None \<and> meth = ''DELETE'' then handle_cancel (the (model_action ''download'' p)) st
      else if p = ''/api/models/deactivate'' \<and> meth = ''POST'' then handle_deactivate env st
      else if model_action ''activate'' p \<noteq> None \<and> meth = ''POST'' then handle_activate env (the (model_action ''activate'' p)) st
      else if deletes_model p meth then handle_delete_model env p st
      else handle_page env p st)"

text \<open>
  \<open>dispatch\<close>: the request line and the header lines as they are read, and the bytes behind them. A
  body is read into a buffer of the announced length, which stays zero where the client sends less;
  a length that no buffer can have aborts the task.
\<close>

fun words_of :: "bytes \<Rightarrow> bytes list \<Rightarrow> bytes list" where
  "words_of cur [] = (if cur = [] then [] else [cur])"
| "words_of cur (c # cs) =
     (if is_whitespace c then (if cur = [] then [] else [cur]) @ words_of [] cs else words_of (cur @ c) cs)"

definition split_whitespace :: "bytes \<Rightarrow> bytes list" where
  "split_whitespace s = words_of [] (utf8_chars s)"

fun read_headers :: "bytes list \<Rightarrow> (bytes, bytes) hashmap \<Rightarrow> (bytes, bytes) hashmap" where
  "read_headers [] hs = hs"
| "read_headers (line # ls) hs =
     (let trimmed = trim line in
      if trimmed = [] then hs
      else case split_once (CHR '':'') trimmed of
             Some (k, v) \<Rightarrow> read_headers ls (hm_insert (to_lowercase (trim k)) (trim v) hs)
           | None \<Rightarrow> read_headers ls hs)"

definition request_body :: "(bytes, bytes) hashmap \<Rightarrow> bytes \<Rightarrow> bytes \<Rightarrow> bytes option outcome" where
  "request_body headers meth rest =
     (if meth = ''PATCH'' \<or> meth = ''POST'' then
        let len = (case obind (hm_get headers ''content-length'') (\<lambda>v. parse_uint 10 usize_max (trim v)) of
                     Some n \<Rightarrow> n | None \<Rightarrow> 0)
        in if 2 ^ 63 \<le> len then Panic
           else Done (Some (take len rest @ replicate (len - length rest) (char_of (0 :: nat))))
      else Done None)"

datatype dash_outcome = Upgrade | Replied dash_state bytes

definition dispatch :: "dash_env \<Rightarrow> bytes \<Rightarrow> bytes list \<Rightarrow> bytes \<Rightarrow> dash_state \<Rightarrow> dash_outcome outcome" where
  "dispatch env request_line header_lines rest st =
     (let headers = read_headers header_lines [];
          words = split_whitespace (trim request_line);
          meth = (case words of [] \<Rightarrow> ''GET'' | m # _ \<Rightarrow> m);
          p = (case words of _ # q # _ \<Rightarrow> q | _ \<Rightarrow> ''/'');
          is_ws_upgrade = (case hm_get headers ''upgrade'' of Some v \<Rightarrow> sublist ''websocket'' (to_lowercase v) | None \<Rightarrow> False)
      in and_then (request_body headers meth rest) (\<lambda>req_body.
           if is_ws_upgrade \<and> p = ''/ws'' then Done Upgrade
           else let (st', reply) = handle_http env p meth req_body st in Done (Replied st' reply)))"

section \<open>What a request can change\<close>

lemma conv_file_path_files: "files (snd (conv_file_path cid st)) = files st"
  by (auto simp: conv_file_path_def split: option.split)

lemma store_reads_files [simp]:
  "files (snd (load_vault C cid st)) = files st"
  "files (snd (load_detections C cid mid st)) = files st"
  "files (snd (get_messages C cid st)) = files st"
  "files (snd (get_conversation_by_id C cid st)) = files st"
  using conv_file_path_files [of cid st]
  by (auto simp: load_vault_def load_detections_def get_messages_def get_conversation_by_id_def
      split: prod.split option.split)

text \<open>The states a read may lead to: the conversation files are the same, paths may have been cached.\<close>

definition only_read :: "dash_state \<Rightarrow> dash_state \<Rightarrow> bool" where
  "only_read st st' \<longleftrightarrow> (\<exists>s. st' = st\<lparr>d_store := s\<rparr> \<and> files s = files (d_store st))"

lemma only_read_refl [simp]: "only_read st st"
  unfolding only_read_def by (rule exI [of _ "d_store st"]) simp

lemma only_read_store: "files s = files (d_store st) \<Longrightarrow> only_read st (st\<lparr>d_store := s\<rparr>)"
  unfolding only_read_def by blast

lemma reads_only_read:
  "only_read st (fst (handle_vault_api env cid st))"
  "only_read st (fst (handle_detections_api env cid mid st))"
  "only_read st (fst (conversation_page env p st))"
  "only_read st (fst (handle_page env p st))"
proof -
  show conv: "only_read st (fst (conversation_page env p st))" for p
    by (simp add: conversation_page_def Let_def case_prod_unfold only_read_store)
  show "only_read st (fst (handle_vault_api env cid st))" "only_read st (fst (handle_detections_api env cid mid st))"
    by (simp_all add: handle_vault_api_def handle_detections_api_def Let_def case_prod_unfold only_read_store)
  show "only_read st (fst (handle_page env p st))"
    using conv [of p] by (simp add: handle_page_def Let_def case_prod_unfold)
qed

lemma handle_http_cases:
  obtains (read) "only_read st (fst (handle_http env p meth b st))"
  | (config) "meth = ''PATCH''" "handle_http env p meth b st = handle_patch_config env (or_default b) st"
  | (start) "meth = ''POST''" "handle_http env p meth b st = handle_proxy_start st"
  | (stop) "meth = ''POST''" "handle_http env p meth b st = handle_proxy_stop st"
  | (download) i where "meth = ''POST''" "handle_http env p meth b st = handle_download env i st"
  | (cancel) i where "meth = ''DELETE''" "handle_http env p meth b st = handle_cancel i st"
  | (deactivate) "meth = ''POST''" "handle_http env p meth b st = handle_deactivate env st"
  | (activate) i where "meth = ''POST''" "handle_http env p meth b st = handle_activate env i st"
  | (delete) "deletes_model p meth" "handle_http env p meth b st = handle_delete_model env p st"
proof (cases "detections_query p")
  case (Some q)
  then show ?thesis using read reads_only_read(2) by (simp add: handle_http_def case_prod_unfold)
next
  case None
  show ?thesis
  proof (cases "prefix CONVERSATIONS p \<and> suffix ''/vault'' p")
    case True
    then show ?thesis using None read reads_only_read(1) by (simp add: handle_http_def)
  next
    case False
    have "handle_http env p meth b st =
        (if p = ''/api/config'' \<and> meth = ''PATCH'' then handle_patch_config env (or_default b) st
         else if p = ''/api/proxy/status'' \<and> meth = ''GET'' then (st, handle_status env st)
         else if meth = ''OPTIONS'' then (st, preflight_response)
         else if p = ''/api/proxy/start'' \<and> meth = ''POST'' then handle_proxy_start st
         else if p = ''/api/proxy/stop'' \<and> meth = ''POST'' then handle_proxy_stop st
         else if p = ''/api/models'' \<and> meth = ''GET'' then (st, handle_models env st)
         else if model_action ''download'' p \<noteq> None \<and> meth = ''POST'' then handle_download env (the (model_action ''download'' p)) st
         else if model_action ''download'' p \<noteq> None \<and> meth = ''DELETE'' then handle_cancel (the (model_action ''download'' p)) st
         else if p = ''/api/models/deactivate'' \<and> meth = ''POST'' then handle_deactivate env st
         else if model_action ''activate'' p \<noteq> None \<and> meth = ''POST'' then handle_activate env (the (model_action ''activate'' p)) st
         else if deletes_model p meth then handle_delete_model env p st
         else handle_page env p st)"
      unfolding handle_http_def using None False by (simp only: option.case if_False)
    note routed = this
    consider (read') "fst (handle_http env p meth b st) = st \<or> handle_http env p meth b st = handle_page env p st"
      | "meth = ''PATCH''" "handle_http env p meth b st = handle_patch_config env (or_default b) st"
      | "meth = ''POST''" "handle_http env p meth b st = handle_proxy_start st"
      | "meth = ''POST''" "handle_http env p meth b st = handle_proxy_stop st"
      | "meth = ''POST''" "handle_http env p meth b st = handle_download env (the (model_action ''download'' p)) st"
      | "meth = ''DELETE''" "handle_http env p meth b st = handle_cancel (the (model_action ''download'' p)) st"
      | "meth = ''POST''" "handle_http env p meth b st = handle_deactivate env st"
      | "meth = ''POST''" "handle_http env p meth b st = handle_activate env (the (model_action ''activate'' p)) st"
      | "deletes_model p meth" "handle_http env p meth b st = handle_delete_model env p st"
      using routed by (simp only: split: if_split_asm) simp_all
    then show ?thesis
    proof cases
      case read'
      then show ?thesis using read reads_only_read(4) [of st env p] by auto
    qed (erule (1) config start stop download cancel deactivate activate delete)+
  qed
qed

text \<open>
  The safe methods are safe: a request whose method is none of PATCH, POST and DELETE leaves the
  configuration, the files, the proxy's state, the downloads and the published events as they are,
  and of the conversation store changes at most the cache of paths.
\<close>

theorem safe_methods_only_read:
  assumes "meth \<notin> {''PATCH'', ''POST'', ''DELETE''}"
  shows "only_read st (fst (handle_http env p meth b st))"
  using assms
  by (cases rule: handle_http_cases [of st env p meth b]) (simp_all add: deletes_model_def)

section \<open>Invariant of the served states\<close>

lemma apply_patch_mgr:
  "d_mgr (apply_patch env q st) = fst (config_patch (de_codec env) (d_mgr st) q)"
  "d_running (apply_patch env q st) = d_running st" "d_tracker (apply_patch env q st) = d_tracker st"
  "d_downloads (apply_patch env q st) = d_downloads st" "d_events (apply_patch env q st) = d_events st"
  "d_store (apply_patch env q st) = d_store st"
  by (cases rule: config_patch_cases [of "de_codec env" "d_mgr st" q];
      simp add: apply_patch_def patch_config_def save_config_def)+

text \<open>
  Every request keeps the manager or patches it. An entry of the tracker belongs to a task that was
  started, with a channel no other task has.
\<close>

definition tracker_ok :: "dash_state \<Rightarrow> bool" where
  "tracker_ok st \<longleftrightarrow> hm_ok (running (d_tracker st)) \<and> distinct (map snd (d_downloads st))
     \<and> (\<forall>(i, ch) \<in> set (d_downloads st). ch < next_channel (d_tracker st))
     \<and> (\<forall>i ch. hm_get (running (d_tracker st)) i = Some ch \<longrightarrow> (i, ch) \<in> set (d_downloads st))"

lemma handle_http_mgr:
  "d_mgr (fst (handle_http env p meth b st)) = d_mgr st
   \<or> (\<exists>q. d_mgr (fst (handle_http env p meth b st)) = fst (config_patch (de_codec env) (d_mgr st) q))"
proof (cases rule: handle_http_cases [of st env p meth b])
  case config
  show ?thesis
  proof (cases "json_parse env (or_default b)")
    case None
    then show ?thesis unfolding config(2) by (simp add: handle_patch_config_def)
  next
    case (Some q)
    then have "d_mgr (fst (handle_patch_config env (or_default b) st)) = fst (config_patch (de_codec env) (d_mgr st) q)"
      by (cases rule: config_patch_cases [of "de_codec env" "d_mgr st" q])
        (simp_all add: handle_patch_config_def patch_config_def save_config_def Let_def)
    then show ?thesis unfolding config(2) by blast
  qed
next
  case deactivate
  then show ?thesis by (auto simp: handle_deactivate_def apply_patch_mgr)
next
  case (activate i)
  then show ?thesis by (auto simp: handle_activate_def apply_patch_mgr Let_def)
qed (auto simp: only_read_def handle_proxy_start_def handle_proxy_stop_def proxy_status_def handle_download_def handle_cancel_def
    handle_delete_model_def Let_def case_prod_unfold)

lemma tracker_ok_step:
  assumes "tracker_ok st"
  shows "tracker_ok (fst (handle_http env p meth b st))"
proof (cases rule: handle_http_cases [of st env p meth b])
  case read
  then show ?thesis using assms by (auto simp: only_read_def tracker_ok_def)
next
  case config
  have "d_tracker (fst (handle_patch_config env (or_default b) st)) = d_tracker st \<and>
      d_downloads (fst (handle_patch_config env (or_default b) st)) = d_downloads st"
  proof (cases "json_parse env (or_default b)")
    case None
    then show ?thesis by (simp add: handle_patch_config_def)
  next
    case (Some q)
    then show ?thesis
      by (cases rule: config_patch_cases [of "de_codec env" "d_mgr st" q])
        (simp_all add: handle_patch_config_def patch_config_def save_config_def Let_def)
  qed
  then show ?thesis using assms config by (simp add: tracker_ok_def)
next
  case (download i)
  then show ?thesis
    using assms
    by (auto simp: handle_download_def tracker_ok_def tracker_register_def Let_def hm.ok_put hm.get_put less_Suc_eq
        split: if_splits)
next
  case (cancel i)
  then show ?thesis using assms by (auto simp: handle_cancel_def tracker_ok_def tracker_cancel_def hm.ok_del hm.get_del split: if_splits)
qed (use assms in \<open>auto simp: tracker_ok_def handle_proxy_start_def handle_proxy_stop_def proxy_status_def
    handle_deactivate_def handle_activate_def handle_delete_model_def apply_patch_mgr Let_def case_prod_unfold\<close>)

lemma handle_http_files: "files (d_store (fst (handle_http env p meth b st))) = files (d_store st)"
proof (cases rule: handle_http_cases [of st env p meth b])
  case config
  show ?thesis
  proof (cases "json_parse env (or_default b)")
    case None
    then show ?thesis unfolding config(2) by (simp add: handle_patch_config_def)
  next
    case (Some q)
    then show ?thesis unfolding config(2)
      by (cases rule: config_patch_cases [of "de_codec env" "d_mgr st" q])
        (simp_all add: handle_patch_config_def patch_config_def save_config_def Let_def)
  qed
qed (auto simp: only_read_def handle_proxy_start_def handle_proxy_stop_def proxy_status_def handle_download_def handle_cancel_def
    handle_deactivate_def handle_activate_def handle_delete_model_def apply_patch_mgr Let_def case_prod_unfold)

text \<open>
  The states the dashboard goes through: requests in any order, and ends of background downloads
  in between, each leaving the disk as it may.
\<close>

inductive served :: "dash_env \<Rightarrow> dash_state \<Rightarrow> dash_state \<Rightarrow> bool" for env st where
  init: "served env st st"
| request: "served env st st' \<Longrightarrow> served env st (fst (handle_http env p meth b st'))"
| task_end: "served env st st' \<Longrightarrow> (i, ch) \<in> set (d_downloads st')
    \<Longrightarrow> background_finish i dir r (d_tracker st') disk = (fired, t, disk', err)
    \<Longrightarrow> served env st (st'\<lparr>d_tracker := t, d_disk := disk'\<rparr>)"

text \<open>
  C9. Whatever requests the dashboard answers and however its downloads end: the configuration is one
  that patches lead to, and enables the entity tier only with the regex tier if it did at the start;
  no conversation file changes; and every download the tracker knows is a task that was started,
  on a channel of its own.
\<close>

theorem dashboard_invariant:
  assumes "served env st st'" and "tiers_valid (inner (d_mgr st))" and "tracker_ok st"
  shows "patched (de_codec env) (d_mgr st) (d_mgr st') \<and> tiers_valid (inner (d_mgr st')) \<and> tracker_ok st'
    \<and> files (d_store st') = files (d_store st)"
  using assms
proof (induction rule: served.induct)
  case init
  then show ?case by (simp add: patched.start)
next
  case (request st' p meth b)
  then have ih: "patched (de_codec env) (d_mgr st) (d_mgr st')" "tiers_valid (inner (d_mgr st'))" "tracker_ok st'"
      "files (d_store st') = files (d_store st)" by simp_all
  have valid: "tiers_valid (inner (fst (config_patch (de_codec env) (d_mgr st') q)))" for q
    using ih(2) by (cases rule: config_patch_cases [of "de_codec env" "d_mgr st'" q]) simp_all
  show ?case
    using handle_http_mgr [of env p meth b st'] ih valid tracker_ok_step [OF ih(3)] handle_http_files [of env p meth b st']
    by (auto intro: patched.patch)
next
  case (task_end st' i ch dir r disk fired t disk' err)
  then have "t = snd (tracker_complete i (d_tracker st'))"
    by (auto simp: background_finish_def split: prod.splits sum.splits)
  then show ?case
    using task_end by (auto simp: tracker_ok_def tracker_complete_def hm.ok_del hm.get_del split: if_splits)
qed

section \<open>Replies\<close>

text \<open>
  What the patch interface answers and does, on every branch: text that is not JSON gives 400 and
  a patch the configuration refuses gives 422, both without any effect; an accepted one gives 200,
  takes effect, is written to the configuration file and announced with the keys it changed.
\<close>

theorem patch_config_reply:
  "handle_http env ''/api/config'' ''PATCH'' b st =
     (case json_parse env (or_default b) of
        None \<Rightarrow> (st, send_response 400 json_type (''{'' @ [QUOTE] @ ''error'' @ [QUOTE] @ '':'' @ [QUOTE] @ ''invalid JSON'' @ [QUOTE] @ ''}''))
      | Some q \<Rightarrow>
          (case config_patch (de_codec env) (d_mgr st) q of
             (_, Inl e) \<Rightarrow> (st, json_reply env 422 (json_obj [(''error'', JStr (error_text env e))]))
           | (mgr, Inr r) \<Rightarrow>
               (st\<lparr>d_mgr := mgr, d_disk := fst (save_to_disk (de_codec env) (de_writable env) mgr (d_disk st)),
                   d_events := d_events st @ [ConfigChanged (changed_keys r) (restart_required r)]\<rparr>,
                send_response 200 json_type (result_text env r))))"
proof -
  have "handle_http env ''/api/config'' ''PATCH'' b st = handle_patch_config env (or_default b) st"
    by (simp add: handle_http_def detections_query_def CONVERSATIONS_def)
  moreover have refused: "mgr = d_mgr st" if "config_patch (de_codec env) (d_mgr st) q = (mgr, Inl e)" for q mgr e
    using that by (cases rule: config_patch_cases [of "de_codec env" "d_mgr st" q]) simp_all
  ultimately show ?thesis
    by (auto simp: handle_patch_config_def patch_config_def save_config_def Let_def dest: refused split: option.split prod.split sum.split)
qed

text \<open>A reply is a status line, header lines and a body whose length a header names.\<close>

definition reply_of :: "bytes list \<Rightarrow> bytes \<Rightarrow> bytes" where
  "reply_of ls body = concat (map (\<lambda>l. l @ crlf) ls) @ crlf @ body"

definition reply_framed :: "bytes \<Rightarrow> bytes \<Rightarrow> bool" where
  "reply_framed meth reply \<longleftrightarrow> (\<exists>ls body. reply = reply_of ls body
     \<and> ''Access-Control-Allow-Origin: *'' \<in> set ls
     \<and> (if meth = ''OPTIONS'' \<and> body = [] then True else (''Content-Length: '' @ show_nat (length body)) \<in> set ls))"

lemma reply_framed_send_response: "reply_framed meth (send_response s ct body)"
  unfolding reply_framed_def
  by (intro exI [where x = "[''HTTP/1.1 '' @ show_nat s, ''Content-Type: '' @ ct, ''Content-Length: '' @ show_nat (length body),
        ''Access-Control-Allow-Origin: *'', ''Connection: close'']"] exI [where x = body])
    (simp add: send_response_def response_head_def reply_of_def)

lemma reply_framed_ok_response: "reply_framed meth (ok_response body)"
  unfolding reply_framed_def
  by (intro exI [where x = "[''HTTP/1.1 200 OK'', ''Content-Type: application/json'', ''Content-Length: '' @ show_nat (length body),
        ''Access-Control-Allow-Origin: *'']"] exI [where x = body])
    (simp add: ok_response_def reply_of_def)

lemma reply_framed_preflight: "meth = ''OPTIONS'' \<Longrightarrow> reply_framed meth preflight_response"
  unfolding reply_framed_def
  by (intro exI [where x = "[''HTTP/1.1 204'', ''Access-Control-Allow-Origin: *'',
        ''Access-Control-Allow-Methods: GET, POST, PATCH, DELETE, OPTIONS'', ''Access-Control-Allow-Headers: Content-Type'',
        ''Connection: close'']"] exI [where x = "[]"])
    (simp add: preflight_response_def reply_of_def)

lemma reply_framed_handlers:
  "reply_framed meth (snd (handle_patch_config env b st))" "reply_framed meth (handle_status env st)" "reply_framed meth (snd (handle_proxy_start st))"
  "reply_framed meth (snd (handle_proxy_stop st))" "reply_framed meth (handle_models env st)" "reply_framed meth (snd (handle_download env i st))"
  "reply_framed meth (snd (handle_cancel i st))" "reply_framed meth (snd (handle_deactivate env st))"
  "reply_framed meth (snd (handle_activate env i st))" "reply_framed meth (snd (handle_delete_model env p st))"
  "reply_framed meth (snd (handle_page env p st))" "reply_framed meth (snd (handle_vault_api env i st))"
  "reply_framed meth (snd (handle_detections_api env i mid st))"
  by (auto simp: handle_patch_config_def handle_status_def handle_proxy_start_def handle_proxy_stop_def handle_models_def
      handle_download_def handle_cancel_def handle_deactivate_def handle_activate_def handle_delete_model_def handle_page_def
      handle_vault_api_def handle_detections_api_def json_reply_def refusal_def Let_def reply_framed_send_response reply_framed_ok_response
      split: option.split prod.split sum.split)

lemma reply_framed_if: "(c \<Longrightarrow> reply_framed meth (snd a)) \<Longrightarrow> reply_framed meth (snd b) \<Longrightarrow> reply_framed meth (snd (if c then a else b))"
  by simp

lemma reply_framed_pair: "reply_framed meth r \<Longrightarrow> reply_framed meth (snd (st, r))"
  by simp

lemma reply_framed_option: "P n \<Longrightarrow> (\<And>x. P (f x)) \<Longrightarrow> P (case y of None \<Rightarrow> n | Some x \<Rightarrow> f x)"
  by (cases y) simp_all

text \<open>
  Every reply, whatever the request, is a status line, header lines and a body whose length a
  header names (a preflight reply has no body), and every reply allows every origin to read it.
\<close>

theorem replies_framed: "reply_framed meth (snd (handle_http env p meth b st))"
  unfolding handle_http_def case_prod_unfold
  by (rule reply_framed_option [where P = "\<lambda>x. reply_framed meth (snd x)"]; intro reply_framed_if reply_framed_pair reply_framed_handlers reply_framed_preflight; assumption?)

section \<open>Deleting models\<close>

lemma not_conversation: "\<not> prefix CONVERSATIONS (MODELS @ f)"
  by (simp add: CONVERSATIONS_def MODELS_def)

lemma no_action:
  assumes "\<not> sublist (CHR ''/'' # act) p"
  shows "model_action act p = None"
proof (rule ccontr)
  assume "model_action act p \<noteq> None"
  then obtain r where "strip_prefix MODELS p = Some r" and "suffix (CHR ''/'' # act) r"
    by (auto simp: model_action_def strip_suffix_def obind_def split: option.splits if_splits)
  then have "suffix (CHR ''/'' # act) p" by (auto simp: strip_prefix_def suffix_def prefix_def split: if_splits)
  then show False using assms suffix_imp_sublist by blast
qed

lemma route_delete:
  assumes "deletes_model p ''DELETE''"
  shows "handle_http env p ''DELETE'' b st = handle_delete_model env p st"
proof -
  obtain f where f: "p = MODELS @ f" using assms by (auto simp: deletes_model_def prefix_def)
  have "detections_query p = None" by (simp add: detections_query_def f not_conversation)
  moreover have "\<not> prefix CONVERSATIONS p" by (simp add: f not_conversation)
  moreover have "model_action ''download'' p = None" using assms by (intro no_action) (simp add: deletes_model_def)
  ultimately show ?thesis using assms unfolding handle_http_def by simp
qed

text \<open>
  C40. The path of a DELETE request is joined to the models directory as it is: for an absolute path the
  join forgets the directory, so a request that names a file outside of it, with the extension of a
  model, deletes that file.
\<close>

theorem delete_outside_models:
  assumes "deletes_model (MODELS @ f) ''DELETE''" and "prefix ''/'' f" and "\<not> prefix MODELS f"
    and "slm_model_id (pii_slm (cfg_pii (inner (d_mgr st)))) \<noteq> Some f"
    and "d_disk st (f @ ''.onnx'') \<noteq> None"
  shows "d_disk (fst (handle_http env (MODELS @ f) ''DELETE'' b st)) = (d_disk st)(f @ ''.onnx'' := None)"
proof -
  have i: "trim_start_matches MODELS (MODELS @ f) = f"
    using assms(3) by (subst trim_start_matches.simps; subst trim_start_matches.simps) (simp add: MODELS_def)
  have "path_join dir (f @ e) = f @ e" for dir e
    using assms(2) by (auto simp: path_join_def prefix_def)
  then show ?thesis
    using assms(4,5) by (simp add: route_delete [OF assms(1)] handle_delete_model_def i delete_model_def Let_def remove_file_def)
qed

section \<open>Example\<close>

definition sample_dash :: dash_env where
  "sample_dash = \<lparr>de_store = sample_codec, de_codec = derived_codec, de_writable = (\<lambda>_. True), de_home = Some ''/home/u'',
     json_print = (\<lambda>_. ''{}''), json_parse = (\<lambda>_. Some sample_patch), conv_json = (\<lambda>_. JNull), msg_json = (\<lambda>_. JNull),
     det_json = (\<lambda>_. JNull), entry_json = (\<lambda>_. JNull), config_text = (\<lambda>_. Some ''{}''), result_text = (\<lambda>_. ''{}''),
     error_text = (\<lambda>_. []), assets = (\<lambda>_. Some ''<html>''), version_json = JNull, sidecar_starts = (\<lambda>_ _. False)\<rparr>"

definition sample_dash_state :: dash_state where
  "sample_dash_state = \<lparr>d_store = sample_store, d_mgr = sample_manager, d_disk = [''/srv/speech.onnx'' \<mapsto> ''weights''],
     d_running = True, d_shutdown = False, d_pid_file = True, d_tracker = tracker_new, d_downloads = [], d_sidecar = None,
     d_events = []\<rparr>"

theorem safe_methods_only_read_witness:
  "only_read sample_dash_state (fst (handle_http sample_dash ''/api/conversations/a'' ''GET'' None sample_dash_state))"
  by (rule safe_methods_only_read) simp

theorem dashboard_invariant_witness:
  "tiers_valid (inner (d_mgr (fst (handle_http sample_dash ''/api/config'' ''PATCH'' (Some ''{}'') sample_dash_state))))"
proof -
  have "tiers_valid (inner (d_mgr sample_dash_state))"
    by (simp add: sample_dash_state_def sample_manager_def default_config_def default_pii_config_def default_tiers_def tiers_valid_def)
  moreover have "tracker_ok sample_dash_state"
    by (simp add: tracker_ok_def sample_dash_state_def tracker_new_def hm_ok_def hm_get_def)
  ultimately show ?thesis using dashboard_invariant [OF served.request [OF served.init]] by blast
qed

theorem delete_outside_models_witness:
  "d_disk (fst (handle_http sample_dash (MODELS @ ''/srv/speech'') ''DELETE'' None sample_dash_state)) ''/srv/speech.onnx'' = None"
proof -
  have "deletes_model (MODELS @ ''/srv/speech'') ''DELETE''" by code_simp
  then show ?thesis
    using delete_outside_models [of "''/srv/speech''" sample_dash_state sample_dash None]
    by (simp add: sample_dash_state_def sample_manager_def default_config_def default_pii_config_def MODELS_def)
qed

end
