(* ===== verification/Net_Helper.thy ===== *)
theory Net_Helper
  imports Rust_Str
begin

text \<open>
  The edits of \<open>/etc/hosts\<close> and \<open>/etc/pf.conf\<close> that put the transparent listener in the path of
  traffic and take it out again (\<open>src/src/network_helper.rs\<close>): the text functions, and what \<open>enable\<close> and
  \<open>disable\<close> do with them to the two files. Running the privileged script is the shell's work; its
  effect on the files is that of the redirections it consists of.
\<close>

definition PRIVACYCLAW_TAG :: bytes where
  "PRIVACYCLAW_TAG = ''# privacyclaw''"

definition tagged :: "bytes \<Rightarrow> bool" where
  "tagged l \<longleftrightarrow> sublist PRIVACYCLAW_TAG l"

definition hosts_line :: "bytes \<Rightarrow> bytes \<Rightarrow> bytes" where
  "hosts_line addr domain = addr @ ''  '' @ domain @ ''  '' @ PRIVACYCLAW_TAG"

definition build_hosts_entries :: "bytes list \<Rightarrow> bytes \<Rightarrow> bytes" where
  "build_hosts_entries domains existing_content =
     concat (map (\<lambda>domain. concat (map (\<lambda>addr.
       let line = hosts_line addr domain in
       if list_ex (\<lambda>l. trim l = trim line) (str_lines existing_content) then [] else line @ [LF])
       [''127.0.0.1'', ''::1''])) domains)"

definition remove_privacyclaw_lines :: "bytes \<Rightarrow> bytes" where
  "remove_privacyclaw_lines content =
     fold (\<lambda>l acc. acc @ l @ [LF]) (filter (\<lambda>l. \<not> tagged l) (str_lines content)) []"

definition has_privacyclaw_entries :: "bytes \<Rightarrow> bool" where
  "has_privacyclaw_entries content \<longleftrightarrow> list_ex tagged (str_lines content)"

definition build_pf_anchor :: "nat \<Rightarrow> bytes" where
  "build_pf_anchor port =
     ''rdr pass on lo0 inet  proto tcp from any to 127.0.0.1 port 443 -> 127.0.0.1 port '' @ show_nat port @ [LF]
     @ ''rdr pass on lo0 inet6 proto tcp from any to ::1       port 443 -> ::1       port '' @ show_nat port @ [LF]"

definition include_lines :: "bytes list" where
  "include_lines = [''rdr-anchor '' @ [QUOTE] @ ''privacyclaw'' @ [QUOTE] @ ''  '' @ PRIVACYCLAW_TAG,
     ''load anchor '' @ [QUOTE] @ ''privacyclaw'' @ [QUOTE] @ '' from '' @ [QUOTE] @ ''/etc/pf.anchors/privacyclaw'' @ [QUOTE]
       @ ''  '' @ PRIVACYCLAW_TAG]"

definition build_pf_conf_include :: bytes where
  "build_pf_conf_include = concat (map (\<lambda>l. l @ [LF]) include_lines)"

definition remove_pf_conf_include :: "bytes \<Rightarrow> bytes" where
  "remove_pf_conf_include content = remove_privacyclaw_lines content"

text \<open>\<open>trim_start\<close>, for the test of a filter anchor.\<close>

definition trim_start :: "bytes \<Rightarrow> bytes" where
  "trim_start s = concat (dropWhile is_whitespace (utf8_chars s))"

definition filter_anchor :: "bytes \<Rightarrow> bool" where
  "filter_anchor line \<longleftrightarrow>
     prefix ''anchor '' (trim_start line) \<or> prefix (''anchor'' @ [CHR 0x09]) (trim_start line)"

fun insert_loop :: "bytes \<Rightarrow> bool \<Rightarrow> bytes list \<Rightarrow> bytes \<times> bool" where
  "insert_loop result inserted [] = (result, inserted)"
| "insert_loop result inserted (line # ls) =
     (if \<not> inserted \<and> filter_anchor line
      then insert_loop (result @ build_pf_conf_include @ line @ [LF]) True ls
      else insert_loop (result @ line @ [LF]) inserted ls)"

definition insert_pf_conf_include :: "bytes \<Rightarrow> bytes" where
  "insert_pf_conf_include content =
     (if sublist PRIVACYCLAW_TAG content then content
      else let (result, inserted) = insert_loop [] False (str_lines content)
           in if inserted then result else result @ build_pf_conf_include)"

text \<open>
  The files after the scripts of \<open>enable\<close> and \<open>disable\<close>, when every command of them succeeds: the hosts
  entries are appended, the rest is overwritten, and the anchor file comes and goes. The scripts write a
  text by handing it to the shell's \<open>printf\<close> as the format, so what is written is \<open>printf\<close> of the text, a
  parameter; \<open>printf_plain\<close> is what it does with a format without directives.
\<close>

definition plain :: "bytes \<Rightarrow> bool" where
  "plain s \<longleftrightarrow> CHR ''%'' \<notin> set s \<and> CHR 0x5C \<notin> set s"

definition printf_plain :: "(bytes \<Rightarrow> bytes) \<Rightarrow> bool" where
  "printf_plain printf \<longleftrightarrow> (\<forall>s. plain s \<longrightarrow> printf s = s)"

record net_files =
  etc_hosts :: bytes
  etc_pf_conf :: bytes
  pf_anchor :: "bytes option"

definition enable :: "(bytes \<Rightarrow> bytes) \<Rightarrow> bytes list \<Rightarrow> nat \<Rightarrow> net_files \<Rightarrow> net_files" where
  "enable printf domains proxy_port fs =
     \<lparr>etc_hosts = etc_hosts fs @ printf (build_hosts_entries domains (etc_hosts fs)),
      etc_pf_conf = printf (insert_pf_conf_include (etc_pf_conf fs)),
      pf_anchor = Some (printf (build_pf_anchor proxy_port))\<rparr>"

definition disable :: "(bytes \<Rightarrow> bytes) \<Rightarrow> net_files \<Rightarrow> net_files" where
  "disable printf fs =
     \<lparr>etc_hosts = printf (remove_privacyclaw_lines (etc_hosts fs)),
      etc_pf_conf = printf (remove_pf_conf_include (etc_pf_conf fs)), pf_anchor = None\<rparr>"

definition is_enabled :: "net_files \<Rightarrow> bool" where
  "is_enabled fs \<longleftrightarrow> has_privacyclaw_entries (etc_hosts fs)"

section \<open>Files of lines\<close>

definition lf_lines :: "bytes list \<Rightarrow> bytes" where
  "lf_lines ls = concat (map (\<lambda>l. l @ [LF]) ls)"

definition line_ok :: "bytes \<Rightarrow> bool" where
  "line_ok l \<longleftrightarrow> LF \<notin> set l \<and> \<not> suffix [CR] l"

lemma lf_lines_append [simp]: "lf_lines (a @ b) = lf_lines a @ lf_lines b"
  by (simp add: lf_lines_def)

lemma lf_lines_simps [simp]: "lf_lines [] = []" "lf_lines (l # ls) = l @ LF # lf_lines ls"
  by (simp_all add: lf_lines_def)

lemma str_lines_lf_append:
  "list_all line_ok ls \<Longrightarrow> str_lines (lf_lines ls @ r) = ls @ str_lines r"
proof (induction ls)
  case (Cons l ls)
  then have l: "LF \<notin> set l" "\<not> suffix [CR] l" by (simp_all add: line_ok_def)
  have "strip_eol (l @ [LF]) = l" using l 
    by (auto simp: strip_eol_def suffix_def) (metis append_butlast_last_id)
  then show ?case using Cons split_incl_line [OF l(1)] by (simp add: str_lines_def)
qed simp

lemma str_lines_lf: "list_all line_ok ls \<Longrightarrow> str_lines (lf_lines ls) = ls"
  using str_lines_lf_append [of ls "[]"] by simp

lemma remove_lf_lines:
  "remove_privacyclaw_lines content = lf_lines (filter (\<lambda>l. \<not> tagged l) (str_lines content))"
proof -
  have "fold (\<lambda>l acc. acc @ l @ [LF]) ls acc = acc @ lf_lines ls" for ls acc
    by (induction ls arbitrary: acc) simp_all
  then show ?thesis by (simp add: remove_privacyclaw_lines_def)
qed


section \<open>Enabling and disabling\<close>

definition domain_ok :: "bytes \<Rightarrow> bool" where
  "domain_ok d \<longleftrightarrow> LF \<notin> set d \<and> plain d"

lemma tagged_tag: "tagged PRIVACYCLAW_TAG"
  by (simp add: tagged_def)

lemma tagged_append: "tagged b \<Longrightarrow> tagged (a @ b)"
  unfolding tagged_def by (metis sublist_append_leftI sublist_order.order_trans)

lemma tagged_Cons: "tagged b \<Longrightarrow> tagged (c # b)"
  using tagged_append [of b "[c]"] by simp

lemma plain_simps [simp]:
  "plain []" "plain (c # s) \<longleftrightarrow> c \<noteq> CHR ''%'' \<and> c \<noteq> CHR 0x5C \<and> plain s" "plain (s @ t) \<longleftrightarrow> plain s \<and> plain t"
  by (auto simp: plain_def)

lemma suffix_line: "l \<noteq> [] \<Longrightarrow> suffix [CR] l \<longleftrightarrow> last l = CR"
  by (metis append_butlast_last_id last_snoc suffix_def)

lemma hosts_line_facts:
  assumes "domain_ok d" and "a = ''127.0.0.1'' \<or> a = ''::1''"
  shows "tagged (hosts_line a d)" and "line_ok (hosts_line a d)" and "plain (hosts_line a d)"
proof -
  show "tagged (hosts_line a d)" by (simp add: hosts_line_def tagged_append tagged_Cons tagged_tag)
  have "hosts_line a d \<noteq> []" "last (hosts_line a d) = CHR ''w''" by (simp_all add: hosts_line_def PRIVACYCLAW_TAG_def)
  moreover have "LF \<notin> set (hosts_line a d)"
    using assms by (auto simp: hosts_line_def PRIVACYCLAW_TAG_def domain_ok_def)
  ultimately show "line_ok (hosts_line a d)" by (simp add: line_ok_def suffix_line)
  show "plain (hosts_line a d)" using assms by (auto simp: hosts_line_def PRIVACYCLAW_TAG_def domain_ok_def)
qed

lemma hosts_entries_lines:
  assumes "list_all domain_ok ds"
  obtains ls where "build_hosts_entries ds c = lf_lines ls" and "list_all line_ok ls" and "list_all tagged ls"
    and "plain (lf_lines ls)" and "\<exists>d\<in>set ds. \<not> list_ex (\<lambda>l. trim l = trim (hosts_line ''127.0.0.1'' d)) (str_lines c) \<Longrightarrow> ls \<noteq> []"
proof -
  define f where "f a d = (if list_ex (\<lambda>l. trim l = trim (hosts_line a d)) (str_lines c) then [] else [hosts_line a d])" for a d
  define ls where "ls = concat (map (\<lambda>d. f ''127.0.0.1'' d @ f ''::1'' d) ds)"
  have g: "(if list_ex (\<lambda>l. trim l = trim (hosts_line a d)) (str_lines c) then [] else hosts_line a d @ [LF]) = lf_lines (f a d)" for a d
    by (simp add: f_def)
  have "build_hosts_entries ds c = lf_lines ls"
    unfolding build_hosts_entries_def ls_def Let_def g by (induction ds) simp_all
  moreover have "list_all line_ok ls" "list_all tagged ls" "plain (lf_lines ls)"
    using assms unfolding ls_def by (induction ds) (simp_all add: f_def hosts_line_facts)
  moreover have "\<exists>d\<in>set ds. \<not> list_ex (\<lambda>l. trim l = trim (hosts_line ''127.0.0.1'' d)) (str_lines c) \<Longrightarrow> ls \<noteq> []"
    by (auto simp: ls_def f_def)
  ultimately show ?thesis using that by blast
qed

lemma insert_loop_lines:
  "\<exists>a b. ls = a @ b \<and> insert_loop r False ls =
     (if list_ex filter_anchor ls then (r @ lf_lines a @ build_pf_conf_include @ lf_lines b, True) else (r @ lf_lines ls, False))"
proof -
  have fin: "insert_loop r True ls = (r @ lf_lines ls, True)" for r ls
    by (induction ls arbitrary: r) simp_all
  show ?thesis
  proof (induction ls arbitrary: r)
    case (Cons l ls)
    show ?case
    proof (cases "filter_anchor l")
      case True
      then show ?thesis by (intro exI [of _ "[]"] exI [of _ "l # ls"]) (simp add: fin)
    next
      case False
      obtain a b where ab: "ls = a @ b" "insert_loop (r @ l @ [LF]) False ls =
          (if list_ex filter_anchor ls then ((r @ l @ [LF]) @ lf_lines a @ build_pf_conf_include @ lf_lines b, True)
           else ((r @ l @ [LF]) @ lf_lines ls, False))"
        using Cons.IH by blast
      then show ?thesis using False by (intro exI [of _ "l # a"] exI [of _ b]) simp
    qed
  qed simp
qed

lemma include_lf_lines: "build_pf_conf_include = lf_lines include_lines" "list_all tagged include_lines" "list_all line_ok include_lines"
  "plain (lf_lines include_lines)"
proof -
  show "build_pf_conf_include = lf_lines include_lines" by (simp add: build_pf_conf_include_def lf_lines_def)
  show "list_all tagged include_lines"
    unfolding include_lines_def list.pred_inject by (intro conjI tagged_append tagged_tag) simp
  show "list_all line_ok include_lines" "plain (lf_lines include_lines)"
    by (simp_all add: include_lines_def line_ok_def PRIVACYCLAW_TAG_def suffix_line)
qed

lemma no_tag: "CHR ''#'' \<notin> set s \<Longrightarrow> \<not> sublist PRIVACYCLAW_TAG s"
  using set_mono_sublist [of PRIVACYCLAW_TAG s] by (auto simp: PRIVACYCLAW_TAG_def)

lemma tagged_in: "tagged l \<Longrightarrow> l \<in> set ls \<Longrightarrow> sublist PRIVACYCLAW_TAG (lf_lines ls)"
proof -
  assume a: "tagged l" "l \<in> set ls"
  from a(2) obtain p q where "ls = p @ l # q" by (auto dest: split_list)
  then have "lf_lines ls = lf_lines p @ l @ LF # lf_lines q" by simp
  then have "sublist l (lf_lines ls)" by (metis sublist_appendI)
  then show ?thesis using a(1) unfolding tagged_def by (rule sublist_order.order_trans [rotated])
qed

lemma remove_insert:
  assumes "list_all line_ok ls" and "\<not> sublist PRIVACYCLAW_TAG (lf_lines ls)"
  shows "remove_pf_conf_include (insert_pf_conf_include (lf_lines ls)) = lf_lines ls"
    and "plain (lf_lines ls) \<Longrightarrow> plain (insert_pf_conf_include (lf_lines ls))"
    and "sublist PRIVACYCLAW_TAG (insert_pf_conf_include (lf_lines ls))"
proof -
  have nt: "filter (\<lambda>l. \<not> tagged l) ls = ls" using assms(2) tagged_in by (auto simp: filter_id_conv)
  have lines: "str_lines (lf_lines ls) = ls" by (rule str_lines_lf [OF assms(1)])
  obtain a b where ab: "ls = a @ b" "insert_loop [] False ls =
      (if list_ex filter_anchor ls then ([] @ lf_lines a @ build_pf_conf_include @ lf_lines b, True) else ([] @ lf_lines ls, False))"
    using insert_loop_lines by blast
  define out where "out = (if list_ex filter_anchor ls then a @ include_lines @ b else ls @ include_lines)"
  have out: "insert_pf_conf_include (lf_lines ls) = lf_lines out"
    using assms(2) ab(2) by (simp add: insert_pf_conf_include_def lines out_def include_lf_lines(1))
  have ok: "list_all line_ok out" using assms(1) include_lf_lines(3) ab(1) by (auto simp: out_def)
  have inc: "filter (\<lambda>l. \<not> tagged l) include_lines = []"
    using include_lf_lines(2) by (auto simp: list_all_iff filter_empty_conv)
  have "filter (\<lambda>l. \<not> tagged l) out = ls"
    using nt inc ab(1) by (auto simp: out_def)
  then show "remove_pf_conf_include (insert_pf_conf_include (lf_lines ls)) = lf_lines ls"
    by (simp add: out remove_pf_conf_include_def remove_lf_lines str_lines_lf [OF ok])
  show "plain (insert_pf_conf_include (lf_lines ls))" if "plain (lf_lines ls)"
    unfolding out using that include_lf_lines(4) ab(1) by (auto simp: out_def)
  have "hd include_lines \<in> set out" "tagged (hd include_lines)"
    using include_lf_lines(2) by (auto simp: out_def include_lines_def)
  then show "sublist PRIVACYCLAW_TAG (insert_pf_conf_include (lf_lines ls))"
    unfolding out by (metis tagged_in)
qed

lemma remove_hosts:
  assumes "list_all line_ok ls" and "\<not> sublist PRIVACYCLAW_TAG (lf_lines ls)" and "list_all domain_ok ds"
  shows "remove_privacyclaw_lines (lf_lines ls @ build_hosts_entries ds (lf_lines ls)) = lf_lines ls"
    and "plain (build_hosts_entries ds c)"
proof -
  obtain es where es: "build_hosts_entries ds (lf_lines ls) = lf_lines es" "list_all line_ok es" "list_all tagged es"
    using hosts_entries_lines [OF assms(3)] by metis
  have "filter (\<lambda>l. \<not> tagged l) ls = ls" using assms(2) tagged_in by (auto simp: filter_id_conv)
  moreover have "filter (\<lambda>l. \<not> tagged l) es = []" using es(3) by (auto simp: list_all_iff filter_empty_conv)
  moreover have "str_lines (lf_lines ls @ lf_lines es) = ls @ es"
    using str_lines_lf [of "ls @ es"] assms(1) es(2) by simp
  ultimately show "remove_privacyclaw_lines (lf_lines ls @ build_hosts_entries ds (lf_lines ls)) = lf_lines ls"
    by (simp add: es(1) remove_lf_lines)
  show "plain (build_hosts_entries ds c)" using hosts_entries_lines [OF assms(3), of c] by metis
qed

lemma plain_anchor: "plain (build_pf_anchor port)"
proof -
  have "plain (show_nat port)" by (simp add: plain_def show_nat_no_char byte_def)
  then show ?thesis by (simp add: build_pf_anchor_def)
qed



text \<open>
  A hosts file whose last line has no line feed loses that line: \<open>enable\<close> appends to it, so the
  line becomes part of the first entry of the program, and \<open>disable\<close> removes it with the entry.
\<close>

theorem unterminated_hosts_line_lost:
  assumes "list_all line_ok hs" and "\<not> sublist PRIVACYCLAW_TAG (lf_lines hs)" and "LF \<notin> set l" and "l \<noteq> []"
    and "list_all domain_ok domains" and "d \<in> set domains"
    and "\<not> list_ex (\<lambda>x. trim x = trim (hosts_line ''127.0.0.1'' d)) (str_lines (lf_lines hs @ l))"
  shows "remove_privacyclaw_lines ((lf_lines hs @ l) @ build_hosts_entries domains (lf_lines hs @ l)) = lf_lines hs"
proof -
  obtain es where es: "build_hosts_entries domains (lf_lines hs @ l) = lf_lines es" "list_all line_ok es" "list_all tagged es" "es \<noteq> []"
    using hosts_entries_lines [OF assms(5), of "lf_lines hs @ l"] assms(6,7) by metis
  obtain e es' where e: "es = e # es'" using es(4) by (cases es) auto
  have te: "tagged e" "line_ok e" using es(2,3) by (simp_all add: e)
  have "e \<noteq> []" using te(1) by (auto simp: tagged_def PRIVACYCLAW_TAG_def)
  then have le: "line_ok (l @ e)" "tagged (l @ e)"
    using te assms(3) tagged_append by (auto simp: line_ok_def suffix_line)
  have "str_lines ((lf_lines hs @ l) @ lf_lines es) = hs @ (l @ e) # es'"
    using str_lines_lf [of "hs @ (l @ e) # es'"] assms(1) es(2) le(1) by (simp add: e)
  moreover have "filter (\<lambda>l. \<not> tagged l) hs = hs" using assms(2) tagged_in by (auto simp: filter_id_conv)
  moreover have "filter (\<lambda>l. \<not> tagged l) es' = []" using es(3) by (auto simp: e list_all_iff filter_empty_conv)
  ultimately show ?thesis using le(2) by (simp add: es(1) remove_lf_lines)
qed

theorem unterminated_hosts_line_lost_witness:
  "remove_privacyclaw_lines (''127.0.0.1 localhost'' @ build_hosts_entries [''api.openai.com''] ''127.0.0.1 localhost'') = []"
proof -
  have "trim ''127.0.0.1 localhost'' = ''127.0.0.1 localhost''"
    "trim (hosts_line ''127.0.0.1'' ''api.openai.com'') = hosts_line ''127.0.0.1'' ''api.openai.com''"
    by (rule trim_ascii_id; simp add: hosts_line_def PRIVACYCLAW_TAG_def byte_def blank_byte)+
  then have "\<not> list_ex (\<lambda>x. trim x = trim (hosts_line ''127.0.0.1'' ''api.openai.com'')) (str_lines (lf_lines [] @ ''127.0.0.1 localhost''))"
    by (simp add: str_lines_last hosts_line_def)
  then show ?thesis
    using unterminated_hosts_line_lost [of "[]" "''127.0.0.1 localhost''" "[''api.openai.com'']" "''api.openai.com''"]
    by (simp add: domain_ok_def PRIVACYCLAW_TAG_def)
qed

end
