(* ===== verification/Tray.thy ===== *)
theory Tray
  imports Dashboard Net_Helper
begin

text \<open>
  The menu-bar tray (\<open>src/src/tray.rs\<close>) and the commands that set a protection level
  (\<open>apply_protection_level\<close> and the wizard of \<open>src/src/cmd_config.rs\<close>).

  The tray is a state machine over menu events and polls of the dashboard: a handler changes
  \<open>tray_state\<close> and lists what it starts outside of it (\<open>tray_effect\<close>). AppKit, the icon and the texts
  on the terminal are left out, as is the unloading of the launch agent on quitting; the
  dialogue of the wizard is the list of its answers.
\<close>

section \<open>Menu\<close>

datatype pii_item = Item_off | Item_detect | Item_t1 | Item_t2 | Item_t3 | Item_intelligent

fun pii_level_for_id :: "pii_item \<Rightarrow> bytes" where
  "pii_level_for_id Item_off = ''off''"
| "pii_level_for_id Item_detect = ''detect-only''"
| "pii_level_for_id Item_t1 = ''1''"
| "pii_level_for_id Item_t2 = ''2''"
| "pii_level_for_id Item_t3 = ''3''"
| "pii_level_for_id Item_intelligent = ''intelligent''"

record tray_menu =
  start_stop_label :: bytes
  http_item :: pii_menu_item
  network_item :: pii_menu_item
  pii_enabled :: bool
  pii_items :: pii_menu

definition build_menu :: "bool \<Rightarrow> bool \<Rightarrow> bool \<Rightarrow> bytes \<Rightarrow> tray_menu" where
  "build_menu proxy_running http_proxy_on network_proxy_on pii_level =
     \<lparr>start_stop_label = (if proxy_running then ''Stop Proxy'' else ''Start Proxy''),
      http_item = \<lparr>item_enabled = proxy_running, item_checked = http_proxy_on \<and> proxy_running\<rparr>,
      network_item = \<lparr>item_enabled = proxy_running, item_checked = network_proxy_on \<and> proxy_running\<rparr>,
      pii_enabled = proxy_running, pii_items = pii_menu_states pii_level\<rparr>"

section \<open>State\<close>

text \<open>A task is a number; starting one takes the next.\<close>

record tray_state =
  tr_cfg :: config
  proxy_running :: bool
  http_listener_on :: bool
  http_task :: "nat option"
  net_task :: "nat option"
  next_task :: nat
  current_network_on :: bool
  current_pii_level :: bytes
  menu :: tray_menu

datatype tray_effect =
    Abort_task nat
  | Spawn_http nat
  | Spawn_network nat
  | Disable_network bool
  | Enable_network "bytes list" nat
  | Run_config "bytes list"
  | Open_url bytes
  | Notify_shutdown

definition rebuild_menu :: "tray_state \<Rightarrow> tray_state" where
  "rebuild_menu st =
     st\<lparr>menu := build_menu (proxy_running st) (http_listener_on st) (current_network_on st) (current_pii_level st)\<rparr>"

definition abort_effect :: "nat option \<Rightarrow> tray_effect list" where
  "abort_effect t = (case t of Some h \<Rightarrow> [Abort_task h] | None \<Rightarrow> [])"

definition start_proxy :: "tray_state \<Rightarrow> tray_state \<times> tray_effect list" where
  "start_proxy st =
     (let h = next_task st; n = Suc h in
      (st\<lparr>http_task := Some h, net_task := Some n, next_task := Suc n, proxy_running := True, http_listener_on := True\<rparr>,
       [Spawn_http h, Spawn_network n]))"

text \<open>\<open>routed\<close> is \<open>network_helper::is_enabled()\<close>; the argument of \<open>Disable_network\<close> says whether the change is
  also reported to the dashboard.\<close>

definition stop_proxy :: "bool \<Rightarrow> tray_state \<Rightarrow> tray_state \<times> tray_effect list" where
  "stop_proxy routed st =
     (st\<lparr>http_task := None, net_task := None, http_listener_on := False, proxy_running := False\<rparr>,
      abort_effect (http_task st) @ abort_effect (net_task st) @ (if routed then [Disable_network False] else []))"

definition handle_start_stop :: "bool \<Rightarrow> tray_state \<Rightarrow> tray_state \<times> tray_effect list" where
  "handle_start_stop routed st = (if proxy_running st then stop_proxy routed st else start_proxy st)"

definition handle_http_toggle :: "tray_state \<Rightarrow> tray_state \<times> tray_effect list \<times> bool" where
  "handle_http_toggle st =
     (if \<not> proxy_running st then (st, [], False)
      else case http_task st of
             Some h \<Rightarrow> (st\<lparr>http_task := None, http_listener_on := False\<rparr>, [Abort_task h], True)
           | None \<Rightarrow>
               let h = next_task st in
               (st\<lparr>http_task := Some h, next_task := Suc h, http_listener_on := True\<rparr>, [Spawn_http h], True))"

definition config_ports :: "config \<Rightarrow> bytes list \<times> nat" where
  "config_ports cfg =
     (intercept_domains cfg,
      case parse_uint 10 65535 (List.last (split_on (CHR '':'') (np_listen (cfg_network_proxy cfg)))) of
        Some p \<Rightarrow> p | None \<Rightarrow> 16441)"

definition handle_network_toggle :: "bool \<Rightarrow> config \<Rightarrow> tray_effect list" where
  "handle_network_toggle currently_on cfg =
     (if currently_on then [Disable_network True]
      else [Enable_network (fst (config_ports cfg)) (snd (config_ports cfg))])"

definition handle_pii_level :: "bytes \<Rightarrow> tray_effect list" where
  "handle_pii_level level = [Run_config [''config'', ''--protection-level'', level]]"

definition handle_quit :: "bool \<Rightarrow> tray_state \<Rightarrow> tray_state \<times> tray_effect list" where
  "handle_quit routed st = (let (st', es) = stop_proxy routed st in (st', es @ [Notify_shutdown]))"

datatype menu_event = Ev_start_stop | Ev_http_proxy | Ev_open_dashboard | Ev_network_proxy | Ev_pii pii_item | Ev_quit

definition tray_event :: "bool \<Rightarrow> bytes \<Rightarrow> menu_event \<Rightarrow> tray_state \<Rightarrow> tray_state \<times> tray_effect list" where
  "tray_event routed dashboard_url ev st =
     (case ev of
        Ev_start_stop \<Rightarrow> (let (st', es) = handle_start_stop routed st in (rebuild_menu st', es))
      | Ev_http_proxy \<Rightarrow> (let (st', es, rebuild) = handle_http_toggle st in (if rebuild then rebuild_menu st' else st', es))
      | Ev_open_dashboard \<Rightarrow> (st, [Open_url dashboard_url])
      | Ev_network_proxy \<Rightarrow>
          (rebuild_menu (st\<lparr>current_network_on := \<not> current_network_on st\<rparr>),
           handle_network_toggle (current_network_on st) (tr_cfg st))
      | Ev_pii i \<Rightarrow> (st, handle_pii_level (pii_level_for_id i))
      | Ev_quit \<Rightarrow> handle_quit routed st)"

section \<open>Polling the dashboard\<close>

text \<open>\<open>response.split("\r\n\r\n").nth(1)\<close>: the text between the first two blank lines.\<close>

definition second_part :: "bytes \<Rightarrow> bytes option" where
  "second_part response =
     obind (find_sub (crlf @ crlf) response) (\<lambda>i.
       let rest = drop (i + 4) response in
       Some (case find_sub (crlf @ crlf) rest of Some j \<Rightarrow> take j rest | None \<Rightarrow> rest))"

fun as_bool :: "json \<Rightarrow> bool option" where
  "as_bool (JBool b) = Some b"
| "as_bool v = None"

definition bool_or_false :: "json \<Rightarrow> bool" where
  "bool_or_false v = (case as_bool v of Some b \<Rightarrow> b | None \<Rightarrow> False)"

definition config_state :: "json \<Rightarrow> bool \<times> bytes" where
  "config_state v =
     (let tiers_v = jindex (jindex v ''pii'') ''tiers'';
          pii_mode = (case as_str (jindex (jindex v ''pii'') ''mode'') of Some s \<Rightarrow> s | None \<Rightarrow> ''off'')
      in (bool_or_false (jindex (jindex v ''proxy'') ''network_enabled''),
          derive_pii_level pii_mode (bool_or_false (jindex tiers_v ''regex'')) (bool_or_false (jindex tiers_v ''ner''))
            (bool_or_false (jindex tiers_v ''slm''))))"

text \<open>\<open>reply\<close> is what the dashboard sent until it closed the connection, if it could be reached.\<close>

definition fetch_config_state :: "json_parser \<Rightarrow> bytes option \<Rightarrow> (bool \<times> bytes) option" where
  "fetch_config_state parse reply =
     obind reply (\<lambda>response. obind (second_part response) (\<lambda>body. map_option config_state (parse body)))"

definition tray_poll :: "json_parser \<Rightarrow> bytes option \<Rightarrow> tray_state \<Rightarrow> tray_state" where
  "tray_poll parse reply st =
     (case fetch_config_state parse reply of
        None \<Rightarrow> st
      | Some (new_net, new_pii) \<Rightarrow>
          if new_net \<noteq> current_network_on st \<or> new_pii \<noteq> current_pii_level st
          then rebuild_menu (st\<lparr>current_network_on := new_net, current_pii_level := new_pii\<rparr>) else st)"

text \<open>\<open>run\<close> up to its loop.\<close>

definition tray_start :: "config \<Rightarrow> bool \<Rightarrow> tray_state \<times> tray_effect list" where
  "tray_start cfg network_proxy_on =
     (let level = derive_pii_level (pii_mode_str (cfg_pii cfg)) True False False;
          st0 = \<lparr>tr_cfg = cfg, proxy_running = False, http_listener_on = False, http_task = None, net_task = None,
                 next_task = 0, current_network_on = network_proxy_on, current_pii_level = level,
                 menu = build_menu False False network_proxy_on level\<rparr>;
          (st, es) = start_proxy st0
      in (rebuild_menu st, es))"

section \<open>Setting a protection level\<close>

definition patch_model_id :: "bytes \<Rightarrow> json \<Rightarrow> json" where
  "patch_model_id i q =
     (case q of
        JObj m \<Rightarrow> JObj (map_entry ''pii'' (\<lambda>p. case p of
                     JObj n \<Rightarrow> JObj (obj_insert ''slm'' (JObj [(''model_id'', JStr i)]) n) | _ \<Rightarrow> p) m)
      | _ \<Rightarrow> q)"

datatype level_error = Level_config config_error | Level_model bytes | Level_download model_error

definition level_default_model :: bytes where
  "level_default_model =
     (case List.find (\<lambda>m. sublist ''phi'' (mi_id m)) catalog of Some m \<Rightarrow> mi_id m | None \<Rightarrow> mi_id (catalog ! 0))"

text \<open>The model that the level needs: a file, or an entry of the catalog, which is downloaded if it is not there.\<close>

definition level_model :: "fetch_env \<Rightarrow> bytes \<Rightarrow> bytes \<Rightarrow> disk \<Rightarrow> disk \<times> (level_error + bytes)" where
  "level_model fe dir model_id disk =
     (if disk model_id \<noteq> None then (disk, Inr model_id)
      else case List.find (\<lambda>m. mi_id m = model_id) catalog of
             None \<Rightarrow> (disk, Inl (Level_model model_id))
           | Some info \<Rightarrow>
               if is_downloaded disk dir (mi_id info) then (disk, Inr (mi_id info))
               else (case download_with_bar fe info dir disk of
                       (disk1, Inl e) \<Rightarrow> (disk1, Inl (Level_download e))
                     | (disk1, Inr _) \<Rightarrow> (disk1, Inr (mi_id info))))"

definition patch_and_save :: "config_codec \<Rightarrow> (bytes \<Rightarrow> bool) \<Rightarrow> json \<Rightarrow> config_manager \<Rightarrow> disk
    \<Rightarrow> config_manager \<times> disk \<times> (level_error + unit)" where
  "patch_and_save codec writable q mgr disk =
     (case config_patch codec mgr q of
        (mgr1, Inl e) \<Rightarrow> (mgr1, disk, Inl (Level_config e))
      | (mgr1, Inr _) \<Rightarrow>
          (case save_to_disk codec writable mgr1 disk of
             (disk1, Inl e) \<Rightarrow> (mgr1, disk1, Inl (Level_config e))
           | (disk1, Inr _) \<Rightarrow> (mgr1, disk1, Inr ())))"

definition apply_protection_level :: "fetch_env \<Rightarrow> config_codec \<Rightarrow> (bytes \<Rightarrow> bool) \<Rightarrow> bytes option \<Rightarrow> bytes \<Rightarrow> bytes option
    \<Rightarrow> config_manager \<Rightarrow> disk \<Rightarrow> config_manager \<times> disk \<times> (level_error + unit)" where
  "apply_protection_level fe codec writable home level model_arg mgr disk =
     (case protection_level_to_patch level of
        Inl e \<Rightarrow> (mgr, disk, Inl (Level_config e))
      | Inr q \<Rightarrow>
          if level = ''3'' \<or> level = ''intelligent'' then
            (case level_model fe (resolved_models_dir home (inner mgr))
                    (case model_arg of Some i \<Rightarrow> i | None \<Rightarrow> level_default_model) disk of
               (disk1, Inl e) \<Rightarrow> (mgr, disk1, Inl e)
             | (disk1, Inr i) \<Rightarrow> patch_and_save codec writable (patch_model_id i q) mgr disk1)
          else patch_and_save codec writable q mgr disk)"

section \<open>Wizard\<close>

record wizard_answers =
  ans_mode :: nat
  ans_tier1 :: bool
  ans_tier2 :: bool
  ans_tier3 :: bool
  ans_model :: nat
  ans_download :: bool
  ans_save :: bool

definition mode_choices :: "bytes list" where
  "mode_choices = [''off'', ''detect-only'', ''replace'']"

definition collect_pii_settings :: "wizard_answers \<Rightarrow> (bytes \<times> bool \<times> bool \<times> bool) outcome" where
  "collect_pii_settings a =
     and_then (index mode_choices (ans_mode a)) (\<lambda>mode.
       Done (mode, ans_tier1 a, ans_tier1 a \<and> ans_tier2 a, ans_tier3 a))"

definition collect_model_selection :: "fetch_env \<Rightarrow> bytes \<Rightarrow> wizard_answers \<Rightarrow> disk \<Rightarrow> (disk \<times> (level_error + bytes)) outcome" where
  "collect_model_selection fe dir a disk =
     and_then (index catalog (ans_model a)) (\<lambda>selected.
       if \<not> is_downloaded disk dir (mi_id selected) \<and> ans_download a
       then (case download_with_bar fe selected dir disk of
               (disk1, Inl e) \<Rightarrow> Done (disk1, Inl (Level_download e))
             | (disk1, Inr _) \<Rightarrow> Done (disk1, Inr (mi_id selected)))
       else Done (disk, Inr (mi_id selected)))"

definition apply_wizard_patch :: "config_codec \<Rightarrow> (bytes \<Rightarrow> bool) \<Rightarrow> bytes \<Rightarrow> bool \<Rightarrow> bool \<Rightarrow> bool \<Rightarrow> bytes option
    \<Rightarrow> config_manager \<Rightarrow> disk \<Rightarrow> config_manager \<times> disk \<times> (level_error + unit)" where
  "apply_wizard_patch codec writable mode tier1 tier2 tier3 model_id mgr disk =
     (let q = tier_patch mode tier1 tier2 tier3 in
      patch_and_save codec writable (case model_id of Some i \<Rightarrow> patch_model_id i q | None \<Rightarrow> q) mgr disk)"

text \<open>The start of a language-model server at the end of the wizard is left out.\<close>

definition run_wizard :: "fetch_env \<Rightarrow> config_codec \<Rightarrow> (bytes \<Rightarrow> bool) \<Rightarrow> bytes option \<Rightarrow> wizard_answers
    \<Rightarrow> config_manager \<Rightarrow> disk \<Rightarrow> (config_manager \<times> disk \<times> (level_error + unit)) outcome" where
  "run_wizard fe codec writable home a mgr disk =
     and_then (collect_pii_settings a) (\<lambda>(mode, t1, t2, t3).
     and_then (if t3 then and_then (collect_model_selection fe (resolved_models_dir home (inner mgr)) a disk)
                          (\<lambda>(d, r). Done (d, map_sum id Some r))
               else Done (disk, Inr (slm_model_id (pii_slm (cfg_pii (inner mgr)))))) (\<lambda>(disk1, sel).
       case sel of
         Inl e \<Rightarrow> Done (mgr, disk1, Inl e)
       | Inr model_id \<Rightarrow>
           if \<not> ans_save a then Done (mgr, disk1, Inr ())
           else Done (apply_wizard_patch codec writable mode t1 t2 t3 model_id mgr disk1)))"

section \<open>Invariant of the tray\<close>

text \<open>The states of the loop: it ends with \<open>Ev_quit\<close>.\<close>

inductive tray_reach :: "config \<Rightarrow> tray_state \<Rightarrow> bool" for cfg where
  start: "tray_reach cfg (fst (tray_start cfg network_on))"
| event: "tray_reach cfg st \<Longrightarrow> ev \<noteq> Ev_quit \<Longrightarrow> tray_reach cfg (fst (tray_event routed url ev st))"
| poll: "tray_reach cfg st \<Longrightarrow> tray_reach cfg (tray_poll parse reply st)"

definition tray_ok :: "config \<Rightarrow> tray_state \<Rightarrow> bool" where
  "tray_ok cfg st \<longleftrightarrow> tr_cfg st = cfg
     \<and> (http_listener_on st \<longleftrightarrow> http_task st \<noteq> None) \<and> (net_task st \<noteq> None \<longleftrightarrow> proxy_running st)
     \<and> (http_task st \<noteq> None \<longrightarrow> proxy_running st)
     \<and> (\<forall>h \<in> set_option (http_task st) \<union> set_option (net_task st). h < next_task st)
     \<and> (http_task st \<noteq> None \<longrightarrow> http_task st \<noteq> net_task st)
     \<and> menu st = build_menu (proxy_running st) (http_listener_on st) (current_network_on st) (current_pii_level st)"

lemma tray_ok_rebuild:
  "tray_ok cfg (st\<lparr>menu := m\<rparr>) \<Longrightarrow> tray_ok cfg (rebuild_menu st)"
  by (simp add: tray_ok_def rebuild_menu_def)

lemma tray_ok_event: "tray_ok cfg st \<Longrightarrow> ev \<noteq> Ev_quit \<Longrightarrow> tray_ok cfg (fst (tray_event routed url ev st))"
  by (cases ev)
    (auto simp: tray_event_def tray_ok_def rebuild_menu_def handle_start_stop_def start_proxy_def stop_proxy_def
      handle_http_toggle_def Let_def split: option.splits)

lemma tray_ok_poll: "tray_ok cfg st \<Longrightarrow> tray_ok cfg (tray_poll parse reply st)"
  by (auto simp: tray_poll_def tray_ok_def rebuild_menu_def split: option.splits prod.splits)

text \<open>
  C35. In every state of the tray's loop: the listener counts as on exactly while its task exists, the
  network task exists exactly while the proxy runs, no task of a stopped proxy is left, tasks are
  not confused, and the menu shows the state.
\<close>

theorem tray_invariant:
  assumes "tray_reach cfg st"
  shows "tray_ok cfg st"
  using assms
proof (induction rule: tray_reach.induct)
  case (start network_on)
  show ?case by (auto simp: tray_start_def start_proxy_def rebuild_menu_def tray_ok_def Let_def)
qed (simp_all add: tray_ok_event tray_ok_poll)

section \<open>What the tray is told and tells\<close>

lemma jindex_none: "at_path v [a, b] = None \<Longrightarrow> jindex (jindex v a) b = JNull"
  by (cases "jget v a"; cases "jget (jindex v a) b") (auto simp: at_path_def jindex_def)

text \<open>
  The tray reads the state of the network proxy from a key that the configuration does not have
  (\<open>proxy.network_enabled\<close>; it is \<open>network_proxy.enabled\<close>). So after every poll that is answered the
  network item is off whatever the configuration says, and a click on it enables: it never disables.
\<close>

theorem network_item_never_on:
  assumes "second_part response = Some body" and "parse body = Some v"
    and "at_path v [''proxy'', ''network_enabled''] = None"
  shows "\<not> current_network_on (tray_poll parse (Some response) st)
    \<and> snd (tray_event routed url Ev_network_proxy (tray_poll parse (Some response) st))
        = [Enable_network (intercept_domains (tr_cfg st)) (snd (config_ports (tr_cfg st)))]"
proof -
  have "\<not> fst (config_state v)"
    by (simp add: config_state_def jindex_none [OF assms(3)] bool_or_false_def Let_def)
  then have "\<not> current_network_on (tray_poll parse (Some response) st)"
    using assms(1,2)
    by (auto simp: tray_poll_def fetch_config_state_def rebuild_menu_def split: prod.splits)
  moreover have "tr_cfg (tray_poll parse (Some response) st) = tr_cfg st"
    by (auto simp: tray_poll_def rebuild_menu_def split: option.splits prod.splits)
  ultimately show ?thesis by (simp add: tray_event_def handle_network_toggle_def config_ports_def)
qed

text \<open>
  The items of the tray and the command they start: off and the first two tiers are set as the item
  says, if the file can be written; the item for detection only starts the command with a level that it does
  not know (\<open>detect-only\<close> for \<open>detect\<close>), which changes nothing.
\<close>

theorem tray_items_and_command:
  assumes "faithful_codec codec" and "config_path mgr = Some path" and "writable path"
    and "\<forall>c. to_toml codec c \<noteq> None"
  shows "apply_protection_level fe codec writable home (pii_level_for_id Item_detect) None mgr disk
      = (mgr, disk, Inl (Level_config (Unknown_level ''detect-only'')))
    \<and> (i \<in> {Item_off, Item_t1, Item_t2} \<longrightarrow> (\<exists>m r n s.
        apply_protection_level fe codec writable home (pii_level_for_id i) None mgr disk =
          (mgr\<lparr>inner := with_level (inner mgr) m r n s\<rparr>,
           disk(path := to_toml codec (with_level (inner mgr) m r n s)), Inr ())
        \<and> derive_pii_level m r n s = pii_level_for_id i))"
proof -
  have save: "patch_and_save codec writable (tier_patch m r n s) mgr disk =
      (mgr\<lparr>inner := with_level (inner mgr) m r n s\<rparr>, disk(path := to_toml codec (with_level (inner mgr) m r n s)), Inr ())"
    if "n \<longrightarrow> r" for m r n s
    using config_patch_level [OF assms(1) that, of mgr m s] assms(2-4)
    by (auto simp: patch_and_save_def save_to_disk_def split: option.split)
  have "\<exists>m r n s. apply_protection_level fe codec writable home (pii_level_for_id i) None mgr disk =
          (mgr\<lparr>inner := with_level (inner mgr) m r n s\<rparr>,
           disk(path := to_toml codec (with_level (inner mgr) m r n s)), Inr ())
        \<and> derive_pii_level m r n s = pii_level_for_id i" if i: "i \<in> {Item_off, Item_t1, Item_t2}"
  proof -
    from i obtain q where "protection_level_to_patch (pii_level_for_id i) = Inr q"
      by (auto simp: protection_level_to_patch_def)
    moreover from this obtain m r n s where "q = tier_patch m r n s" "n \<longrightarrow> r"
        "derive_pii_level m r n s = level_label (pii_level_for_id i)"
      by (rule protection_levels)
    moreover have "level_label (pii_level_for_id i) = pii_level_for_id i" "pii_level_for_id i \<notin> {''3'', ''intelligent''}"
      using i by (auto simp: level_label_def)
    ultimately show ?thesis using save [of n r m s] by (intro exI [of _ m] exI [of _ r] exI [of _ n] exI [of _ s])
        (simp add: apply_protection_level_def)
  qed
  then show ?thesis by (simp add: apply_protection_level_def protection_level_to_patch_def)
qed


section \<open>Wizard\<close>

text \<open>
  Whatever is answered to the wizard, its choices respect the dependency of the tiers: without a
  language model its patch is accepted, sets exactly the chosen mode and tiers, and is saved; if
  the changes are not confirmed nothing happens; and an answer outside the offered modes is the only way to panic.
\<close>

theorem wizard_applies_choices:
  assumes "faithful_codec codec" and "config_path mgr = Some path" and "writable path" and "\<forall>c. to_toml codec c \<noteq> None"
    and "\<not> ans_tier3 a" and "slm_model_id (pii_slm (cfg_pii (inner mgr))) = None"
  shows "run_wizard fe codec writable home a mgr disk =
    (if length mode_choices \<le> ans_mode a then Panic
     else if \<not> ans_save a then Done (mgr, disk, Inr ())
     else let cfg = with_level (inner mgr) (mode_choices ! ans_mode a) (ans_tier1 a) (ans_tier1 a \<and> ans_tier2 a) False
          in Done (mgr\<lparr>inner := cfg\<rparr>, disk(path := to_toml codec cfg), Inr ()))"
proof -
  have "patch_and_save codec writable (tier_patch m r (r \<and> n) s) mgr disk =
      (mgr\<lparr>inner := with_level (inner mgr) m r (r \<and> n) s\<rparr>, disk(path := to_toml codec (with_level (inner mgr) m r (r \<and> n) s)), Inr ())"
    for m r n s
    using config_patch_level [OF assms(1), of "r \<and> n" r mgr m s] assms(2-4)
    by (auto simp: patch_and_save_def save_to_disk_def split: option.split)
  then show ?thesis
    using assms(5,6)
    by (simp add: run_wizard_def collect_pii_settings_def index_def apply_wizard_patch_def Let_def)
qed

section \<open>Examples\<close>

definition sample_tray :: tray_state where
  "sample_tray = fst (tray_start (inner sample_manager) True)"

theorem tray_invariant_witness:
  "tray_ok (inner sample_manager) (fst (tray_event False [] Ev_http_proxy sample_tray))"
  unfolding sample_tray_def by (intro tray_invariant tray_reach.event tray_reach.start) simp

theorem network_item_never_on_witness:
  "\<not> current_network_on (tray_poll (\<lambda>_. Some (config_json (inner sample_manager))) (Some (''200'' @ crlf @ crlf @ ''{}'')) sample_tray)"
proof -
  have "second_part (''200'' @ crlf @ crlf @ ''{}'') = Some ''{}''" by code_simp
  moreover have "at_path (config_json (inner sample_manager)) [''proxy'', ''network_enabled''] = None"
    by (simp add: at_path_def config_json_def proxy_json_def)
  ultimately show ?thesis
    using network_item_never_on [of "''200'' @ crlf @ crlf @ ''{}''" "''{}''" "\<lambda>_. Some (config_json (inner sample_manager))"] by blast
qed

lemma derived_toml: "\<forall>c. to_toml derived_codec c \<noteq> None"
  by (simp add: derived_codec_def)

theorem tray_items_and_command_witness:
  "snd (snd (apply_protection_level sample_fetch derived_codec (\<lambda>_. True) None (pii_level_for_id Item_t1) None sample_manager Map.empty)) = Inr ()"
  using tray_items_and_command [OF derived_codec_faithful _ _ derived_toml, of sample_manager "''/home/u/c.toml''" "\<lambda>_. True"
      sample_fetch None Map.empty Item_t1]
  by (auto simp: sample_manager_def)

definition level_dash :: dash_env where
  "level_dash = sample_dash\<lparr>json_parse := (\<lambda>_. Some (tier_patch ''replace'' True False False))\<rparr>"


theorem wizard_applies_choices_witness:
  "run_wizard sample_fetch derived_codec (\<lambda>_. True) None
     \<lparr>ans_mode = 5, ans_tier1 = False, ans_tier2 = True, ans_tier3 = False, ans_model = 0, ans_download = False, ans_save = True\<rparr>
     sample_manager Map.empty = Panic"
  using wizard_applies_choices [OF derived_codec_faithful _ _ derived_toml, of sample_manager "''/home/u/c.toml''" "\<lambda>_. True"]
  by (simp add: sample_manager_def default_config_def default_pii_config_def mode_choices_def)

end
