(* ===== verification/Startup.thy ===== *)
theory Startup
  imports Registry Pipeline Models Net_Helper
begin

text \<open>
  Starting, stopping and removing the program: the certificate authority and the cache of leaf
  certificates (\<open>src/src/ca/\<close>), the choice of listeners and the PII context (\<open>src/src/main.rs\<close>), the PID file
  (\<open>src/src/pid.rs\<close>) and the steps of the removal (\<open>src/src/uninstall.rs\<close>).

  Parameters: the generation of keys and certificates and the PEM reader, which writes and removals
  the file system allows, the \<open>kill\<close> command, the loader of the entity model, and the privileged shell.
\<close>

section \<open>Leaf certificates\<close>

record 'k server_config =
  sc_key :: 'k
  sc_alpn :: "bytes list"

record 'k cert_cache =
  acceptor_cache :: "(bytes, 'k server_config) hashmap"
  key_cache :: "(bytes, 'k) hashmap"
  issued :: nat

definition cert_cache_new :: "'k cert_cache" where
  "cert_cache_new = \<lparr>acceptor_cache = [], key_cache = [], issued = 0\<rparr>"

text \<open>
  \<open>build_certified_key\<close> draws a fresh key each time it runs, so \<open>issue\<close> is given the number of the run;
  it fails for a name that no certificate can carry.
\<close>

definition get_or_create_key_inner :: "(nat \<Rightarrow> bytes \<Rightarrow> 'k option) \<Rightarrow> bytes \<Rightarrow> 'k cert_cache \<Rightarrow> 'k option \<times> 'k cert_cache" where
  "get_or_create_key_inner issue domain c =
     (case hm_get (key_cache c) domain of
        Some ck \<Rightarrow> (Some ck, c)
      | None \<Rightarrow>
          (case issue (issued c) domain of
             None \<Rightarrow> (None, c\<lparr>issued := Suc (issued c)\<rparr>)
           | Some ck \<Rightarrow> (Some ck, c\<lparr>key_cache := hm_insert domain ck (key_cache c), issued := Suc (issued c)\<rparr>)))"

definition cert_get_or_create :: "(nat \<Rightarrow> bytes \<Rightarrow> 'k option) \<Rightarrow> bytes \<Rightarrow> 'k cert_cache
    \<Rightarrow> 'k server_config option \<times> 'k cert_cache" where
  "cert_get_or_create issue domain c =
     (case hm_get (acceptor_cache c) domain of
        Some cfg \<Rightarrow> (Some cfg, c)
      | None \<Rightarrow>
          (case get_or_create_key_inner issue domain c of
             (None, c1) \<Rightarrow> (None, c1)
           | (Some ck, c1) \<Rightarrow>
               let server_cfg = \<lparr>sc_key = ck, sc_alpn = [''http/1.1'']\<rparr> in
               (Some server_cfg, c1\<lparr>acceptor_cache := hm_insert domain server_cfg (acceptor_cache c1)\<rparr>)))"

definition sni_resolve :: "(nat \<Rightarrow> bytes \<Rightarrow> 'k option) \<Rightarrow> bytes option \<Rightarrow> 'k cert_cache \<Rightarrow> 'k option \<times> 'k cert_cache" where
  "sni_resolve issue server_name c =
     (case server_name of None \<Rightarrow> (None, c) | Some domain \<Rightarrow> get_or_create_key_inner issue domain c)"

section \<open>The certificate authority on disk\<close>

record ca_bundle =
  key_pem :: bytes
  cert_der :: bytes

datatype ca_error = Ca_unreadable bytes | Ca_bad_pem | Ca_dir bytes | Ca_generate | Ca_unwritable bytes | Ca_chmod | Ca_unremovable bytes

record ca_env =
  pem_cert_to_der :: "bytes \<Rightarrow> bytes option"
  ca_keygen :: "(bytes \<times> bytes \<times> bytes) option"
  ca_mkdir :: "bytes \<Rightarrow> bool"
  ca_write :: "bytes \<Rightarrow> bool"
  ca_chmod :: "bytes \<Rightarrow> bool"
  ca_remove :: "bytes \<Rightarrow> bool"

definition ca_cert_path :: "bytes \<Rightarrow> bytes" where
  "ca_cert_path dir = path_join dir ''ca.pem''"

definition ca_key_path :: "bytes \<Rightarrow> bytes" where
  "ca_key_path dir = path_join dir ''ca.key.pem''"

text \<open>\<open>read_to_string\<close> fails on text that is not UTF-8.\<close>

definition read_text :: "disk \<Rightarrow> bytes \<Rightarrow> bytes option" where
  "read_text disk p = obind (disk p) (\<lambda>s. if utf8_valid s then Some s else None)"

definition load_ca :: "ca_env \<Rightarrow> bytes \<Rightarrow> disk \<Rightarrow> ca_error + ca_bundle option" where
  "load_ca env dir disk =
     (if disk (ca_cert_path dir) = None \<or> disk (ca_key_path dir) = None then Inr None
      else case read_text disk (ca_cert_path dir) of
             None \<Rightarrow> Inl (Ca_unreadable (ca_cert_path dir))
           | Some cert_pem \<Rightarrow>
               (case read_text disk (ca_key_path dir) of
                  None \<Rightarrow> Inl (Ca_unreadable (ca_key_path dir))
                | Some key \<Rightarrow>
                    (case pem_cert_to_der env cert_pem of
                       None \<Rightarrow> Inl Ca_bad_pem
                     | Some der \<Rightarrow> Inr (Some \<lparr>key_pem = key, cert_der = der\<rparr>))))"

definition generate_ca :: "ca_env \<Rightarrow> bytes \<Rightarrow> disk \<Rightarrow> disk \<times> (ca_error + ca_bundle)" where
  "generate_ca env dir disk =
     (if \<not> ca_mkdir env dir then (disk, Inl (Ca_dir dir))
      else case ca_keygen env of
             None \<Rightarrow> (disk, Inl Ca_generate)
           | Some (cert_pem, key, der) \<Rightarrow>
               if \<not> ca_write env (ca_cert_path dir) then (disk, Inl (Ca_unwritable (ca_cert_path dir)))
               else
                 let disk1 = disk(ca_cert_path dir \<mapsto> cert_pem) in
                 if \<not> ca_write env (ca_key_path dir) then (disk1, Inl (Ca_unwritable (ca_key_path dir)))
                 else
                   let disk2 = disk1(ca_key_path dir \<mapsto> key) in
                   if \<not> ca_chmod env (ca_key_path dir) then (disk2, Inl Ca_chmod)
                   else (disk2, Inr \<lparr>key_pem = key, cert_der = der\<rparr>))"

fun delete_files :: "ca_env \<Rightarrow> bytes list \<Rightarrow> disk \<Rightarrow> disk \<times> (ca_error + unit)" where
  "delete_files env [] disk = (disk, Inr ())"
| "delete_files env (p # ps) disk =
     (if disk p = None then delete_files env ps disk
      else if ca_remove env p then delete_files env ps (disk(p := None))
      else (disk, Inl (Ca_unremovable p)))"

definition delete_ca :: "ca_env \<Rightarrow> bytes \<Rightarrow> disk \<Rightarrow> disk \<times> (ca_error + unit)" where
  "delete_ca env dir disk = delete_files env [ca_cert_path dir, ca_key_path dir] disk"

definition cmd_reset_ca :: "ca_env \<Rightarrow> bytes \<Rightarrow> disk \<Rightarrow> disk \<times> (ca_error + unit)" where
  "cmd_reset_ca env dir disk =
     (case delete_ca env dir disk of
        (disk1, Inl e) \<Rightarrow> (disk1, Inl e)
      | (disk1, Inr _) \<Rightarrow>
          (case generate_ca env dir disk1 of (disk2, Inl e) \<Rightarrow> (disk2, Inl e) | (disk2, Inr _) \<Rightarrow> (disk2, Inr ())))"

section \<open>Listeners and the PII context\<close>

datatype start_mode = Mode_all | Mode_http | Mode_network

definition start_listeners :: "start_mode option \<Rightarrow> config \<Rightarrow> bool \<times> bool" where
  "start_listeners mode cfg =
     (let effective_mode = (case mode of Some m \<Rightarrow> m | None \<Rightarrow> Mode_all);
          run_http = (effective_mode \<noteq> Mode_network);
          run_net = (effective_mode \<in> {Mode_network, Mode_all} \<and> (mode \<noteq> None \<or> np_enabled (cfg_network_proxy cfg)))
      in (run_http, run_net))"

fun mode_label :: "bool \<times> bool \<Rightarrow> bytes" where
  "mode_label (True, True) = ''all''"
| "mode_label (True, False) = ''http''"
| "mode_label (False, True) = ''network''"
| "mode_label (False, False) = ''http''"

text \<open>The pipeline: the loaded entity model, and the endpoint and timeout of the sidecar.\<close>

record 'm pii_pipeline =
  pl_tier2 :: "('m \<times> f32 \<times> nat) option"
  pl_slm :: "(bytes \<times> nat) option"
  pl_threshold :: f32

record 'm pii_context =
  ctx_pipeline :: "'m pii_pipeline"
  ctx_registry :: vault_registry
  ctx_locale :: locale_pack
  ctx_mode :: pii_mode

text \<open>\<open>load_model\<close> is \<open>Tier2Detector::load\<close>; without the feature it always fails.\<close>

definition try_load_tier2 :: "(bytes \<Rightarrow> 'm option) \<Rightarrow> pii_config \<Rightarrow> ('m \<times> f32 \<times> nat) option" where
  "try_load_tier2 load_model cfg =
     (if \<not> tier_ner (pii_tiers cfg) then None
      else map_option (\<lambda>d. (d, ner_confidence_threshold (pii_ner cfg), ner_timeout_ms (pii_ner cfg)))
             (load_model (ner_model_path (pii_ner cfg))))"

definition pii_pipeline_new :: "(bytes \<Rightarrow> 'm option) \<Rightarrow> pii_config \<Rightarrow> 'm pii_pipeline" where
  "pii_pipeline_new load_model cfg =
     \<lparr>pl_tier2 = try_load_tier2 load_model cfg,
      pl_slm = (if tier_slm (pii_tiers cfg) \<and> slm_endpoint (pii_slm cfg) \<noteq> []
                then Some (trim_end_matches (CHR ''/'') (slm_endpoint (pii_slm cfg)), slm_timeout_ms (pii_slm cfg)) else None),
      pl_threshold = slm_threshold (pii_slm cfg)\<rparr>"

definition selected_mode :: "bool \<Rightarrow> config \<Rightarrow> pii_mode" where
  "selected_mode pii_flag cfg =
     (if pii_flag \<or> pii_mode_str (cfg_pii cfg) = ''replace'' then Replace
      else if pii_mode_str (cfg_pii cfg) = ''detect-only'' then DetectOnly else Off)"

text \<open>The lifetime in seconds is a 64-bit product.\<close>

definition build_pii_ctx :: "(bytes \<Rightarrow> 'm option) \<Rightarrow> config \<Rightarrow> bool \<Rightarrow> 'm pii_context option" where
  "build_pii_ctx load_model cfg pii_flag =
     (if selected_mode pii_flag cfg = Off then None
      else Some \<lparr>ctx_pipeline = pii_pipeline_new load_model (cfg_pii cfg),
                 ctx_registry = registry_new (vault_ttl_hours (cfg_pii cfg) * 3600 mod 2 ^ 64),
                 ctx_locale = (case locale_from_str_opt (pii_locale (cfg_pii cfg)) of Some l \<Rightarrow> l | None \<Rightarrow> EnUs),
                 ctx_mode = selected_mode pii_flag cfg\<rparr>)"

section \<open>PID file\<close>

definition pid_file_path :: "bytes \<Rightarrow> bytes" where
  "pid_file_path config_dir = path_join config_dir ''privacyclaw.pid''"

definition write_pid :: "bytes \<Rightarrow> (bytes \<Rightarrow> bool) \<Rightarrow> nat \<Rightarrow> disk \<Rightarrow> disk \<times> bool" where
  "write_pid config_dir writable pid disk =
     (if writable (pid_file_path config_dir) then (disk(pid_file_path config_dir \<mapsto> show_nat pid), True) else (disk, False))"

definition read_pid :: "bytes \<Rightarrow> disk \<Rightarrow> nat option" where
  "read_pid config_dir disk = obind (read_text disk (pid_file_path config_dir)) (\<lambda>s. parse_uint 10 (2 ^ 32 - 1) (trim s))"

text \<open>Removing the file is best effort; a failure is only logged.\<close>

definition remove_pid :: "bytes \<Rightarrow> (bytes \<Rightarrow> bool) \<Rightarrow> disk \<Rightarrow> disk" where
  "remove_pid config_dir removable disk =
     (if disk (pid_file_path config_dir) \<noteq> None \<and> removable (pid_file_path config_dir)
      then disk(pid_file_path config_dir := None) else disk)"

text \<open>
  \<open>stop_process\<close>: how the first \<open>kill\<close> ended (\<open>None\<close>: it could not be run), and what each poll until the
  deadline sees.
\<close>

fun poll_exit :: "bool list \<Rightarrow> bool" where
  "poll_exit [] = False"
| "poll_exit (alive # rest) = (if \<not> alive then True else poll_exit rest)"

definition stop_process :: "bytes \<Rightarrow> (bytes \<Rightarrow> bool) \<Rightarrow> bool option \<Rightarrow> bool list \<Rightarrow> disk \<Rightarrow> disk \<times> bool option" where
  "stop_process config_dir removable term_status polls disk =
     (case term_status of
        None \<Rightarrow> (disk, None)
      | Some ok \<Rightarrow> (remove_pid config_dir removable disk, Some (\<not> ok \<or> poll_exit polls)))"

section \<open>Removal\<close>

text \<open>The results carry a short text in place of the message that is printed.\<close>

datatype uninstall_outcome = Step_done | Step_skipped bytes | Step_failed bytes

record uninstall_state =
  un_disk :: disk
  un_net :: net_files

record uninstall_env =
  un_config_dir :: bytes
  un_home :: "bytes option"
  un_removable :: "bytes \<Rightarrow> bool"
  un_term :: "nat \<Rightarrow> bool option"
  un_polls :: "bool list"
  un_printf :: "bytes \<Rightarrow> bytes"
  un_privileged :: "bytes \<Rightarrow> bool"
  un_purge_ok :: bool
  un_purged :: "bytes \<Rightarrow> bool"

definition launch_agent_path :: "bytes option \<Rightarrow> bytes" where
  "launch_agent_path home =
     path_join (case home of Some h \<Rightarrow> h | None \<Rightarrow> ''/tmp'') ''Library/LaunchAgents/com.privacyclaw.proxy.plist''"

definition step_stop_proxy :: "uninstall_env \<Rightarrow> uninstall_state \<Rightarrow> uninstall_state \<times> uninstall_outcome" where
  "step_stop_proxy env st =
     (case read_pid (un_config_dir env) (un_disk st) of
        None \<Rightarrow> (st, Step_skipped ''no PID file'')
      | Some pid \<Rightarrow>
          (case stop_process (un_config_dir env) (un_removable env) (un_term env pid) (un_polls env) (un_disk st) of
             (disk, Some _) \<Rightarrow> (st\<lparr>un_disk := disk\<rparr>, Step_done)
           | (disk, None) \<Rightarrow> (st\<lparr>un_disk := disk\<rparr>, Step_failed ''kill'')))"

definition step_unload_launch_agent :: "uninstall_env \<Rightarrow> uninstall_state \<Rightarrow> uninstall_state \<times> uninstall_outcome" where
  "step_unload_launch_agent env st =
     (let plist = launch_agent_path (un_home env) in
      if un_disk st plist = None then (st, Step_skipped ''plist not found'')
      else if un_removable env plist then (st\<lparr>un_disk := (un_disk st)(plist := None)\<rparr>, Step_done)
      else (st, Step_failed plist))"

definition step_disable_network_proxy :: "uninstall_env \<Rightarrow> uninstall_state \<Rightarrow> uninstall_state \<times> uninstall_outcome" where
  "step_disable_network_proxy env st =
     (if un_privileged env ''disable'' then (st\<lparr>un_net := disable (un_printf env) (un_net st)\<rparr>, Step_done)
      else (st, Step_failed ''disable''))"

text \<open>The removal of binaries and certificates is one privileged script, the purge one recursive
  removal, which may have removed some of the files (\<open>un_purged\<close>) when it fails.\<close>

definition step_remove_privileged :: "uninstall_env \<Rightarrow> uninstall_state \<Rightarrow> uninstall_state \<times> uninstall_outcome" where
  "step_remove_privileged env st = (st, if un_privileged env ''remove'' then Step_done else Step_failed ''remove'')"

definition step_purge_data :: "uninstall_env \<Rightarrow> uninstall_state \<Rightarrow> uninstall_state \<times> uninstall_outcome" where
  "step_purge_data env st =
     (st\<lparr>un_disk := (\<lambda>p. if prefix (un_config_dir env @ ''/'') p \<and> (un_purge_ok env \<or> un_purged env p) then None else un_disk st p)\<rparr>,
      if un_purge_ok env then Step_done else Step_failed (un_config_dir env))"

definition uninstall_run :: "uninstall_env \<Rightarrow> bool \<Rightarrow> uninstall_state \<Rightarrow> uninstall_state \<times> uninstall_outcome list" where
  "uninstall_run env purge st =
     (let (st1, r1) = step_stop_proxy env st;
          (st2, r2) = step_unload_launch_agent env st1;
          (st3, r3) = (if is_enabled (un_net st2) then step_disable_network_proxy env st2
                       else (st2, Step_skipped ''network proxy was not enabled''));
          (st4, r4) = step_remove_privileged env st3;
          (st5, r5) = (if purge then map_prod id (\<lambda>r. [r]) (step_purge_data env st4) else (st4, []))
      in (st5, [r1, r2, r3, r4] @ r5))"

definition has_failures :: "uninstall_outcome list \<Rightarrow> bool" where
  "has_failures results \<longleftrightarrow> list_ex (\<lambda>r. case r of Step_failed _ \<Rightarrow> True | _ \<Rightarrow> False) results"

section \<open>Certificates are issued once and shared by both listeners\<close>

inductive cert_steps :: "(nat \<Rightarrow> bytes \<Rightarrow> 'k option) \<Rightarrow> 'k cert_cache \<Rightarrow> 'k cert_cache \<Rightarrow> bool" for issue where
  done_steps: "cert_steps issue c c"
| connect_step: "cert_steps issue c c' \<Longrightarrow> cert_steps issue c (snd (cert_get_or_create issue d c'))"
| sni_step: "cert_steps issue c c' \<Longrightarrow> cert_steps issue c (snd (sni_resolve issue sn c'))"

definition cert_ok :: "(nat \<Rightarrow> bytes \<Rightarrow> 'k option) \<Rightarrow> 'k cert_cache \<Rightarrow> bool" where
  "cert_ok issue c \<longleftrightarrow>
     (\<forall>d sc. hm_get (acceptor_cache c) d = Some sc \<longrightarrow>
        sc_alpn sc = [''http/1.1''] \<and> hm_get (key_cache c) d = Some (sc_key sc))
     \<and> (\<forall>d k. hm_get (key_cache c) d = Some k \<longrightarrow> (\<exists>n < issued c. issue n d = Some k))"

lemma cert_ok_key: "cert_ok issue c \<Longrightarrow> hm_get (key_cache c) d = Some k \<Longrightarrow> \<exists>n < issued c. issue n d = Some k"
  unfolding cert_ok_def by blast

lemma cert_ok_accept: "cert_ok issue c \<Longrightarrow> hm_get (acceptor_cache c) d = Some sc \<Longrightarrow>
    sc_alpn sc = [''http/1.1''] \<and> hm_get (key_cache c) d = Some (sc_key sc)"
  unfolding cert_ok_def by blast

lemma cert_okI:
  assumes "\<And>d sc. hm_get (acceptor_cache c) d = Some sc \<Longrightarrow> sc_alpn sc = [''http/1.1''] \<and> hm_get (key_cache c) d = Some (sc_key sc)"
    and "\<And>d k. hm_get (key_cache c) d = Some k \<Longrightarrow> \<exists>n < issued c. issue n d = Some k"
  shows "cert_ok issue c"
  using assms unfolding cert_ok_def by blast

lemma cert_ok_issue: "cert_ok issue c \<Longrightarrow> cert_ok issue (c\<lparr>issued := Suc (issued c)\<rparr>)"
proof (rule cert_okI)
  fix d k
  assume "cert_ok issue c" and "hm_get (key_cache (c\<lparr>issued := Suc (issued c)\<rparr>)) d = Some k"
  then obtain n where "n < issued c" "issue n d = Some k" using cert_ok_key [of issue c d k] by auto
  then show "\<exists>n < issued (c\<lparr>issued := Suc (issued c)\<rparr>). issue n d = Some k" by (auto intro: less_SucI)
qed (simp add: cert_ok_accept)

lemma cert_ok_insert:
  assumes "cert_ok issue c" and "hm_get (key_cache c) d = None" and "issue (issued c) d = Some ck"
  shows "cert_ok issue (c\<lparr>key_cache := hm_insert d ck (key_cache c), issued := Suc (issued c)\<rparr>)"
proof (rule cert_okI)
  fix d' sc
  assume "hm_get (acceptor_cache (c\<lparr>key_cache := hm_insert d ck (key_cache c), issued := Suc (issued c)\<rparr>)) d' = Some sc"
  then have "sc_alpn sc = [''http/1.1''] \<and> hm_get (key_cache c) d' = Some (sc_key sc)"
    using cert_ok_accept [OF assms(1)] by simp
  then show "sc_alpn sc = [''http/1.1''] \<and>
      hm_get (key_cache (c\<lparr>key_cache := hm_insert d ck (key_cache c), issued := Suc (issued c)\<rparr>)) d' = Some (sc_key sc)"
    using assms(2) by (auto simp: hm.get_put)
next
  fix d' k
  assume "hm_get (key_cache (c\<lparr>key_cache := hm_insert d ck (key_cache c), issued := Suc (issued c)\<rparr>)) d' = Some k"
  then have "hm_get (key_cache c) d' = Some k \<or> d' = d \<and> k = ck" by (auto simp: hm.get_put split: if_splits)
  then obtain n where "n < Suc (issued c)" "issue n d' = Some k"
    using cert_ok_key [OF assms(1), of d' k] assms(3) less_SucI lessI by metis
  then show "\<exists>n < issued (c\<lparr>key_cache := hm_insert d ck (key_cache c), issued := Suc (issued c)\<rparr>). issue n d' = Some k"
    by auto
qed

text \<open>The later cache keeps what the earlier one has.\<close>

definition keeps :: "'k cert_cache \<Rightarrow> 'k cert_cache \<Rightarrow> bool" where
  "keeps c c' \<longleftrightarrow> (\<forall>d k. hm_get (key_cache c) d = Some k \<longrightarrow> hm_get (key_cache c') d = Some k)"

lemma key_inner_keeps:
  assumes "cert_ok issue c"
  shows "cert_ok issue (snd (get_or_create_key_inner issue d c)) \<and> keeps c (snd (get_or_create_key_inner issue d c))
    \<and> acceptor_cache (snd (get_or_create_key_inner issue d c)) = acceptor_cache c
    \<and> (\<forall>k. fst (get_or_create_key_inner issue d c) = Some k \<longrightarrow>
         hm_get (key_cache (snd (get_or_create_key_inner issue d c))) d = Some k)"
proof (cases "hm_get (key_cache c) d")
  case (Some ck)
  then show ?thesis using assms by (simp add: get_or_create_key_inner_def keeps_def)
next
  case None
  show ?thesis
  proof (cases "issue (issued c) d")
    case None': None
    then show ?thesis using assms None cert_ok_issue by (simp add: get_or_create_key_inner_def keeps_def)
  next
    case (Some ck)
    then show ?thesis
      using None cert_ok_insert [OF assms None Some] by (auto simp: get_or_create_key_inner_def keeps_def hm.get_put)
  qed
qed

lemma cert_get_or_create_keeps:
  assumes "cert_ok issue c"
  shows "cert_ok issue (snd (cert_get_or_create issue d c)) \<and> keeps c (snd (cert_get_or_create issue d c))
    \<and> (\<forall>sc. fst (cert_get_or_create issue d c) = Some sc \<longrightarrow>
         sc_alpn sc = [''http/1.1''] \<and> hm_get (key_cache (snd (cert_get_or_create issue d c))) d = Some (sc_key sc))"
proof (cases "hm_get (acceptor_cache c) d")
  case (Some sc)
  then show ?thesis using assms by (simp add: cert_get_or_create_def keeps_def cert_ok_def)
next
  case None
  obtain r c1 where r: "get_or_create_key_inner issue d c = (r, c1)" by fastforce
  have k: "cert_ok issue c1" "keeps c c1" "acceptor_cache c1 = acceptor_cache c"
      "\<And>k. r = Some k \<Longrightarrow> hm_get (key_cache c1) d = Some k"
    using key_inner_keeps [OF assms, of d] r by auto
  show ?thesis
  proof (cases r)
    case r': None
    then show ?thesis using None r k by (simp add: cert_get_or_create_def)
  next
    case (Some ck)
    then have "hm_get (key_cache c1) d = Some ck" by (rule k(4))
    then have "cert_ok issue (c1\<lparr>acceptor_cache := hm_insert d \<lparr>sc_key = ck, sc_alpn = [''http/1.1'']\<rparr> (acceptor_cache c1)\<rparr>)"
      using k(1) by (intro cert_okI) (auto simp: hm.get_put cert_ok_accept cert_ok_key split: if_splits)
    then show ?thesis
      using None r k(2) Some \<open>hm_get (key_cache c1) d = Some ck\<close> by (simp add: cert_get_or_create_def keeps_def Let_def)
  qed
qed

lemma keeps_trans: "keeps a b \<Longrightarrow> keeps b c \<Longrightarrow> keeps a c"
  by (simp add: keeps_def)

lemma cert_steps_keep:
  assumes "cert_steps issue c c'" and "cert_ok issue c"
  shows "cert_ok issue c' \<and> keeps c c'"
  using assms
proof (induction rule: cert_steps.induct)
  case (connect_step c c' d)
  then show ?case using cert_get_or_create_keeps [of issue c' d] keeps_trans by blast
next
  case (sni_step c c' sn)
  then show ?case
    using key_inner_keeps [of issue c' "the sn"] keeps_trans [of c c'] by (cases sn) (auto simp: sni_resolve_def)
qed (simp add: keeps_def)

text \<open>
  C34. Through any sequence of connections on both listeners: the certificate presented for a name is
  one that was issued for that name, the two listeners present the same one, both offer only
  HTTP/1.1 where they choose, and a name that has a certificate keeps it for the life of the process.
\<close>

theorem one_certificate_per_name:
  assumes "cert_steps issue cert_cache_new c" and "cert_steps issue c c'"
    and "fst (sni_resolve issue (Some d) c) = Some k"
    and "fst (cert_get_or_create issue d (snd (sni_resolve issue (Some d) c))) = Some sc"
  shows "sc_key sc = k \<and> sc_alpn sc = [''http/1.1''] \<and> (\<exists>n. issue n d = Some k)
    \<and> (hm_get (key_cache c) d = Some k \<longrightarrow> fst (sni_resolve issue (Some d) c') = Some k)"
proof -
  have "cert_ok issue cert_cache_new" by (simp add: cert_ok_def cert_cache_new_def hm_get_def)
  then have ok: "cert_ok issue c" "keeps c c'" using cert_steps_keep assms(1,2) by blast+
  let ?c1 = "snd (sni_resolve issue (Some d) c)"
  have c1: "cert_ok issue ?c1" "hm_get (key_cache ?c1) d = Some k"
    using key_inner_keeps [OF ok(1), of d] assms(3) by (simp_all add: sni_resolve_def)
  have "sc_alpn sc = [''http/1.1'']" "keeps ?c1 (snd (cert_get_or_create issue d ?c1))"
      "hm_get (key_cache (snd (cert_get_or_create issue d ?c1))) d = Some (sc_key sc)"
    using cert_get_or_create_keeps [OF c1(1), of d] assms(4) by blast+
  moreover have "\<exists>n. issue n d = Some k" using cert_ok_key [OF c1] by blast
  moreover have "hm_get (key_cache c) d = Some k \<longrightarrow> fst (sni_resolve issue (Some d) c') = Some k"
    using ok(2) by (simp add: keeps_def sni_resolve_def get_or_create_key_inner_def)
  ultimately show ?thesis using c1(2) by (simp add: keeps_def)
qed

theorem one_certificate_per_name_witness:
  "fst (cert_get_or_create (\<lambda>n d. Some n) ''a.b'' (snd (sni_resolve (\<lambda>n d. Some n) (Some ''a.b'') cert_cache_new)))
     = Some \<lparr>sc_key = 0, sc_alpn = [''http/1.1'']\<rparr>"
proof -
  let ?issue = "\<lambda>(n :: nat) (d :: bytes). Some n"
  have a: "fst (sni_resolve ?issue (Some ''a.b'') cert_cache_new) = Some 0" by code_simp
  obtain sc where b: "fst (cert_get_or_create ?issue ''a.b'' (snd (sni_resolve ?issue (Some ''a.b'') cert_cache_new))) = Some sc"
    by (cases "fst (cert_get_or_create ?issue ''a.b'' (snd (sni_resolve ?issue (Some ''a.b'') cert_cache_new)))")
      (auto simp: cert_get_or_create_def sni_resolve_def get_or_create_key_inner_def cert_cache_new_def Let_def split: option.splits)
  show ?thesis
    using one_certificate_per_name [OF cert_steps.done_steps cert_steps.done_steps a b] b by simp
qed

section \<open>The authority on disk\<close>

lemma ca_paths_differ [simp]: "ca_key_path dir \<noteq> ca_cert_path dir" "ca_cert_path dir \<noteq> ca_key_path dir"
  by (simp_all add: ca_key_path_def ca_cert_path_def path_join_def)

lemma delete_files_spec:
  "delete_files env ps disk = (disk', Inr ()) \<Longrightarrow> disk' p = (if p \<in> set ps then None else disk p)"
  by (induction ps arbitrary: disk) (auto split: if_splits)

lemma load_ca_missing: "disk (ca_cert_path dir) = None \<or> disk (ca_key_path dir) = None \<Longrightarrow> load_ca env dir disk = Inr None"
  by (simp add: load_ca_def)

text \<open>
  An authority that was generated is the one that is loaded afterwards; after a deletion none is
  loaded; a reset that succeeds loads the new one; and where there was none before, a generation
  that fails before the key is written leaves none to be loaded.
\<close>

theorem ca_roundtrip:
  assumes "ca_keygen env = Some (cert, key, der)" and "pem_cert_to_der env cert = Some der"
    and "utf8_valid cert" and "utf8_valid key"
  shows "(generate_ca env dir disk = (disk1, Inr b) \<longrightarrow> load_ca env dir disk1 = Inr (Some b))
    \<and> (delete_ca env dir disk = (disk1, Inr ()) \<longrightarrow> load_ca env dir disk1 = Inr None)
    \<and> (cmd_reset_ca env dir disk = (disk1, Inr ()) \<longrightarrow> load_ca env dir disk1 = Inr (Some \<lparr>key_pem = key, cert_der = der\<rparr>))
    \<and> (disk (ca_key_path dir) = None \<and> generate_ca env dir disk = (disk1, Inl e) \<and> e \<noteq> Ca_chmod \<longrightarrow>
         load_ca env dir disk1 = Inr None)"
proof -
  have gen: "load_ca env dir d1 = Inr (Some b) \<and> b = \<lparr>key_pem = key, cert_der = der\<rparr>"
    if "generate_ca env dir d = (d1, Inr b)" for d d1 b
    using that assms by (auto simp: generate_ca_def load_ca_def read_text_def obind_def Let_def split: if_splits)
  have del: "load_ca env dir d1 = Inr None" if "delete_ca env dir d = (d1, Inr ())" for d d1
    using delete_files_spec [of env "[ca_cert_path dir, ca_key_path dir]" d d1 "ca_cert_path dir"] that
    by (intro load_ca_missing) (simp add: delete_ca_def)
  have "load_ca env dir disk1 = Inr (Some \<lparr>key_pem = key, cert_der = der\<rparr>)" if "cmd_reset_ca env dir disk = (disk1, Inr ())"
    using that gen by (auto simp: cmd_reset_ca_def split: prod.splits sum.splits)
  moreover have "load_ca env dir disk1 = Inr None"
    if "disk (ca_key_path dir) = None" "generate_ca env dir disk = (disk1, Inl e)" "e \<noteq> Ca_chmod"
    using that assms(1) by (intro load_ca_missing) (auto simp: generate_ca_def Let_def split: if_splits)
  ultimately show ?thesis using gen del by blast
qed

definition sample_ca :: ca_env where
  "sample_ca = \<lparr>pem_cert_to_der = (\<lambda>p. Some p), ca_keygen = Some (''c'', ''k'', ''c''), ca_mkdir = (\<lambda>_. True), ca_write = (\<lambda>_. True),
     ca_chmod = (\<lambda>_. True), ca_remove = (\<lambda>_. True)\<rparr>"

theorem ca_roundtrip_witness:
  "load_ca sample_ca ''/ca'' (fst (generate_ca sample_ca ''/ca'' Map.empty)) = Inr (Some \<lparr>key_pem = ''k'', cert_der = ''c''\<rparr>)"
proof -
  have "utf8_valid ''c''" "utf8_valid ''k''" by code_simp+
  then show ?thesis
    using ca_roundtrip [of sample_ca "''c''" "''k''" "''c''" "''/ca''" Map.empty "fst (generate_ca sample_ca ''/ca'' Map.empty)"
        "\<lparr>key_pem = ''k'', cert_der = ''c''\<rparr>"]
    by (simp add: sample_ca_def generate_ca_def Let_def)
qed

section \<open>PID file\<close>

text \<open>
  The PID that is written is the one that is read; and when stopping reports success the file
  is gone, unless it could not be removed. A result of \<open>False\<close> means that no poll saw the process gone.
\<close>

theorem pid_lifecycle:
  assumes "pid < 2 ^ 32" and "write_pid dir writable pid disk = (disk1, True)"
    and "stop_process dir removable term_status polls disk1 = (disk2, Some clean)" and "removable (pid_file_path dir)"
  shows "read_pid dir disk1 = Some pid \<and> read_pid dir disk2 = None
    \<and> (\<not> clean \<longrightarrow> term_status = Some True \<and> False \<notin> set polls)"
proof -
  have d1: "disk1 (pid_file_path dir) = Some (show_nat pid)" using assms(2) by (auto simp: write_pid_def split: if_splits)
  have "utf8_valid (show_nat pid)" by (rule ascii_utf8) simp
  then have "read_pid dir disk1 = Some pid"
    using assms(1) d1 parse_show_nat [of pid "2 ^ 32 - 1"] by (simp add: read_pid_def read_text_def)
  moreover have "poll_exit polls \<longleftrightarrow> False \<in> set polls" by (induction polls) auto
  ultimately show ?thesis
    using assms(3,4) d1
    by (auto simp: stop_process_def remove_pid_def read_pid_def read_text_def split: option.splits)
qed

theorem pid_lifecycle_witness:
  "read_pid ''/c'' (fst (write_pid ''/c'' (\<lambda>_. True) 4711 Map.empty)) = Some 4711"
  using pid_lifecycle [of 4711 "''/c''" "\<lambda>_. True" Map.empty "fst (write_pid ''/c'' (\<lambda>_. True) 4711 Map.empty)" "\<lambda>_. True"
      "Some False" "[]" "fst (stop_process ''/c'' (\<lambda>_. True) (Some False) [] (fst (write_pid ''/c'' (\<lambda>_. True) 4711 Map.empty)))" True]
  by (simp add: write_pid_def stop_process_def)

section \<open>Start\<close>

text \<open>Some listener always runs, and the label that is logged names the ones that do.\<close>

lemma start_listeners_spec:
  "fst (start_listeners mode cfg) \<or> snd (start_listeners mode cfg)"
  "mode \<noteq> None \<Longrightarrow> start_listeners mode cfg = (mode \<noteq> Some Mode_network, mode \<noteq> Some Mode_http)"
  "start_listeners None cfg = (True, np_enabled (cfg_network_proxy cfg))"
  by (cases mode; cases "the mode"; simp add: start_listeners_def)+

text \<open>The setting of the regex tier has no influence on the context: the tier runs whether or not it is enabled.\<close>

lemma regex_setting_ignored: "build_pii_ctx load_model (set_regex b cfg) pii_flag = build_pii_ctx load_model cfg pii_flag"
  by (simp add: build_pii_ctx_def selected_mode_def set_regex_def pii_pipeline_new_def try_load_tier2_def)

text \<open>The lifetime of a vault wraps: a very large number of hours becomes no time at all.\<close>

lemma vault_lifetime_wraps:
  assumes "vault_ttl_hours (cfg_pii cfg) = 2 ^ 60" and "build_pii_ctx load_model cfg pii_flag = Some ctx"
  shows "ttl (ctx_registry ctx) = 0"
  using assms by (auto simp: build_pii_ctx_def registry_new_def split: if_splits)

section \<open>Removal\<close>

lemma disable_not_enabled:
  assumes "printf_plain printf" and "list_all line_ok ls" and "etc_hosts fs = lf_lines ls"
    and "plain (lf_lines (filter (\<lambda>l. \<not> tagged l) ls))"
  shows "\<not> is_enabled (disable printf fs)"
proof -
  have "etc_hosts (disable printf fs) = lf_lines (filter (\<lambda>l. \<not> tagged l) ls)"
    using assms by (simp add: disable_def remove_lf_lines str_lines_lf printf_plain_def)
  moreover have "list_all line_ok (filter (\<lambda>l. \<not> tagged l) ls)" using assms(2) by (simp add: list_all_iff)
  ultimately show ?thesis by (simp add: is_enabled_def has_privacyclaw_entries_def str_lines_lf list_ex_iff)
qed

lemma step_stop_proxy_pid:
  assumes "un_removable env (pid_file_path (un_config_dir env))" and "step_stop_proxy env st = (st', r)" and "\<not> has_failures [r]"
  shows "read_pid (un_config_dir env) (un_disk st') = None \<and> un_net st' = un_net st"
  using assms
  by (cases "read_pid (un_config_dir env) (un_disk st)"; cases "un_term env (the (read_pid (un_config_dir env) (un_disk st)))")
    (auto simp: step_stop_proxy_def stop_process_def remove_pid_def read_pid_def read_text_def has_failures_def)

lemma pid_not_plist: "pid_file_path dir \<noteq> launch_agent_path home"
  by (simp add: pid_file_path_def launch_agent_path_def path_join_def split: option.split)

text \<open>
  A removal without failed steps leaves the machine as before: no readable PID file, no launch
  agent, and no entry of the program in the hosts file, if that was made of complete lines whose
  remaining ones \<open>printf\<close> does not interpret.
\<close>

theorem uninstall_cleans:
  assumes "uninstall_run env purge st = (st', results)" and "\<not> has_failures results"
    and "un_removable env (pid_file_path (un_config_dir env))" and "printf_plain (un_printf env)"
    and "etc_hosts (un_net st) = lf_lines ls" and "list_all line_ok ls" and "plain (lf_lines (filter (\<lambda>l. \<not> tagged l) ls))"
  shows "read_pid (un_config_dir env) (un_disk st') = None \<and> un_disk st' (launch_agent_path (un_home env)) = None
    \<and> \<not> is_enabled (un_net st')"
proof -
  obtain st1 r1 where s1: "step_stop_proxy env st = (st1, r1)" by fastforce
  obtain st2 r2 where s2: "step_unload_launch_agent env st1 = (st2, r2)" by fastforce
  obtain st3 r3 where s3: "(if is_enabled (un_net st2) then step_disable_network_proxy env st2
      else (st2, Step_skipped ''network proxy was not enabled'')) = (st3, r3)" by fastforce
  have res: "\<not> has_failures [r1]" "\<not> has_failures [r2]" "\<not> has_failures [r3]"
    using assms(1,2) by (auto simp: uninstall_run_def s1 s2 s3 has_failures_def step_remove_privileged_def step_purge_data_def split: if_splits)
  have p1: "read_pid (un_config_dir env) (un_disk st1) = None" "un_net st1 = un_net st"
    using step_stop_proxy_pid [OF assms(3) s1 res(1)] by simp_all
  have p2: "read_pid (un_config_dir env) (un_disk st2) = None" "un_disk st2 (launch_agent_path (un_home env)) = None"
      "un_net st2 = un_net st"
    using s2 res(2) p1 pid_not_plist
    by (auto simp: step_unload_launch_agent_def has_failures_def read_pid_def read_text_def Let_def split: if_splits)
  have p3: "un_disk st3 = un_disk st2" "\<not> is_enabled (un_net st3)"
    using s3 res(3) disable_not_enabled [OF assms(4,6,5,7)] p2(3)
    by (auto simp: step_disable_network_proxy_def has_failures_def split: if_splits)
  have out: "un_net st' = un_net st3" "\<And>p. un_disk st' p = un_disk st3 p \<or> un_disk st' p = None"
    using assms(1) by (auto simp: uninstall_run_def s1 s2 s3 step_remove_privileged_def step_purge_data_def split: if_splits)
  have "read_pid (un_config_dir env) (un_disk st') = None"
    using out(2) [of "pid_file_path (un_config_dir env)"] p2(1) p3(1) by (auto simp: read_pid_def read_text_def)
  moreover have "un_disk st' (launch_agent_path (un_home env)) = None"
    using out(2) [of "launch_agent_path (un_home env)"] p2(2) p3(1) by auto
  ultimately show ?thesis using out(1) p3(2) by simp
qed

definition sample_uninstall :: uninstall_env where
  "sample_uninstall = \<lparr>un_config_dir = ''/c'', un_home = Some ''/h'', un_removable = (\<lambda>_. True), un_term = (\<lambda>_. Some True), un_polls = [True, False],
     un_printf = (\<lambda>s. s), un_privileged = (\<lambda>_. True), un_purge_ok = True, un_purged = (\<lambda>_. False)\<rparr>"

definition sample_installed :: uninstall_state where
  "sample_installed = \<lparr>un_disk = [''/c/privacyclaw.pid'' \<mapsto> ''7'', ''/h/Library/LaunchAgents/com.privacyclaw.proxy.plist'' \<mapsto> []],
     un_net = \<lparr>etc_hosts = lf_lines [''127.0.0.1 localhost'', hosts_line ''::1'' ''api.openai.com''], etc_pf_conf = [], pf_anchor = None\<rparr>\<rparr>"

theorem uninstall_cleans_witness:
  "\<not> is_enabled (un_net (fst (uninstall_run sample_uninstall False sample_installed)))"
proof -
  let ?r = "uninstall_run sample_uninstall False sample_installed"
  let ?ls = "[''127.0.0.1 localhost'', hosts_line ''::1'' ''api.openai.com'']"
  have "tagged (hosts_line ''::1'' ''api.openai.com'')" unfolding hosts_line_def by (intro tagged_append tagged_tag)
  then have plain: "plain (lf_lines (filter (\<lambda>l. \<not> tagged l) ?ls))" by simp
  have ok: "list_all line_ok ?ls" by (simp add: line_ok_def suffix_line hosts_line_def PRIVACYCLAW_TAG_def)
  have step: "snd (step_disable_network_proxy sample_uninstall st) = Step_done"
      "snd (step_remove_privileged sample_uninstall st) = Step_done" for st
    by (simp_all add: step_disable_network_proxy_def step_remove_privileged_def sample_uninstall_def)
  have "snd (step_stop_proxy sample_uninstall st) \<noteq> Step_failed e" "snd (step_unload_launch_agent sample_uninstall st) \<noteq> Step_failed e" for st e
    by (auto simp: step_stop_proxy_def step_unload_launch_agent_def stop_process_def sample_uninstall_def Let_def split: option.split)
  then have "\<not> has_failures (snd ?r)"
    using step by (simp add: uninstall_run_def has_failures_def case_prod_unfold Let_def split: uninstall_outcome.split)
  then show ?thesis
    using uninstall_cleans [of sample_uninstall False sample_installed "fst ?r" "snd ?r" ?ls] plain ok
    by (simp add: sample_uninstall_def sample_installed_def printf_plain_def)
qed

end
