(* ===== verification/Spec2Isabelle.thy ===== *)
theory Spec2Isabelle
  imports Request Connect Tray Startup
begin

text \<open>
  \<^bold>\<open>PrivacyClaw: a local proxy that keeps personal data out of requests to language-model services.\<close>

  \<^bold>\<open>The program.\<close> A client's connection reaches one of two listeners: one that speaks CONNECT
  (\<open>src/src/proxy/connect.rs\<close>), and one behind a packet-filter redirection that looks at the TLS
  ClientHello (\<open>src/src/proxy/network.rs\<close>). Connections to hosts that are not listed are bridged
  unread; for a listed host the proxy ends TLS on both sides and runs two tasks
  (\<open>src/src/proxy/intercept/\<close>). The request task frames HTTP requests, finds personal data in the
  messages (regular expressions, an entity model, a language model), writes tokens with synthetic
  values in their place and remembers the pairs in the vault of the conversation. The response task
  decodes the stream of server-sent events and puts the originals back. Requests, responses and
  vaults are logged in one file per conversation (\<open>src/src/storage/mod.rs\<close>), which the dashboard
  (\<open>src/src/dashboard/mod.rs\<close>) shows; it also changes the configuration and manages models.

  \<^bold>\<open>Shared vocabulary.\<close>
  \<^item> \<open>Prelude\<close>: bytes, \<open>outcome\<close> (\<open>Panic\<close> as a value), byte searches, hash maps behind the locale
    \<open>keyed_store\<close>, incremental parsers behind the locale \<open>chunk_stream\<close>, stable sorting and greedy choice
    of intervals.
  \<^item> \<open>Rust_Str\<close>: UTF-8, slicing, trimming, lines, numbers as text. \<open>Json_Value\<close>: \<open>serde_json::Value\<close>.
  \<^item> \<open>Aho_Corasick\<close>: the contract of the multi-pattern matcher (locale \<open>leftmost_longest\<close>, with an
    executable instance) and the rewriting it gives.

  \<^bold>\<open>Personal data.\<close>
  \<^item> \<open>Vault\<close> (\<open>src/src/pii/vault.rs\<close>: \<open>PiiVault\<close>): the parallel vectors, the hash map, the longest key
    and the matcher as the record \<open>pii_vault\<close>, one definition per method. Shown: the invariant of every
    reachable vault, the reverse replacement as longest-first rewriting, records and back.
  \<^item> \<open>Registry\<close> (\<open>VaultRegistry\<close>): active vaults, expiry, loading and merging, with handles into a heap of
    vaults. Shown: the invariant, merging, a vault that is evicted and loaded again.
  \<^item> \<open>Tier1\<close> (\<open>tier1.rs\<close>, \<open>locale.rs\<close>), \<open>Synth\<close> (\<open>synth.rs\<close>), \<open>Tiers\<close> (\<open>tier2.rs\<close>, \<open>tier3.rs\<close>, merging in
    \<open>pii/mod.rs\<close>): detection, validators, generated values. Shown: which matches survive, that every
    span of the regex tier survives the others, that generated values are stable.
  \<^item> \<open>Pipeline\<close> (\<open>pii/mod.rs\<close>): the two stages over a request body, the system instruction. Shown: stage
    two returns and covers every span, and the response cascade undoes it.
  \<^item> \<open>Buffer\<close> (\<open>buffer.rs\<close>): the cascade over tokens and the held-back tail of a stream. Shown: equality
    with a reference rewriting, conservation of text, nothing of a split key is released.

  \<^bold>\<open>Traffic.\<close>
  \<^item> \<open>Framing\<close> (\<open>framing.rs\<close>), \<open>Sse\<close> (\<open>sse.rs\<close>, \<open>pii_sse.rs\<close>), \<open>Parsers\<close> (\<open>src/src/parser/\<close>): HTTP framing,
    chunked bodies, events, provider formats. Shown: independence of how bytes are cut, round trips.
  \<^item> \<open>Request\<close> (\<open>c2u.rs\<close>) and \<open>Response\<close> (\<open>u2c.rs\<close>, \<open>pii_sse.rs\<close>, \<open>backoff.rs\<close>): the two tasks as functions
    of the reads they get; what they write, store and broadcast are logs in \<open>c2u_state\<close> and \<open>u2c_state\<close>.
    Shown: every request is forwarded once and in order, in PII mode with the output of the
    pipeline; what a client reads is the restored text; the loops return.
  \<^item> \<open>Network\<close> (\<open>network.rs\<close>, \<open>util.rs\<close>): the reader of a ClientHello and the DNS client, shown to invert
    encoders written from the wire formats. \<open>Connect\<close> (\<open>connect.rs\<close>, \<open>network.rs\<close>): the handlers as lists
    of effects. Shown: only listed hosts are intercepted, other hosts are bridged.

  \<^bold>\<open>Administration.\<close>
  \<^item> \<open>Storage\<close> (\<open>src/src/storage/mod.rs\<close>): files of lines and the cache of paths. Shown: a refinement of an
    abstract log per conversation; what two concurrent saves and the rotation of files break.
  \<^item> \<open>Config_Model\<close> (\<open>config.rs\<close>, \<open>cmd_config.rs\<close>, \<open>tray.rs\<close>): loading, patching, \<open>config set\<close>, protection levels. Shown:
    the deep merge against a specification by paths, the invariant of the manager.
  \<^item> \<open>Models\<close> (\<open>src/src/models/mod.rs\<close>): catalog, tracker and downloads over a disk. \<open>Net_Helper\<close>
    (\<open>network_helper.rs\<close>): hosts and packet-filter files. \<open>Dashboard\<close> (\<open>dashboard/mod.rs\<close>): all HTTP
    endpoints over one state, with an invariant of the states they reach. \<open>Tray\<close> (\<open>tray.rs\<close>, \<open>cmd_config.rs\<close>): the
    menu as a state machine and the commands it starts, with an invariant, and how its changes get lost.
    \<open>Startup\<close> (\<open>src/src/ca/\<close>, \<open>main.rs\<close>, \<open>pid.rs\<close>, \<open>uninstall.rs\<close>): certificates, start modes, PID file, removal.

  \<^bold>\<open>Parameters.\<close> Code outside the repository is an argument: the regular-expression engine, the
  entity and language models, hash functions and random numbers, the matcher's builder, serde's
  readers and printers, TLS, sockets, the clock, the shell. Where a theorem relies on their
  documented behaviour, that is a named hypothesis (\<open>leftmost_longest\<close>, \<open>rng\<close>, \<open>faithful_codec\<close>,
  \<open>printf_plain\<close>, \<open>header_ok\<close>, \<open>rec_ok\<close>), and a witness instantiates it.

  \<^bold>\<open>Numbers, bounds and fuel.\<close> Positions and lengths are natural numbers below \<open>2 ^ 64\<close>; a sum that the
  code does not check wraps there (\<open>usize_add\<close>), and a product likewise. Seeds are 64-bit words.
  Confidences are rationals: no theorem depends on the rounding of \<open>f32\<close>. All loops are total
  functions with a measure, except the turns of the forwarding loop, which take fuel: \<open>passthrough_fuel\<close>
  is twice the length of the buffer plus two, since every second turn takes a request out of it, and
  the property on termination shows that it always suffices.

  \<^bold>\<open>What the properties say of faults.\<close> Where the code deviates from its intent, the property states
  what it does, with a witness: text after a late terminator is no longer restored, a pipelined
  request is sent twice, concurrent saves lose a vault, a path in a request deletes a file elsewhere.

  \<^bold>\<open>Not modelled.\<close> The accept loops and the start of tasks, which only spawn the handlers; real
  interleavings of the tasks of one connection beyond the shared cells that each step is given; I/O
  errors while writing, which end a task; inference in the entity model and the process of the
  language model; the WebSocket stream; the tray's event loop and icon, printing commands, logging, privileged scripts and the installation into trust stores: terminal, system and
  library work without state of the program's own.
\<close>

end
